(* ===== verification/Prelude.thy ===== *)
theory Prelude
  imports Main "HOL-Library.Monad_Syntax"
begin

text \<open>
  Shared vocabulary of the development.  Node addresses, bounds-checked C arrays and
  the array loops the node classes are written with, and the sorted association
  lists that serve as the specification of every ordered container.
\<close>

named_theorems array_simps \<open>closed forms of the array loops\<close>

type_synonym blk_address = int

section \<open>C arrays\<close>

text \<open>
  A C array is a list of fixed length.  Reading or writing outside of it is undefined
  behaviour, the result \<open>None\<close>; a theorem that an operation is \<open>Some\<close> therefore also
  states that it stays within its arrays.
\<close>

definition aget :: "'a list \<Rightarrow> int \<Rightarrow> 'a option" where
  "aget a i = (if 0 \<le> i \<and> i < int (length a) then Some (a ! nat i) else None)"

definition aset :: "'a list \<Rightarrow> int \<Rightarrow> 'a \<Rightarrow> 'a list option" where
  "aset a i x = (if 0 \<le> i \<and> i < int (length a) then Some (a[nat i := x]) else None)"

lemma aget_nat [simp]: "i < length a \<Longrightarrow> aget a (int i) = Some (a ! i)"
  by (simp add: aget_def)

lemma aset_nat [simp]: "i < length a \<Longrightarrow> aset a (int i) x = Some (a[i := x])"
  by (simp add: aset_def)

text \<open>\<^verbatim>\<open>for (int i = hi; i >= p; i--) a[i + 1] = a[i];\<close>\<close>

function shift_up :: "'a list \<Rightarrow> int \<Rightarrow> int \<Rightarrow> 'a list option" where
  "shift_up a i p =
     (if p \<le> i then do { x \<leftarrow> aget a i; a' \<leftarrow> aset a (i + 1) x; shift_up a' (i - 1) p }
      else Some a)"
  by pat_completeness auto
termination
  by (relation "measure (\<lambda>(a, i, p). nat (i + 1 - p))") auto

text \<open>\<^verbatim>\<open>for (int i = p; i < n - 1; ++i) a[i] = a[i + 1];\<close>\<close>

function shift_down :: "'a list \<Rightarrow> int \<Rightarrow> int \<Rightarrow> 'a list option" where
  "shift_down a i n =
     (if i < n - 1 then do { x \<leftarrow> aget a (i + 1); a' \<leftarrow> aset a i x; shift_down a' (i + 1) n }
      else Some a)"
  by pat_completeness auto
termination
  by (relation "measure (\<lambda>(a, i, n). nat (n - 1 - i))") auto

text \<open>\<^verbatim>\<open>for (int i = from, j = to; i < n; ++i, ++j) dst[j] = src[i];\<close>\<close>

function copy_loop :: "'a list \<Rightarrow> int \<Rightarrow> int \<Rightarrow> 'a list \<Rightarrow> int \<Rightarrow> 'a list option" where
  "copy_loop src i n dst j =
     (if i < n then do { x \<leftarrow> aget src i; dst' \<leftarrow> aset dst j x; copy_loop src (i + 1) n dst' (j + 1) }
      else Some dst)"
  by pat_completeness auto
termination
  by (relation "measure (\<lambda>(src, i, n, dst, j). nat (n - i))") auto

declare shift_up.simps [simp del] shift_down.simps [simp del] copy_loop.simps [simp del]

lemma shift_up_closed [array_simps]:
  assumes "p \<le> n" "n < length a"
  shows "shift_up a (int n - 1) (int p) =
           Some (take (Suc p) a @ take (n - p) (drop p a) @ drop (Suc n) a)"
  using assms
proof (induction n arbitrary: a)
  case 0
  then show ?case by (simp add: shift_up.simps [of a "-1" 0] id_take_nth_drop [symmetric])
next
  case (Suc n)
  show ?case
  proof (cases "p = Suc n")
    case True
    then show ?thesis by (subst shift_up.simps) simp
  next
    case False
    with Suc.prems have le: "p \<le> n" "n < length a" by auto
    let ?b = "a[Suc n := a ! n]"
    have "shift_up a (int (Suc n) - 1) (int p) = shift_up ?b (int n - 1) (int p)"
      using Suc.prems le by (subst shift_up.simps) (simp add: aget_def aset_def nat_add_distrib)
    also have "\<dots> = Some (take (Suc p) ?b @ take (n - p) (drop p ?b) @ drop (Suc n) ?b)"
      using Suc.prems le by (intro Suc.IH) auto
    also have "take (Suc p) ?b @ take (n - p) (drop p ?b) @ drop (Suc n) ?b
             = take (Suc p) a @ take (Suc n - p) (drop p a) @ drop (Suc (Suc n)) a"
    proof -
      have 1: "take (n - p) (drop p ?b) = take (n - p) (drop p a)"
        using le by (simp add: drop_update_swap)
      have 2: "drop (Suc n) ?b = a ! n # drop (Suc (Suc n)) a"
        using Suc.prems by (simp add: Cons_nth_drop_Suc [symmetric, of "Suc n"])
      have 3: "take (Suc n - p) (drop p a) = take (n - p) (drop p a) @ [a ! n]"
        using le Suc.prems by (simp add: Suc_diff_le take_Suc_conv_app_nth)
      have 4: "take (Suc p) ?b = take (Suc p) a" using le by simp
      show ?thesis unfolding 1 2 3 4 by simp
    qed
    finally show ?thesis .
  qed
qed

lemma shift_down_closed [array_simps]:
  assumes "p < n" "n \<le> length a"
  shows "shift_down a (int p) (int n) = Some (take p a @ drop (Suc p) (take n a) @ drop (n - 1) a)"
  using assms
proof (induction "n - p" arbitrary: p a)
  case 0
  then show ?case by simp
next
  case (Suc d)
  show ?case
  proof (cases "Suc p = n")
    case True
    with Suc.prems show ?thesis by (subst shift_down.simps) (auto simp: min_def)
  next
    case False
    with Suc.prems have lt: "Suc p < n" by simp
    let ?b = "a[p := a ! Suc p]"
    have "shift_down a (int p) (int n) = shift_down ?b (int (Suc p)) (int n)"
      using Suc.prems lt
      by (subst shift_down.simps) (simp add: aget_def aset_def nat_add_distrib add.commute)
    also have "\<dots> = Some (take (Suc p) ?b @ drop (Suc (Suc p)) (take n ?b) @ drop (n - 1) ?b)"
      using Suc.prems Suc.hyps(2) lt by (intro Suc.hyps(1)) auto
    also have "take (Suc p) ?b @ drop (Suc (Suc p)) (take n ?b) @ drop (n - 1) ?b
             = take p a @ drop (Suc p) (take n a) @ drop (n - 1) a"
      using Suc.prems lt
      by (simp add: take_update_swap take_Suc_conv_app_nth Cons_nth_drop_Suc [symmetric, of "Suc p"] list_update_append)
    finally show ?thesis .
  qed
qed

lemma copy_loop_closed [array_simps]:
  assumes "i \<le> n" "n \<le> length src" "j + (n - i) \<le> length dst"
  shows "copy_loop src (int i) (int n) dst (int j) =
           Some (take j dst @ drop i (take n src) @ drop (j + (n - i)) dst)"
  using assms
proof (induction "n - i" arbitrary: i j dst)
  case 0
  then show ?case by (subst copy_loop.simps) simp
next
  case (Suc d)
  then have lt: "i < n" by simp
  let ?b = "dst[j := src ! i]"
  have "copy_loop src (int i) (int n) dst (int j) = copy_loop src (int (Suc i)) (int n) ?b (int (Suc j))"
    using Suc.prems lt by (subst copy_loop.simps) (simp add: add.commute)
  also have "\<dots> = Some (take (Suc j) ?b @ drop (Suc i) (take n src) @ drop (Suc j + (n - Suc i)) ?b)"
    using Suc.prems Suc.hyps(2) lt by (intro Suc.hyps(1)) auto
  also have "take (Suc j) ?b @ drop (Suc i) (take n src) @ drop (Suc j + (n - Suc i)) ?b
           = take j dst @ drop i (take n src) @ drop (j + (n - i)) dst"
    using Suc.prems lt
    by (simp add: take_Suc_conv_app_nth Cons_nth_drop_Suc [symmetric, of i "take n src"] Suc_diff_Suc)
  finally show ?case .
qed

section \<open>Sorted association lists\<close>

abbreviation keys :: "('k \<times> 'v) list \<Rightarrow> 'k set" where
  "keys xs \<equiv> fst ` set xs"

abbreviation sorted_keys :: "('k::linorder \<times> 'v) list \<Rightarrow> bool" where
  "sorted_keys xs \<equiv> sorted_wrt (<) (map fst xs)"

text \<open>
  Storing, deleting and restricting to a key range, as an ordered map does.  They are
  filters, so they distribute over the concatenations a search tree is made of.
\<close>

definition kv_put :: "'k::linorder \<Rightarrow> 'v \<Rightarrow> ('k \<times> 'v) list \<Rightarrow> ('k \<times> 'v) list" where
  "kv_put k v xs = filter (\<lambda>e. fst e < k) xs @ (k, v) # filter (\<lambda>e. k < fst e) xs"

definition kv_del :: "'k \<Rightarrow> ('k \<times> 'v) list \<Rightarrow> ('k \<times> 'v) list" where
  "kv_del k xs = filter (\<lambda>e. fst e \<noteq> k) xs"

lemma sorted_keys_append:
  "sorted_keys (xs @ ys) \<longleftrightarrow> sorted_keys xs \<and> sorted_keys ys \<and> (\<forall>x\<in>keys xs. \<forall>y\<in>keys ys. x < y)"
  by (auto simp: sorted_wrt_append)

lemma kv_put_between:
  fixes k :: "'k::linorder"
  assumes xs: "\<forall>x\<in>keys xs. x < k" and ys: "\<forall>y\<in>keys ys. k < y"
  shows "kv_put k v (xs @ zs @ ys) = xs @ kv_put k v zs @ ys"
proof -
  have "filter (\<lambda>e. fst e < k) xs = xs" "filter (\<lambda>e. k < fst e) ys = ys"
    using xs ys by (auto simp: filter_id_conv)
  moreover have "filter (\<lambda>e. k < fst e) xs = []" "filter (\<lambda>e. fst e < k) ys = []"
    using xs ys by (auto simp: filter_empty_conv)
  ultimately show ?thesis by (simp add: kv_put_def)
qed

lemma kv_del_between:
  fixes k :: "'k::linorder"
  assumes xs: "\<forall>x\<in>keys xs. x < k" and ys: "\<forall>y\<in>keys ys. k < y"
  shows "kv_del k (xs @ zs @ ys) = xs @ kv_del k zs @ ys"
proof -
  have "filter (\<lambda>e. fst e \<noteq> k) xs = xs" "filter (\<lambda>e. fst e \<noteq> k) ys = ys"
    using xs ys by (auto simp: filter_id_conv)
  then show ?thesis by (simp add: kv_del_def)
qed

lemma sorted_keys_filter: "sorted_keys xs \<Longrightarrow> sorted_keys (filter P xs)"
  by (induction xs) auto

lemma sorted_keys_take: "sorted_keys xs \<Longrightarrow> sorted_keys (take n xs)"
  by (simp add: take_map [symmetric] sorted_wrt_take)

lemma sorted_keys_drop: "sorted_keys xs \<Longrightarrow> sorted_keys (drop n xs)"
  by (simp add: drop_map [symmetric] sorted_wrt_drop)

lemma sorted_keys_tl: "sorted_keys xs \<Longrightarrow> sorted_keys (tl xs)"
  using sorted_keys_drop [of xs "Suc 0"] by (simp add: drop_Suc)

lemma sorted_keys_butlast: "sorted_keys xs \<Longrightarrow> sorted_keys (butlast xs)"
  by (simp add: butlast_conv_take sorted_keys_take)

lemma kv_put_sorted:
  assumes "sorted_keys xs"
  shows "sorted_keys (kv_put k v xs)"
  using assms sorted_keys_filter [OF assms, of "\<lambda>e. fst e < k"]
    sorted_keys_filter [OF assms, of "\<lambda>e. k < fst e"]
  by (auto simp: kv_put_def sorted_wrt_append intro: less_trans)

lemma kv_del_sorted: "sorted_keys xs \<Longrightarrow> sorted_keys (kv_del k xs)"
  by (simp add: kv_del_def sorted_keys_filter)

lemma keys_kv_put: "keys (kv_put k v xs) = insert k (keys xs)"
  by (force simp: kv_put_def image_iff)

lemma keys_kv_del: "keys (kv_del k xs) = keys xs - {k}"
  by (force simp: kv_del_def)

lemma map_of_filter_key: "map_of (filter (\<lambda>e. P (fst e)) xs) k = (if P k then map_of xs k else None)"
  by (induction xs) auto

lemma map_of_between:
  fixes k :: "'k::linorder"
  assumes xs: "\<forall>x\<in>keys xs. x < k" and ys: "\<forall>y\<in>keys ys. k < y"
  shows "map_of (xs @ zs @ ys) k = map_of zs k"
proof -
  have "map_of xs k = None" "map_of ys k = None"
    using xs ys by (auto simp: map_of_eq_None_iff)
  then show ?thesis by (simp add: map_add_def split: option.splits)
qed

lemma map_of_kv_put: "map_of (kv_put k v xs) = (map_of xs)(k \<mapsto> v)"
proof (rule ext)
  fix x
  show "map_of (kv_put k v xs) x = ((map_of xs)(k \<mapsto> v)) x"
    using map_of_filter_key [of "\<lambda>y. y < k" xs x] map_of_filter_key [of "\<lambda>y. k < y" xs x]
    by (auto simp: kv_put_def map_add_def split: option.splits)
qed

lemma map_of_kv_del: "map_of (kv_del k xs) = (map_of xs)(k := None)"
  by (induction xs) (auto simp: kv_del_def fun_eq_iff)

text \<open>The number of smaller keys: where a key is, or would be inserted.\<close>

definition rank :: "'k::linorder \<Rightarrow> ('k \<times> 'v) list \<Rightarrow> nat" where
  "rank k xs = length (filter (\<lambda>e. fst e < k) xs)"

lemma rank_le [simp]: "rank k xs \<le> length xs"
  by (simp add: rank_def)

lemma sorted_keys_split:
  assumes "sorted_keys xs"
  shows "filter (\<lambda>e. fst e < k) xs @ filter (\<lambda>e. \<not> fst e < k) xs = xs"
  using assms
proof (induction xs)
  case (Cons x xs)
  show ?case
  proof (cases "fst x < k")
    case False
    with Cons.prems have "\<forall>e\<in>set xs. \<not> fst e < k" by force
    then have "filter (\<lambda>e. fst e < k) xs = []" "filter (\<lambda>e. \<not> fst e < k) xs = xs"
      by (auto simp: filter_empty_conv filter_id_conv)
    with False show ?thesis by simp
  qed (use Cons in auto)
qed simp

lemma take_rank: "sorted_keys xs \<Longrightarrow> take (rank k xs) xs = filter (\<lambda>e. fst e < k) xs"
  by (metis append_eq_conv_conj rank_def sorted_keys_split)

lemma drop_rank: "sorted_keys xs \<Longrightarrow> drop (rank k xs) xs = filter (\<lambda>e. \<not> fst e < k) xs"
  by (metis append_eq_conv_conj rank_def sorted_keys_split)

lemma rank_nth_less:
  assumes "sorted_keys xs" "i < length xs"
  shows "fst (xs ! i) < k \<longleftrightarrow> i < rank k xs"
proof
  assume "i < rank k xs"
  then have "xs ! i \<in> set (take (rank k xs) xs)"
    by (metis assms(2) in_set_conv_nth length_take min_less_iff_conj nth_take)
  then show "fst (xs ! i) < k" by (simp add: take_rank assms(1))
next
  assume less: "fst (xs ! i) < k"
  show "i < rank k xs"
  proof (rule ccontr)
    assume "\<not> i < rank k xs"
    then have "drop (rank k xs) xs ! (i - rank k xs) = xs ! i" "i - rank k xs < length (drop (rank k xs) xs)"
      using assms(2) by simp_all
    then have "xs ! i \<in> set (drop (rank k xs) xs)" by (metis nth_mem)
    with less show False by (simp add: drop_rank assms(1))
  qed
qed

lemma rank_hit:
  assumes "sorted_keys xs" "k \<in> keys xs"
  shows "rank k xs < length xs" "fst (xs ! rank k xs) = k"
proof -
  from assms(2) obtain i where i: "i < length xs" "fst (xs ! i) = k"
    by (auto simp: in_set_conv_nth)
  have "\<not> i < rank k xs" using rank_nth_less [OF assms(1) i(1), of k] i(2) by simp
  moreover have "\<not> rank k xs < i"
  proof
    assume lt: "rank k xs < i"
    then have "fst (xs ! rank k xs) < fst (xs ! i)"
      using assms(1) i(1) by (simp add: sorted_wrt_iff_nth_less)
    then have "rank k xs < rank k xs"
      using rank_nth_less [OF assms(1), of "rank k xs" k] lt i by simp
    then show False by simp
  qed
  ultimately have "i = rank k xs" by simp
  with i show "rank k xs < length xs" "fst (xs ! rank k xs) = k" by simp_all
qed

lemma rank_miss:
  assumes "sorted_keys xs" "k \<notin> keys xs"
  shows "drop (rank k xs) xs = filter (\<lambda>e. k < fst e) xs"
proof -
  have "filter (\<lambda>e. \<not> fst e < k) xs = filter (\<lambda>e. k < fst e) xs"
    using assms(2) by (intro filter_cong) force+
  then show ?thesis by (simp add: drop_rank assms(1))
qed

lemma drop_rank_hit:
  assumes "sorted_keys xs" "k \<in> keys xs"
  shows "drop (Suc (rank k xs)) xs = filter (\<lambda>e. k < fst e) xs"
proof -
  let ?r = "rank k xs"
  have s: "sorted_keys (drop ?r xs)" using assms(1) by (simp add: drop_map [symmetric] sorted_wrt_drop)
  have d: "drop ?r xs = xs ! ?r # drop (Suc ?r) xs"
    using rank_hit [OF assms] by (simp add: Cons_nth_drop_Suc)
  have "\<forall>e\<in>set (drop (Suc ?r) xs). k < fst e"
    using s rank_hit(2) [OF assms] unfolding d by auto
  then have "filter (\<lambda>e. k < fst e) (drop (Suc ?r) xs) = drop (Suc ?r) xs"
    by (simp add: filter_id_conv)
  moreover have "filter (\<lambda>e. k < fst e) (take ?r xs) = []"
    by (auto simp: take_rank assms(1) filter_empty_conv)
  moreover have "filter (\<lambda>e. k < fst e) xs
      = filter (\<lambda>e. k < fst e) (take ?r xs) @ filter (\<lambda>e. k < fst e) (drop ?r xs)"
    by (metis append_take_drop_id filter_append)
  ultimately show ?thesis using rank_hit(2) [OF assms] by (simp add: d)
qed

lemma kv_put_rank:
  assumes "sorted_keys xs"
  shows "kv_put k v xs = take (rank k xs) xs @ (k, v) # drop (if k \<in> keys xs then Suc (rank k xs) else rank k xs) xs"
  using assms by (simp add: kv_put_def take_rank rank_miss drop_rank_hit)

lemma kv_del_rank:
  assumes "sorted_keys xs" "k \<in> keys xs"
  shows "kv_del k xs = take (rank k xs) xs @ drop (Suc (rank k xs)) xs"
proof -
  have "filter (\<lambda>e. fst e \<noteq> k) (take (rank k xs) xs) = take (rank k xs) xs"
    unfolding filter_id_conv by (auto simp: take_rank assms(1))
  moreover have "filter (\<lambda>e. fst e \<noteq> k) (drop (Suc (rank k xs)) xs) = drop (Suc (rank k xs)) xs"
    unfolding filter_id_conv by (auto simp: drop_rank_hit assms)
  moreover have "xs = take (rank k xs) xs @ xs ! rank k xs # drop (Suc (rank k xs)) xs"
    using rank_hit(1) [OF assms] by (rule id_take_nth_drop)
  then have "filter (\<lambda>e. fst e \<noteq> k) xs
      = filter (\<lambda>e. fst e \<noteq> k) (take (rank k xs) xs @ xs ! rank k xs # drop (Suc (rank k xs)) xs)"
    by (rule arg_cong)
  ultimately show ?thesis using rank_hit(2) [OF assms] by (simp add: kv_del_def)
qed

lemma kv_del_absent: "k \<notin> keys xs \<Longrightarrow> kv_del k xs = xs"
  by (force simp: kv_del_def filter_id_conv)

lemma map_of_sorted_rank:
  assumes "sorted_keys xs"
  shows "map_of xs k = (if k \<in> keys xs then Some (snd (xs ! rank k xs)) else None)"
proof (cases "k \<in> keys xs")
  case True
  have "distinct (map fst xs)" using assms strict_sorted_iff by blast
  moreover have "(k, snd (xs ! rank k xs)) \<in> set xs"
    using rank_hit [OF assms True] by (metis nth_mem prod.collapse)
  ultimately show ?thesis using True by simp
qed (auto simp: map_of_eq_None_iff)

end
