(* ===== verification/Leaf_Node.thy ===== *)
theory Leaf_Node
  imports Prelude
begin

text \<open>
  The class \<^verbatim>\<open>LeafNode\<close> of \<^verbatim>\<open>src/src/tree/leaf_node.h\<close>: an array of \<^verbatim>\<open>CAPACITY\<close>
  entries of which the first \<open>leaf_size\<close> are live, the address of the leaf to the
  right and the node's own address.  Every method is translated with its loops and
  array accesses, and is shown to act on the live entries as the corresponding
  operation on a sorted association list.
\<close>

section \<open>State\<close>

record ('k, 'v) leaf_node =
  entries :: "('k \<times> 'v) list"
  leaf_size :: nat
  right_sibling :: blk_address
  leaf_self :: blk_address
  leaf_modified :: bool

record ('k, 'n) split =
  split_left :: 'n
  split_right :: 'n
  boundary_key :: 'k

definition UNDERFLOW_BOUND :: "nat \<Rightarrow> nat" where
  "UNDERFLOW_BOUND n = (n + 1) div 2"

text \<open>The entries of a new object are uninitialised memory: an arbitrary value.\<close>

definition new_leaf :: "nat \<Rightarrow> blk_address \<Rightarrow> ('k, 'v) leaf_node" where
  "new_leaf CAPACITY rep = \<lparr>entries = replicate CAPACITY undefined, leaf_size = 0,
     right_sibling = -1, leaf_self = rep, leaf_modified = False\<rparr>"

definition leaf_mark :: "('k, 'v) leaf_node \<Rightarrow> ('k, 'v) leaf_node" where
  "leaf_mark l = l\<lparr>leaf_modified := True\<rparr>"

section \<open>Operations\<close>

function search_loop :: "('k::linorder \<times> 'v) list \<Rightarrow> 'k \<Rightarrow> int \<Rightarrow> int \<Rightarrow> (bool \<times> int) option" where
  "search_loop es key l r =
     (if l \<le> r then
        (let m = (l + r) div 2 in
         aget es m \<bind> (\<lambda>e.
         if fst e < key then search_loop es key (m + 1) r
         else if fst e = key then Some (True, m)
         else search_loop es key l (m - 1)))
      else Some (False, l))"
  by pat_completeness auto
termination
  by (relation "measure (\<lambda>(es, key, l, r). nat (r - l + 1))") auto

declare search_loop.simps [simp del]

definition search_key_position :: "('k::linorder, 'v) leaf_node \<Rightarrow> 'k \<Rightarrow> (bool \<times> int) option" where
  "search_key_position l key = search_loop (entries l) key 0 (int (leaf_size l) - 1)"

text \<open>The linear scan that the source keeps as a comment below the binary search.\<close>

function linear_scan :: "('k::linorder \<times> 'v) list \<Rightarrow> nat \<Rightarrow> 'k \<Rightarrow> nat \<Rightarrow> nat option" where
  "linear_scan es n key position =
     (if position < n then
        aget es (int position) \<bind> (\<lambda>e.
        if key \<le> fst e then Some position else linear_scan es n key (Suc position))
      else Some position)"
  by pat_completeness auto
termination
  by (relation "measure (\<lambda>(es, n, key, position). n - position)") auto

declare linear_scan.simps [simp del]

definition linear_key_position :: "('k::linorder, 'v) leaf_node \<Rightarrow> 'k \<Rightarrow> (bool \<times> int) option" where
  "linear_key_position l key =
     do { position \<leftarrow> linear_scan (entries l) (leaf_size l) key 0;
          if position < leaf_size l
          then do { e \<leftarrow> aget (entries l) (int position); Some (fst e = key, int position) }
          else Some (False, int position) }"

definition leaf_insert ::
  "nat \<Rightarrow> 'k::linorder \<Rightarrow> 'v \<Rightarrow> ('k, 'v) leaf_node \<Rightarrow> (bool \<times> ('k, 'v) leaf_node) option" where
  "leaf_insert CAPACITY key val l0 =
     (let l = leaf_mark l0 in
      search_key_position l key \<bind> (\<lambda>(found, insert_position).
      if found then
        do { e \<leftarrow> aget (entries l) insert_position;
             es \<leftarrow> aset (entries l) insert_position (fst e, val);
             Some (True, l\<lparr>entries := es\<rparr>) }
      else if leaf_size l \<ge> CAPACITY then Some (False, l)
      else
        do { es \<leftarrow> shift_up (entries l) (int (leaf_size l) - 1) insert_position;
             es' \<leftarrow> aset es insert_position (key, val);
             Some (True, l\<lparr>entries := es', leaf_size := leaf_size l + 1\<rparr>) }))"

text \<open>
  \<^verbatim>\<open>insert_with_split_support\<close>.  The argument \<open>right_rep\<close> is the address the block
  accessor assigns to the node created by a split; it is used in that branch only.
  The result is the node itself and, when it was split, the \<^verbatim>\<open>Split\<close> structure.
\<close>

definition leaf_split_insert ::
  "nat \<Rightarrow> blk_address \<Rightarrow> 'k::linorder \<Rightarrow> 'v \<Rightarrow> int \<Rightarrow> ('k, 'v) leaf_node
     \<Rightarrow> (('k, 'v) leaf_node \<times> ('k, ('k, 'v) leaf_node) split option) option" where
  "leaf_split_insert CAPACITY right_rep key val insert_position l =
     (let insert_to_first_half = insert_position < int (CAPACITY div 2);
          entry_index_for_right_node = CAPACITY div 2;
          right0 = (leaf_mark (new_leaf CAPACITY right_rep))\<lparr>right_sibling := right_sibling l\<rparr>;
          left0 = l\<lparr>right_sibling := leaf_self right0\<rparr>;
          moved = CAPACITY - entry_index_for_right_node
      in do {
        res \<leftarrow> copy_loop (entries left0) (int entry_index_for_right_node) (int CAPACITY) (entries right0) 0;
        let left1 = left0\<lparr>leaf_size := leaf_size left0 - moved\<rparr>;
        let right1 = right0\<lparr>entries := res, leaf_size := moved\<rparr>;
        (left2, right2) \<leftarrow>
          (if insert_to_first_half
           then map_option (\<lambda>(_, n). (n, right1)) (leaf_insert CAPACITY key val left1)
           else map_option (\<lambda>(_, n). (left1, n)) (leaf_insert CAPACITY key val right1));
        e \<leftarrow> aget (entries right2) 0;
        Some (left2, Some \<lparr>split_left = left2, split_right = right2, boundary_key = fst e\<rparr>) })"

definition leaf_insert_with_split_support ::
  "nat \<Rightarrow> blk_address \<Rightarrow> 'k::linorder \<Rightarrow> 'v \<Rightarrow> ('k, 'v) leaf_node
     \<Rightarrow> (('k, 'v) leaf_node \<times> ('k, ('k, 'v) leaf_node) split option) option" where
  "leaf_insert_with_split_support CAPACITY right_rep key val l0 =
     (let l = leaf_mark l0 in
      search_key_position l key \<bind> (\<lambda>(found, insert_position).
      if found then
        do { e \<leftarrow> aget (entries l) insert_position;
             es \<leftarrow> aset (entries l) insert_position (fst e, val);
             Some (l\<lparr>entries := es\<rparr>, None) }
      else if leaf_size l < CAPACITY then
        do { es \<leftarrow> shift_up (entries l) (int (leaf_size l) - 1) insert_position;
             es' \<leftarrow> aset es insert_position (key, val);
             Some (l\<lparr>entries := es', leaf_size := leaf_size l + 1\<rparr>, None) }
      else leaf_split_insert CAPACITY right_rep key val insert_position l))"

definition leaf_search :: "('k::linorder, 'v) leaf_node \<Rightarrow> 'k \<Rightarrow> 'v option option" where
  "leaf_search l k =
     search_key_position l k \<bind> (\<lambda>(found, position).
     if found then do { e \<leftarrow> aget (entries l) position; Some (Some (snd e)) } else Some None)"

definition leaf_locate_key :: "('k::linorder, 'v) leaf_node \<Rightarrow> 'k \<Rightarrow> (bool \<times> blk_address \<times> int) option" where
  "leaf_locate_key l k =
     map_option (\<lambda>(found, position). (found, leaf_self l, position)) (search_key_position l k)"

definition leaf_update ::
  "'k::linorder \<Rightarrow> 'v \<Rightarrow> ('k, 'v) leaf_node \<Rightarrow> (bool \<times> ('k, 'v) leaf_node) option" where
  "leaf_update k v l =
     search_key_position l k \<bind> (\<lambda>(found, position).
     if found then
       do { e \<leftarrow> aget (entries l) position;
            es \<leftarrow> aset (entries l) position (fst e, v);
            Some (True, l\<lparr>entries := es\<rparr>) }
     else Some (False, l))"

text \<open>The overload without an underflow flag; it does not mark the node as modified.\<close>

definition leaf_erase :: "'k::linorder \<Rightarrow> ('k, 'v) leaf_node \<Rightarrow> (bool \<times> ('k, 'v) leaf_node) option" where
  "leaf_erase k l =
     search_key_position l k \<bind> (\<lambda>(found, position).
     if \<not> found then Some (False, l)
     else do { es \<leftarrow> shift_down (entries l) position (int (leaf_size l));
               Some (True, l\<lparr>entries := es, leaf_size := leaf_size l - 1\<rparr>) })"

text \<open>
  \<^verbatim>\<open>delete_key(k, underflow)\<close>: the flag is an in-out parameter that keeps its value
  when the key is absent.
\<close>

definition leaf_delete_key ::
  "nat \<Rightarrow> 'k::linorder \<Rightarrow> bool \<Rightarrow> ('k, 'v) leaf_node \<Rightarrow> (bool \<times> bool \<times> ('k, 'v) leaf_node) option" where
  "leaf_delete_key CAPACITY k underflow l =
     search_key_position l k \<bind> (\<lambda>(found, position).
     if \<not> found then Some (False, underflow, l)
     else do { es \<leftarrow> shift_down (entries l) position (int (leaf_size l));
               let n = leaf_size l - 1;
               Some (True, n < (CAPACITY + 1) div 2, (leaf_mark l)\<lparr>entries := es, leaf_size := n\<rparr>) })"

definition leaf_get_leftmost_key :: "('k, 'v) leaf_node \<Rightarrow> 'k option" where
  "leaf_get_leftmost_key l = map_option fst (aget (entries l) 0)"

definition leaf_getEntry :: "('k, 'v) leaf_node \<Rightarrow> nat \<Rightarrow> ('k \<times> 'v) option option" where
  "leaf_getEntry l i = (if i \<ge> leaf_size l then Some None else map_option Some (aget (entries l) (int i)))"

definition leaf_borrow_from_right ::
  "('k, 'v) leaf_node \<Rightarrow> ('k, 'v) leaf_node \<Rightarrow> (('k, 'v) leaf_node \<times> ('k, 'v) leaf_node \<times> 'k) option" where
  "leaf_borrow_from_right l r =
     do { e \<leftarrow> aget (entries r) 0;
          les \<leftarrow> aset (entries l) (int (leaf_size l)) e;
          res \<leftarrow> shift_down (entries r) 0 (int (leaf_size r));
          b \<leftarrow> aget res 0;
          Some (l\<lparr>entries := les, leaf_size := leaf_size l + 1\<rparr>,
                r\<lparr>entries := res, leaf_size := leaf_size r - 1\<rparr>, fst b) }"

definition leaf_borrow_from_left ::
  "('k, 'v) leaf_node \<Rightarrow> ('k, 'v) leaf_node \<Rightarrow> (('k, 'v) leaf_node \<times> ('k, 'v) leaf_node \<times> 'k) option" where
  "leaf_borrow_from_left l r =
     do { res \<leftarrow> shift_up (entries r) (int (leaf_size r) - 1) 0;
          e \<leftarrow> aget (entries l) (int (leaf_size l) - 1);
          res' \<leftarrow> aset res 0 e;
          b \<leftarrow> aget res' 0;
          Some (l\<lparr>leaf_size := leaf_size l - 1\<rparr>,
                r\<lparr>entries := res', leaf_size := leaf_size r + 1\<rparr>, fst b) }"

definition leaf_merge ::
  "('k, 'v) leaf_node \<Rightarrow> ('k, 'v) leaf_node \<Rightarrow> (('k, 'v) leaf_node \<times> ('k, 'v) leaf_node) option" where
  "leaf_merge l r =
     do { les \<leftarrow> copy_loop (entries r) 0 (int (leaf_size r)) (entries l) (int (leaf_size l));
          Some (l\<lparr>entries := les, leaf_size := leaf_size l + leaf_size r, right_sibling := right_sibling r\<rparr>,
                r\<lparr>leaf_size := 0\<rparr>) }"

text \<open>
  \<^verbatim>\<open>balance\<close>: \<open>Some b\<close> is the new boundary key of a redistribution (the method returns
  \<^verbatim>\<open>false\<close>), \<open>None\<close> a merge (it returns \<^verbatim>\<open>true\<close>).
\<close>

definition leaf_balance ::
  "nat \<Rightarrow> ('k, 'v) leaf_node \<Rightarrow> ('k, 'v) leaf_node
     \<Rightarrow> (('k, 'v) leaf_node \<times> ('k, 'v) leaf_node \<times> 'k option) option" where
  "leaf_balance CAPACITY l0 r0 =
     (let l = leaf_mark l0; r = leaf_mark r0; underflow_bound = UNDERFLOW_BOUND CAPACITY in
      if leaf_size l < underflow_bound \<and> leaf_size r > underflow_bound
      then map_option (\<lambda>(l', r', b). (l', r', Some b)) (leaf_borrow_from_right l r)
      else if leaf_size r < underflow_bound \<and> leaf_size l > underflow_bound
      then map_option (\<lambda>(l', r', b). (l', r', Some b)) (leaf_borrow_from_left l r)
      else map_option (\<lambda>(l', r'). (l', r', None)) (leaf_merge l r))"

text \<open>\<^verbatim>\<open>toString\<close>, over the stream output of keys and values.\<close>

function leaf_print ::
  "('k \<Rightarrow> string) \<Rightarrow> ('v \<Rightarrow> string) \<Rightarrow> ('k, 'v) leaf_node \<Rightarrow> nat \<Rightarrow> string \<Rightarrow> string option" where
  "leaf_print showk showv l i ss =
     (if i < leaf_size l then
        aget (entries l) (int i) \<bind> (\<lambda>e.
        leaf_print showk showv l (Suc i)
          (ss @ ''('' @ showk (fst e) @ '','' @ showv (snd e) @ '')'' @
           (if int i \<noteq> int (leaf_size l) - 1 then '' '' else [])))
      else Some ss)"
  by pat_completeness auto
termination
  by (relation "measure (\<lambda>(showk, showv, l, i, ss). leaf_size l - i)") auto

declare leaf_print.simps [simp del]

definition leaf_toString ::
  "('k \<Rightarrow> string) \<Rightarrow> ('v \<Rightarrow> string) \<Rightarrow> ('k, 'v) leaf_node \<Rightarrow> string option" where
  "leaf_toString showk showv l = leaf_print showk showv l 0 []"

section \<open>Invariant and abstraction\<close>

definition leaf_list :: "('k, 'v) leaf_node \<Rightarrow> ('k \<times> 'v) list" where
  "leaf_list l = take (leaf_size l) (entries l)"

definition leaf_ok :: "nat \<Rightarrow> ('k::linorder, 'v) leaf_node \<Rightarrow> bool" where
  "leaf_ok CAPACITY l \<longleftrightarrow>
     length (entries l) = CAPACITY \<and> leaf_size l \<le> CAPACITY \<and> sorted_keys (leaf_list l)"

lemma leaf_okD:
  assumes "leaf_ok c l"
  shows "length (entries l) = c" "leaf_size l \<le> c" "sorted_keys (leaf_list l)" "length (leaf_list l) = leaf_size l"
  using assms by (auto simp: leaf_ok_def leaf_list_def)

lemma leaf_list_nth: "i < leaf_size l \<Longrightarrow> leaf_list l ! i = entries l ! i"
  by (simp add: leaf_list_def)

lemma leaf_mark_simps [simp]:
  "entries (leaf_mark l) = entries l" "leaf_size (leaf_mark l) = leaf_size l"
  "right_sibling (leaf_mark l) = right_sibling l" "leaf_self (leaf_mark l) = leaf_self l"
  "leaf_modified (leaf_mark l)" "leaf_list (leaf_mark l) = leaf_list l"
  "leaf_ok c (leaf_mark l) = leaf_ok c l"
  by (simp_all add: leaf_mark_def leaf_list_def leaf_ok_def)

lemma search_loop_rank:
  assumes "sorted_keys (take n es)" "n \<le> length es"
    and "0 \<le> l" "r < int n" "l \<le> int (rank k (take n es))" "int (rank k (take n es)) \<le> r + 1"
    and "k \<in> keys (take n es) \<Longrightarrow> int (rank k (take n es)) \<le> r"
  shows "search_loop es k l r = Some (k \<in> keys (take n es), int (rank k (take n es)))"
  using assms
proof (induction es k l r rule: search_loop.induct)
  case (1 es k l r)
  note sorted = "1.prems"(1) and bound = "1.prems"(2)
  let ?xs = "take n es" and ?m = "(l + r) div 2"
  let ?R = "rank k ?xs"
  show ?case
  proof (cases "l \<le> r")
    case False
    with "1.prems" have "k \<notin> keys ?xs" "l = int ?R" by auto
    with False show ?thesis by (subst search_loop.simps) simp
  next
    case True
    with "1.prems"(3,4) have m: "0 \<le> ?m" "l \<le> ?m" "?m \<le> r" "nat ?m < n" by linarith+
    define e where "e = es ! nat ?m"
    have nth: "?xs ! nat ?m = e" "nat ?m < length ?xs" using m bound by (simp_all add: e_def)
    have get: "aget es ?m = Some e" using m bound by (simp add: aget_def e_def)
    have less: "fst e < k \<longleftrightarrow> nat ?m < ?R"
      using rank_nth_less [OF sorted nth(2), of k] nth by simp
    have unf: "search_loop es k l r = (if fst e < k then search_loop es k (?m + 1) r
         else if fst e = k then Some (True, ?m) else search_loop es k l (?m - 1))"
      using True get by (simp add: search_loop.simps [of es k l r] Let_def)
    consider "fst e < k" | "fst e = k" | "k < fst e" by (meson linorder_less_linear)
    then show ?thesis
    proof cases
      case 1
      then have "search_loop es k (?m + 1) r = Some (k \<in> keys ?xs, int ?R)"
        using "1.prems" m(1,2) less by (intro "1.IH"(1) [OF True refl get 1]) simp_all
      with 1 show ?thesis by (simp only: unf if_True)
    next
      case 2
      then have mem: "k \<in> keys ?xs" using nth by (metis image_eqI nth_mem)
      have "\<not> ?R < nat ?m"
      proof
        assume "?R < nat ?m"
        then have "fst (?xs ! ?R) < fst (?xs ! nat ?m)"
          using sorted nth(2) by (simp add: sorted_wrt_iff_nth_less)
        then show False using rank_hit(2) [OF sorted mem] 2 nth by simp
      qed
      with less 2 m have "?m = int ?R" by simp
      with 2 mem show ?thesis using unf by simp
    next
      case 3
      then have ge: "?R \<le> nat ?m" using less by (meson not_less_iff_gr_or_eq not_less)
      have ne: "?R \<noteq> nat ?m" if "k \<in> keys ?xs"
        using rank_hit(2) [OF sorted that] nth 3 by auto
      from 3 have n3: "\<not> fst e < k" "fst e \<noteq> k" by auto
      have "search_loop es k l (?m - 1) = Some (k \<in> keys ?xs, int ?R)"
      proof (rule "1.IH"(2) [OF True refl get n3 sorted bound])
        show "?m - 1 < int n" "int ?R \<le> ?m - 1 + 1" using m ge by linarith+
        show "int ?R \<le> ?m - 1" if "k \<in> keys ?xs" using ne [OF that] ge m(1) by linarith
      qed (use "1.prems" in simp_all)
      with n3 show ?thesis using unf by simp
    qed
  qed
qed

lemma search_key_position_rank:
  assumes "leaf_ok c l"
  shows "search_key_position l k = Some (k \<in> keys (leaf_list l), int (rank k (leaf_list l)))"
proof -
  have n: "leaf_size l \<le> length (entries l)" using leaf_okD [OF assms] by simp
  have "rank k (leaf_list l) \<le> leaf_size l" using leaf_okD(4) [OF assms] rank_le by metis
  moreover have "rank k (leaf_list l) < leaf_size l" if "k \<in> keys (leaf_list l)"
    using rank_hit(1) [OF leaf_okD(3) [OF assms] that] leaf_okD(4) [OF assms] by simp
  ultimately show ?thesis
    using leaf_okD(3) [OF assms] n unfolding search_key_position_def leaf_list_def
    by (intro search_loop_rank) auto
qed

lemma linear_scan_rank:
  assumes "sorted_keys (take n es)" "n \<le> length es" "position \<le> rank k (take n es)"
  shows "linear_scan es n k position = Some (rank k (take n es))"
  using assms
proof (induction es n k position rule: linear_scan.induct)
  case (1 es n k position)
  have len: "length (take n es) = n" using "1.prems" by simp
  have rn: "rank k (take n es) \<le> n" using len rank_le by metis
  show ?case
  proof (cases "position < n")
    case False
    with "1.prems" rn show ?thesis by (subst linear_scan.simps) simp
  next
    case True
    have less: "fst (es ! position) < k \<longleftrightarrow> position < rank k (take n es)"
      using rank_nth_less [OF "1.prems"(1), of position k] True len by simp
    show ?thesis
    proof (cases "k \<le> fst (es ! position)")
      case k: True
      then have "position = rank k (take n es)" using less "1.prems"(3) by (simp add: not_less [symmetric])
      with True k show ?thesis using "1.prems" by (subst linear_scan.simps) simp
    next
      case False
      with less have "Suc position \<le> rank k (take n es)" by (simp add: not_le)
      then have "linear_scan es n k (Suc position) = Some (rank k (take n es))"
        using True False "1.prems" by (intro "1.IH") auto
      with True False show ?thesis using "1.prems" by (subst linear_scan.simps) simp
    qed
  qed
qed

lemma linear_key_position_rank:
  assumes "leaf_ok c l"
  shows "linear_key_position l k = Some (k \<in> keys (leaf_list l), int (rank k (leaf_list l)))"
proof -
  let ?xs = "leaf_list l"
  have n: "leaf_size l \<le> length (entries l)" using leaf_okD [OF assms] by simp
  have scan: "linear_scan (entries l) (leaf_size l) k 0 = Some (rank k ?xs)"
    using linear_scan_rank [OF _ n, of 0 k] leaf_okD(3) [OF assms] by (simp add: leaf_list_def)
  show ?thesis
  proof (cases "rank k ?xs < leaf_size l")
    case True
    have "fst (entries l ! rank k ?xs) = k \<longleftrightarrow> k \<in> keys ?xs"
      using rank_hit(2) [OF leaf_okD(3) [OF assms], of k] True leaf_list_nth [of _ l] leaf_okD(4) [OF assms]
      by (metis image_eqI nth_mem)
    with True n scan show ?thesis by (simp add: linear_key_position_def)
  next
    case False
    then have "k \<notin> keys ?xs"
      using rank_hit(1) [OF leaf_okD(3) [OF assms], of k] leaf_okD(4) [OF assms] by auto
    with False scan show ?thesis by (simp add: linear_key_position_def)
  qed
qed

section \<open>Functional behaviour\<close>

text \<open>Overwriting a live slot, and opening a slot for a new entry.\<close>

lemma take_overwrite:
  assumes "r < n" "n \<le> length es"
  shows "take n (es[r := x]) = take r (take n es) @ x # drop (Suc r) (take n es)"
proof -
  have "take n (es[r := x]) = (take n es)[r := x]" by (simp add: take_update_swap)
  also have "\<dots> = take r (take n es) @ x # drop (Suc r) (take n es)"
    using assms by (intro upd_conv_take_nth_drop) simp
  finally show ?thesis .
qed

lemma take_open_slot:
  assumes "r \<le> n" "n < length es"
  shows "take (Suc n) ((take (Suc r) es @ take (n - r) (drop r es) @ drop (Suc n) es)[r := x])
       = take r (take n es) @ x # drop r (take n es)"
proof -
  have "(take (Suc r) es @ take (n - r) (drop r es) @ drop (Suc n) es)[r := x]
      = take r es @ x # take (n - r) (drop r es) @ drop (Suc n) es"
    using assms by (simp add: take_Suc_conv_app_nth list_update_append)
  then show ?thesis using assms by (simp add: drop_take Suc_diff_le min_absorb1 min_absorb2)
qed

lemma take_close_slot:
  assumes "r < n" "n \<le> length es"
  shows "take (n - 1) (take r es @ drop (Suc r) (take n es) @ drop (n - 1) es)
       = take r (take n es) @ drop (Suc r) (take n es)"
proof -
  have "n - 1 = length (take r es @ drop (Suc r) (take n es))" using assms by simp
  then have "take (n - 1) ((take r es @ drop (Suc r) (take n es)) @ drop (n - 1) es)
      = take r es @ drop (Suc r) (take n es)" by (metis append_eq_conv_conj)
  then show ?thesis using assms by (simp add: min_absorb1)
qed

lemma leaf_overwrite:
  assumes "leaf_ok c l" "k \<in> keys (leaf_list l)"
  defines "r \<equiv> rank k (leaf_list l)"
  shows "r < leaf_size l" "r < length (entries l)" "fst (entries l ! r) = k"
    and "take (leaf_size l) ((entries l)[r := (k, v)]) = kv_put k v (leaf_list l)"
proof -
  show r: "r < leaf_size l"
    using rank_hit(1) [OF leaf_okD(3) [OF assms(1)] assms(2)] leaf_okD(4) [OF assms(1)] by (simp add: r_def)
  then show "r < length (entries l)" using leaf_okD(1,2) [OF assms(1)] by simp
  show "fst (entries l ! r) = k"
    using rank_hit(2) [OF leaf_okD(3) [OF assms(1)] assms(2)] r by (simp add: r_def leaf_list_nth)
  show "take (leaf_size l) ((entries l)[r := (k, v)]) = kv_put k v (leaf_list l)"
    using r leaf_okD [OF assms(1)] assms(2)
    by (simp add: kv_put_rank take_overwrite leaf_list_def r_def)
qed

lemma leaf_open_slot:
  assumes "leaf_ok c l" "k \<notin> keys (leaf_list l)" "leaf_size l < c"
  defines "r \<equiv> rank k (leaf_list l)"
  obtains es es' where "shift_up (entries l) (int (leaf_size l) - 1) (int r) = Some es"
    and "aset es (int r) (k, v) = Some es'" "length es' = c"
    and "take (Suc (leaf_size l)) es' = kv_put k v (leaf_list l)"
proof -
  let ?n = "leaf_size l" and ?a = "entries l"
  have len: "length ?a = c" "length (leaf_list l) = ?n" and sorted: "sorted_keys (leaf_list l)"
    using leaf_okD [OF assms(1)] by auto
  have r: "r \<le> ?n" using len rank_le [of k "leaf_list l"] by (simp add: r_def)
  let ?es = "take (Suc r) ?a @ take (?n - r) (drop r ?a) @ drop (Suc ?n) ?a"
  show thesis
  proof
    show "shift_up ?a (int ?n - 1) (int r) = Some ?es"
      using r assms(3) len by (simp add: array_simps)
    show "aset ?es (int r) (k, v) = Some (?es[r := (k, v)])"
      using r assms(3) len by (intro aset_nat) simp
    show "length (?es[r := (k, v)]) = c" using r assms(3) len by simp
    show "take (Suc ?n) (?es[r := (k, v)]) = kv_put k v (leaf_list l)"
      using take_open_slot [OF r, of ?a "(k, v)"] assms(2,3) len sorted
      by (simp add: kv_put_rank leaf_list_def r_def)
  qed
qed

text \<open>The leaf at address \<open>a\<close> with live entries \<open>xs\<close> and right sibling \<open>sib\<close>.\<close>

definition leaf_repr ::
  "nat \<Rightarrow> blk_address \<Rightarrow> ('k::linorder \<times> 'v) list \<Rightarrow> blk_address \<Rightarrow> ('k, 'v) leaf_node \<Rightarrow> bool" where
  "leaf_repr c a xs sib l \<longleftrightarrow>
     leaf_ok c l \<and> leaf_list l = xs \<and> right_sibling l = sib \<and> leaf_self l = a"

text \<open>Insertion into, and rebalancing of, lists of bounded length.\<close>

definition ins_split ::
  "nat \<Rightarrow> 'k::linorder \<Rightarrow> 'v \<Rightarrow> ('k \<times> 'v) list \<Rightarrow> ('k \<times> 'v) list \<times> ('k \<times> 'v) list option" where
  "ins_split c k v xs =
     (if k \<in> keys xs \<or> length xs < c then (kv_put k v xs, None)
      else if rank k xs < c div 2 then (kv_put k v (take (c div 2) xs), Some (drop (c div 2) xs))
      else (take (c div 2) xs, Some (kv_put k v (drop (c div 2) xs))))"

definition redistribute :: "nat \<Rightarrow> 'a list \<Rightarrow> 'a list \<Rightarrow> 'a list \<times> 'a list option" where
  "redistribute c xs ys =
     (if length xs < UNDERFLOW_BOUND c \<and> UNDERFLOW_BOUND c < length ys then (xs @ [hd ys], Some (tl ys))
      else if length ys < UNDERFLOW_BOUND c \<and> UNDERFLOW_BOUND c < length xs
      then (butlast xs, Some (last xs # ys))
      else (xs @ ys, None))"

lemma leaf_reprD:
  assumes "leaf_repr c a xs sib l"
  shows "leaf_ok c l" "leaf_list l = xs" "right_sibling l = sib" "leaf_self l = a"
    "sorted_keys xs" "length xs = leaf_size l" "leaf_size l \<le> c" "length (entries l) = c"
  using assms leaf_okD [of c l] by (auto simp: leaf_repr_def)

lemma leaf_reprI:
  assumes "length es = c" "n \<le> c" "take n es = xs" "sorted_keys xs"
    "entries l = es" "leaf_size l = n" "right_sibling l = sib" "leaf_self l = a"
  shows "leaf_repr c a xs sib l"
  using assms by (simp add: leaf_repr_def leaf_ok_def leaf_list_def)

lemma leaf_repr_mark [simp]: "leaf_repr c a xs sib (leaf_mark l) = leaf_repr c a xs sib l"
  by (simp add: leaf_repr_def)

lemma leaf_repr_position:
  assumes "leaf_repr c a xs sib l"
  shows "search_key_position l k = Some (k \<in> keys xs, int (rank k xs))"
  using search_key_position_rank [OF leaf_reprD(1) [OF assms]] leaf_reprD(2) [OF assms] by simp

lemma leaf_repr_aget:
  assumes "leaf_repr c a xs sib l"
  shows "i < length xs \<Longrightarrow> aget (entries l) (int i) = Some (xs ! i)"
    and "xs \<noteq> [] \<Longrightarrow> aget (entries l) 0 = Some (hd xs)"
proof -
  have nth: "aget (entries l) (int i) = Some (xs ! i)" if "i < length xs" for i
    using that leaf_reprD(2,6,7,8) [OF assms] leaf_list_nth [of i l] by simp
  then show "i < length xs \<Longrightarrow> aget (entries l) (int i) = Some (xs ! i)" .
  show "aget (entries l) 0 = Some (hd xs)" if "xs \<noteq> []"
    using nth [of 0] that by (simp add: hd_conv_nth)
qed

lemma leaf_insert_spec:
  assumes "leaf_repr c a xs sib l" "k \<in> keys xs \<or> length xs < c"
  shows "\<exists>l'. leaf_insert c k v l = Some (True, l') \<and> leaf_repr c a (kv_put k v xs) sib l' \<and> leaf_modified l'"
proof (cases "k \<in> keys xs")
  case True
  note R = leaf_reprD [OF assms(1)]
  have ow: "rank k xs < leaf_size l" "rank k xs < length (entries l)" "fst (entries l ! rank k xs) = k"
    "take (leaf_size l) ((entries l)[rank k xs := (k, v)]) = kv_put k v xs"
    using leaf_overwrite [OF R(1), of k] True R(2) by auto
  let ?l = "(leaf_mark l)\<lparr>entries := (entries l)[rank k xs := (k, v)]\<rparr>"
  have "leaf_insert c k v l = Some (True, ?l)"
    using leaf_repr_position [of c a xs sib "leaf_mark l" k] assms(1) True ow
    by (simp add: leaf_insert_def Let_def)
  moreover have "leaf_repr c a (kv_put k v xs) sib ?l"
    using ow(4) R kv_put_sorted [OF R(5)] by (intro leaf_reprI [where n = "leaf_size l"]) simp_all
  ultimately show ?thesis by auto
next
  case False
  note R = leaf_reprD [OF assms(1)]
  have lt: "leaf_size l < c" using assms(2) False R(6) by simp
  obtain es es' where e: "shift_up (entries l) (int (leaf_size l) - 1) (int (rank k xs)) = Some es"
    "aset es (int (rank k xs)) (k, v) = Some es'" "length es' = c"
    "take (Suc (leaf_size l)) es' = kv_put k v xs"
    using leaf_open_slot [OF R(1) _ lt, where k = k and v = v] False R(2) by auto
  let ?l = "(leaf_mark l)\<lparr>entries := es', leaf_size := leaf_size l + 1\<rparr>"
  have "leaf_insert c k v l = Some (True, ?l)"
    using leaf_repr_position [of c a xs sib "leaf_mark l" k] assms(1) False lt e
    by (simp add: leaf_insert_def Let_def)
  moreover have "leaf_repr c a (kv_put k v xs) sib ?l"
    using e R lt kv_put_sorted [OF R(5)] by (intro leaf_reprI [where n = "Suc (leaf_size l)"]) simp_all
  ultimately show ?thesis by auto
qed

lemma leaf_insert_full:
  assumes "leaf_repr c a xs sib l" "k \<notin> keys xs" "length xs = c"
  shows "leaf_insert c k v l = Some (False, leaf_mark l)"
  using assms leaf_repr_position [of c a xs sib "leaf_mark l" k] leaf_reprD(6) [OF assms(1)]
  by (simp add: leaf_insert_def Let_def)

text \<open>Without a split, \<^verbatim>\<open>insert_with_split_support\<close> has the body of \<^verbatim>\<open>insert\<close>.\<close>

lemma leaf_iwss_no_split:
  assumes "leaf_repr c a xs sib l" "k \<in> keys xs \<or> length xs < c"
  shows "leaf_insert_with_split_support c rr k v l = map_option (\<lambda>(_, l'). (l', None)) (leaf_insert c k v l)"
  using assms leaf_repr_position [of c a xs sib "leaf_mark l" k] leaf_reprD(6) [OF assms(1)]
  by (auto simp: leaf_insert_def leaf_insert_with_split_support_def Let_def map_option_bind
      option.map_comp comp_def split: option.splits intro!: bind_option_cong)

lemma leaf_split_insert_spec:
  assumes R: "leaf_repr c a xs sib l" and k: "k \<notin> keys xs" and full: "length xs = c" and c: "2 \<le> c"
    and l: "leaf_modified l"
  shows "\<exists>l' r' b. leaf_split_insert c rr k v (int (rank k xs)) l
           = Some (l', Some \<lparr>split_left = l', split_right = r', boundary_key = b\<rparr>)
         \<and> (\<exists>ys zs. ins_split c k v xs = (ys, Some zs) \<and> zs \<noteq> [] \<and> b = fst (hd zs)
              \<and> leaf_repr c a ys rr l' \<and> leaf_repr c rr zs sib r' \<and> leaf_modified l' \<and> leaf_modified r')"
proof -
  note D = leaf_reprD [OF R]
  let ?h = "c div 2"
  have e: "entries l = xs" "leaf_size l = c" using D full by (auto simp: leaf_list_def)
  let ?l = "l\<lparr>right_sibling := rr, leaf_size := ?h\<rparr>"
  let ?r = "(leaf_mark (new_leaf c rr))\<lparr>right_sibling := sib, entries := drop ?h xs @ drop (c - ?h) (replicate c undefined), leaf_size := c - ?h\<rparr>"
  have copy: "copy_loop (entries l) (int ?h) (int c) (replicate c undefined) 0
      = Some (drop ?h xs @ drop (c - ?h) (replicate c undefined))"
    using copy_loop_closed [of ?h c "entries l" 0 "replicate c undefined"] full e by simp
  have sorted: "sorted_keys (take ?h xs)" "sorted_keys (drop ?h xs)"
    using D(5) by (simp_all add: sorted_keys_take sorted_keys_drop)
  have L: "leaf_repr c a (take ?h xs) rr ?l"
    using sorted(1) e D full by (intro leaf_reprI [where n = ?h]) simp_all
  have Rr: "leaf_repr c rr (drop ?h xs) sib ?r"
    using sorted(2) full by (intro leaf_reprI [where n = "c - ?h"]) (simp_all add: leaf_mark_def new_leaf_def)
  have sizes: "c - (c - ?h) = ?h" "?h < c" "c - ?h < c" "\<not> c \<le> ?h" using c by auto
  show ?thesis
  proof (cases "rank k xs < ?h")
    case True
    obtain l' where l': "leaf_insert c k v ?l = Some (True, l')"
      "leaf_repr c a (kv_put k v (take ?h xs)) rr l'" "leaf_modified l'"
      using leaf_insert_spec [OF L, of k v] sizes full by auto
    have "aget (entries ?r) 0 = Some (hd (drop ?h xs))"
      using leaf_repr_aget(2) [OF Rr] sizes full by simp
    with True l' Rr k full e l sizes copy D(3) show ?thesis
      by (simp add: leaf_split_insert_def Let_def ins_split_def new_leaf_def leaf_mark_def)
  next
    case False
    obtain r' where r': "leaf_insert c k v ?r = Some (True, r')"
      "leaf_repr c rr (kv_put k v (drop ?h xs)) sib r'" "leaf_modified r'"
      using leaf_insert_spec [OF Rr, of k v] sizes full by auto
    have "aget (entries r') 0 = Some (hd (kv_put k v (drop ?h xs)))"
      using leaf_repr_aget(2) [OF r'(2)] by (simp add: kv_put_def)
    with False r' L k full e l sizes copy D(3) show ?thesis
      by (simp add: leaf_split_insert_def Let_def ins_split_def new_leaf_def leaf_mark_def kv_put_def)
  qed
qed

lemma leaf_iwss_spec:
  assumes R: "leaf_repr c a xs sib l" and c: "2 \<le> c"
  shows "(case ins_split c k v xs of
       (ys, None) \<Rightarrow> \<exists>l'. leaf_insert_with_split_support c rr k v l = Some (l', None)
          \<and> leaf_repr c a ys sib l' \<and> leaf_modified l'
     | (ys, Some zs) \<Rightarrow> zs \<noteq> [] \<and> (\<exists>l' r'. leaf_insert_with_split_support c rr k v l
            = Some (l', Some \<lparr>split_left = l', split_right = r', boundary_key = fst (hd zs)\<rparr>)
          \<and> leaf_repr c a ys rr l' \<and> leaf_repr c rr zs sib r' \<and> leaf_modified l' \<and> leaf_modified r'))"
proof (cases "k \<in> keys xs \<or> length xs < c")
  case True
  then show ?thesis
    using leaf_insert_spec [OF R True, of v] leaf_iwss_no_split [OF R True, of rr v]
    by (auto simp: ins_split_def)
next
  case False
  have full: "length xs = c" using False leaf_reprD(6,7) [OF R] by simp
  have "leaf_insert_with_split_support c rr k v l = leaf_split_insert c rr k v (int (rank k xs)) (leaf_mark l)"
    using False leaf_repr_position [of c a xs sib "leaf_mark l" k] R leaf_reprD(6) [OF R]
    by (simp add: leaf_insert_with_split_support_def Let_def)
  with leaf_split_insert_spec [of c a xs sib "leaf_mark l" k rr v] R False full c
  show ?thesis by auto
qed

lemma leaf_search_spec:
  assumes "leaf_repr c a xs sib l"
  shows "leaf_search l k = Some (map_of xs k)"
proof -
  have "aget (entries l) (int (rank k xs)) = Some (xs ! rank k xs)" if "k \<in> keys xs"
    using leaf_repr_aget(1) [OF assms rank_hit(1) [OF leaf_reprD(5) [OF assms] that]] .
  then show ?thesis
    using leaf_repr_position [OF assms, of k] map_of_sorted_rank [OF leaf_reprD(5) [OF assms], of k]
    by (simp add: leaf_search_def)
qed

lemma leaf_locate_key_spec:
  assumes "leaf_repr c a xs sib l"
  shows "leaf_locate_key l k = Some (k \<in> keys xs, a, int (rank k xs))"
  using leaf_repr_position [OF assms, of k] leaf_reprD(4) [OF assms] by (simp add: leaf_locate_key_def)

lemma leaf_update_spec:
  assumes "leaf_repr c a xs sib l"
  shows "\<exists>l'. leaf_update k v l = Some (k \<in> keys xs, l')
     \<and> leaf_repr c a (if k \<in> keys xs then kv_put k v xs else xs) sib l' \<and> leaf_modified l' = leaf_modified l"
proof (cases "k \<in> keys xs")
  case True
  note R = leaf_reprD [OF assms]
  have ow: "rank k xs < leaf_size l" "rank k xs < length (entries l)" "fst (entries l ! rank k xs) = k"
    "take (leaf_size l) ((entries l)[rank k xs := (k, v)]) = kv_put k v xs"
    using leaf_overwrite [OF R(1), of k] True R(2) by auto
  let ?l = "l\<lparr>entries := (entries l)[rank k xs := (k, v)]\<rparr>"
  have "leaf_update k v l = Some (True, ?l)"
    using leaf_repr_position [OF assms, of k] True ow by (simp add: leaf_update_def)
  moreover have "leaf_repr c a (kv_put k v xs) sib ?l"
    using ow(4) R kv_put_sorted [OF R(5)] by (intro leaf_reprI [where n = "leaf_size l"]) simp_all
  ultimately show ?thesis using True by auto
next
  case False
  then show ?thesis using leaf_repr_position [OF assms, of k] assms by (simp add: leaf_update_def)
qed

text \<open>Closing the slot of a deleted entry.\<close>

lemma leaf_close_slot:
  assumes R: "leaf_repr c a xs sib l" and k: "k \<in> keys xs"
  shows "\<exists>es. shift_down (entries l) (int (rank k xs)) (int (leaf_size l)) = Some es \<and> length es = c
     \<and> take (leaf_size l - 1) es = kv_del k xs \<and> length (kv_del k xs) = leaf_size l - 1"
proof -
  note D = leaf_reprD [OF R]
  have r: "rank k xs < leaf_size l" using rank_hit(1) [OF D(5) k] D(6) by simp
  have tk: "take (leaf_size l) (entries l) = xs" and le: "leaf_size l \<le> length (entries l)"
    using D by (simp_all add: leaf_list_def)
  have "shift_down (entries l) (int (rank k xs)) (int (leaf_size l))
      = Some (take (rank k xs) (entries l) @ drop (Suc (rank k xs)) (take (leaf_size l) (entries l))
              @ drop (leaf_size l - 1) (entries l))"
    using r D by (intro shift_down_closed) simp_all
  moreover have "take (leaf_size l - 1) (take (rank k xs) (entries l)
      @ drop (Suc (rank k xs)) (take (leaf_size l) (entries l)) @ drop (leaf_size l - 1) (entries l)) = kv_del k xs"
    using take_close_slot [OF r le] unfolding tk kv_del_rank [OF D(5) k] .
  ultimately show ?thesis using r D kv_del_rank [OF D(5) k] by simp
qed

lemma leaf_erase_spec:
  assumes R: "leaf_repr c a xs sib l"
  shows "\<exists>l'. leaf_erase k l = Some (k \<in> keys xs, l') \<and> leaf_repr c a (kv_del k xs) sib l'
     \<and> leaf_modified l' = leaf_modified l"
proof (cases "k \<in> keys xs")
  case True
  then obtain es where es: "shift_down (entries l) (int (rank k xs)) (int (leaf_size l)) = Some es" "length es = c"
     "take (leaf_size l - 1) es = kv_del k xs"
    using leaf_close_slot [OF R] by blast
  let ?l = "l\<lparr>entries := es, leaf_size := leaf_size l - 1\<rparr>"
  have "leaf_erase k l = Some (True, ?l)"
    using leaf_repr_position [OF R, of k] True es by (simp add: leaf_erase_def)
  moreover have "leaf_repr c a (kv_del k xs) sib ?l"
    using es leaf_reprD [OF R] kv_del_sorted [OF leaf_reprD(5) [OF R]]
    by (intro leaf_reprI [where n = "leaf_size l - 1"]) simp_all
  ultimately show ?thesis using True by auto
next
  case False
  then show ?thesis using leaf_repr_position [OF R, of k] R by (simp add: leaf_erase_def kv_del_absent)
qed

lemma leaf_delete_key_spec:
  assumes R: "leaf_repr c a xs sib l"
  shows "\<exists>l'. leaf_delete_key c k u l
       = Some (k \<in> keys xs, if k \<in> keys xs then length (kv_del k xs) < UNDERFLOW_BOUND c else u, l')
     \<and> leaf_repr c a (kv_del k xs) sib l' \<and> (if k \<in> keys xs then leaf_modified l' else l' = l)"
proof (cases "k \<in> keys xs")
  case True
  then obtain es where es: "shift_down (entries l) (int (rank k xs)) (int (leaf_size l)) = Some es" "length es = c"
     "take (leaf_size l - 1) es = kv_del k xs" "length (kv_del k xs) = leaf_size l - 1"
    using leaf_close_slot [OF R] by blast
  let ?l = "(leaf_mark l)\<lparr>entries := es, leaf_size := leaf_size l - 1\<rparr>"
  have "leaf_delete_key c k u l = Some (True, length (kv_del k xs) < UNDERFLOW_BOUND c, ?l)"
    using leaf_repr_position [OF R, of k] True es
    by (simp add: leaf_delete_key_def UNDERFLOW_BOUND_def Let_def)
  moreover have "leaf_repr c a (kv_del k xs) sib ?l"
    using es leaf_reprD [OF R] kv_del_sorted [OF leaf_reprD(5) [OF R]]
    by (intro leaf_reprI [where n = "leaf_size l - 1"]) simp_all
  ultimately show ?thesis using True by auto
next
  case False
  then show ?thesis using leaf_repr_position [OF R, of k] R by (simp add: leaf_delete_key_def kv_del_absent)
qed

lemma leaf_borrow_from_right_spec:
  assumes L: "leaf_repr c a xs s1 l" and R: "leaf_repr c b ys s2 r"
    and ord: "sorted_keys (xs @ ys)" and "length xs < c" "2 \<le> length ys"
  shows "\<exists>l' r'. leaf_borrow_from_right l r = Some (l', r', fst (hd (tl ys)))
     \<and> leaf_repr c a (xs @ [hd ys]) s1 l' \<and> leaf_repr c b (tl ys) s2 r'
     \<and> leaf_modified l' = leaf_modified l \<and> leaf_modified r' = leaf_modified r"
proof -
  note DL = leaf_reprD [OF L] and DR = leaf_reprD [OF R]
  let ?n = "leaf_size l" and ?m = "leaf_size r"
  let ?les = "(entries l)[?n := hd ys]"
  let ?res = "drop (Suc 0) (take ?m (entries r)) @ drop (?m - 1) (entries r)"
  have ys: "take ?m (entries r) = ys" "ys \<noteq> []" "tl ys \<noteq> []" "tl ys = drop (Suc 0) ys"
    using DR(2,6) assms(5) by (auto simp: leaf_list_def drop_Suc tl_Nil)
  have shift: "shift_down (entries r) 0 (int ?m) = Some ?res"
    using shift_down_closed [of 0 ?m "entries r"] DR assms(5) by simp
  have L': "leaf_repr c a (xs @ [hd ys]) s1 (l\<lparr>entries := ?les, leaf_size := ?n + 1\<rparr>)"
  proof (rule leaf_reprI [where n = "Suc ?n"])
    show "take (Suc ?n) ?les = xs @ [hd ys]"
      using DL assms(4) by (simp add: take_Suc_conv_app_nth leaf_list_def)
    show "sorted_keys (xs @ [hd ys])" using ord ys(2) by (cases ys) (auto simp: sorted_wrt_append)
  qed (use DL assms(4) in simp_all)
  have R': "leaf_repr c b (tl ys) s2 (r\<lparr>entries := ?res, leaf_size := ?m - 1\<rparr>)"
    using DR ys sorted_keys_tl [OF DR(5)]
    by (intro leaf_reprI [where n = "?m - 1"]) simp_all
  have "aget ?res 0 = Some (hd (tl ys))" using leaf_repr_aget(2) [OF R' ys(3)] by simp
  moreover have "aget (entries r) 0 = Some (hd ys)" using leaf_repr_aget(2) [OF R ys(2)] .
  ultimately have "leaf_borrow_from_right l r = Some (l\<lparr>entries := ?les, leaf_size := ?n + 1\<rparr>,
      r\<lparr>entries := ?res, leaf_size := ?m - 1\<rparr>, fst (hd (tl ys)))"
    using shift DL assms(4) by (simp add: leaf_borrow_from_right_def)
  with L' R' show ?thesis by auto
qed

lemma leaf_borrow_from_left_spec:
  assumes L: "leaf_repr c a xs s1 l" and R: "leaf_repr c b ys s2 r"
    and ord: "sorted_keys (xs @ ys)" and "length ys < c" "1 \<le> length xs"
  shows "\<exists>l' r'. leaf_borrow_from_left l r = Some (l', r', fst (last xs))
     \<and> leaf_repr c a (butlast xs) s1 l' \<and> leaf_repr c b (last xs # ys) s2 r'
     \<and> leaf_modified l' = leaf_modified l \<and> leaf_modified r' = leaf_modified r"
proof -
  note DL = leaf_reprD [OF L] and DR = leaf_reprD [OF R]
  let ?n = "leaf_size l" and ?m = "leaf_size r"
  let ?res = "take (Suc 0) (entries r) @ take ?m (entries r) @ drop (Suc ?m) (entries r)"
  have xs: "xs \<noteq> []" "int ?n - 1 = int (?n - 1)" "?n - 1 < length xs" and ys: "take ?m (entries r) = ys"
    using DL(6) DR(2) assms(5) by (auto simp: leaf_list_def)
  have shift: "shift_up (entries r) (int ?m - 1) 0 = Some ?res"
    using shift_up_closed [of 0 ?m "entries r"] DR assms(4) by simp
  have last: "aget (entries l) (int ?n - 1) = Some (last xs)"
    using leaf_repr_aget(1) [OF L xs(3)] unfolding xs(2) by (simp only: last_conv_nth [OF xs(1)] DL(6))
  have L': "leaf_repr c a (butlast xs) s1 (l\<lparr>leaf_size := ?n - 1\<rparr>)"
  proof (rule leaf_reprI [where n = "?n - 1"])
    show "take (?n - 1) (entries l) = butlast xs"
      using DL(7,8) unfolding DL(2) [symmetric] leaf_list_def by (simp add: butlast_take)
  qed (use DL sorted_keys_butlast [OF DL(5)] in simp_all)
  obtain x where x: "take (Suc 0) (entries r) = [x]"
    using DR(8) assms(4) by (cases "entries r") auto
  have R': "leaf_repr c b (last xs # ys) s2 (r\<lparr>entries := ?res[0 := last xs], leaf_size := ?m + 1\<rparr>)"
  proof (rule leaf_reprI [where n = "Suc ?m"])
    show "take (Suc ?m) (?res[0 := last xs]) = last xs # ys"
      using DR assms(4) ys by (simp add: x)
    show "sorted_keys (last xs # ys)" using ord xs(1) by (auto simp: sorted_wrt_append)
  qed (use DR assms(4) in simp_all)
  have "aset ?res 0 (last xs) = Some (?res[0 := last xs])"
    using aset_nat [of 0 ?res "last xs"] by (simp add: x)
  moreover have "aget (?res[0 := last xs]) 0 = Some (last xs)"
    using leaf_repr_aget(2) [OF R'] by simp
  ultimately have "leaf_borrow_from_left l r = Some (l\<lparr>leaf_size := ?n - 1\<rparr>,
      r\<lparr>entries := ?res[0 := last xs], leaf_size := ?m + 1\<rparr>, fst (last xs))"
    using shift last by (simp add: leaf_borrow_from_left_def)
  with L' R' show ?thesis by auto
qed

lemma leaf_merge_spec:
  assumes L: "leaf_repr c a xs s1 l" and R: "leaf_repr c b ys s2 r"
    and ord: "sorted_keys (xs @ ys)" and le: "length xs + length ys \<le> c"
  shows "\<exists>l' r'. leaf_merge l r = Some (l', r') \<and> leaf_repr c a (xs @ ys) s2 l'
     \<and> leaf_modified l' = leaf_modified l"
proof -
  note DL = leaf_reprD [OF L] and DR = leaf_reprD [OF R]
  let ?n = "leaf_size l" and ?m = "leaf_size r"
  let ?les = "take ?n (entries l) @ take ?m (entries r) @ drop (?n + ?m) (entries l)"
  have "copy_loop (entries r) 0 (int ?m) (entries l) (int ?n) = Some ?les"
    using copy_loop_closed [of 0 ?m "entries r" ?n "entries l"] DL DR le by simp
  then have "leaf_merge l r = Some (l\<lparr>entries := ?les, leaf_size := ?n + ?m, right_sibling := right_sibling r\<rparr>,
      r\<lparr>leaf_size := 0\<rparr>)" by (simp add: leaf_merge_def)
  moreover have "leaf_repr c a (xs @ ys) s2
      (l\<lparr>entries := ?les, leaf_size := ?n + ?m, right_sibling := right_sibling r\<rparr>)"
    using DL DR le ord by (intro leaf_reprI [where n = "?n + ?m"]) (simp_all add: leaf_list_def)
  ultimately show ?thesis by auto
qed

lemma leaf_balance_spec:
  assumes L: "leaf_repr c a xs s1 l" and R: "leaf_repr c b ys s2 r" and ord: "sorted_keys (xs @ ys)"
    and under: "length xs < UNDERFLOW_BOUND c \<or> length ys < UNDERFLOW_BOUND c"
  shows "(case redistribute c xs ys of
       (xs', Some ys') \<Rightarrow> ys' \<noteq> [] \<and> (\<exists>l' r'. leaf_balance c l r = Some (l', r', Some (fst (hd ys')))
          \<and> leaf_repr c a xs' s1 l' \<and> leaf_repr c b ys' s2 r' \<and> leaf_modified l' \<and> leaf_modified r')
     | (xs', None) \<Rightarrow> \<exists>l' r'. leaf_balance c l r = Some (l', r', None)
          \<and> leaf_repr c a xs' s2 l' \<and> leaf_modified l')"
proof -
  let ?u = "UNDERFLOW_BOUND c"
  have L': "leaf_repr c a xs s1 (leaf_mark l)" and R': "leaf_repr c b ys s2 (leaf_mark r)"
    using L R by simp_all
  have size: "leaf_size l = length xs" "leaf_size r = length ys"
    using leaf_reprD(6) [OF L] leaf_reprD(6) [OF R] by simp_all
  have u: "?u \<le> c" "2 * ?u \<le> c + 1" "0 < ?u" using under by (auto simp: UNDERFLOW_BOUND_def)
  consider "length xs < ?u" "?u < length ys" | "length ys < ?u" "?u < length xs"
    | "length xs + length ys \<le> c" "\<not> (length xs < ?u \<and> ?u < length ys)" "\<not> (length ys < ?u \<and> ?u < length xs)"
    using under u by linarith
  then show ?thesis
  proof cases
    case 1
    then have "tl ys \<noteq> []" using u by (cases ys) auto
    with 1 u leaf_borrow_from_right_spec [OF L' R' ord] size show ?thesis
      by (auto simp: leaf_balance_def redistribute_def Let_def)
  next
    case 2
    with u leaf_borrow_from_left_spec [OF L' R' ord] size show ?thesis
      by (auto simp: leaf_balance_def redistribute_def Let_def)
  next
    case 3
    with leaf_merge_spec [OF L' R' ord] size show ?thesis
      by (auto simp: leaf_balance_def redistribute_def Let_def)
  qed
qed

text \<open>The printed form of a leaf is the space-separated list of its entries.\<close>

fun join_entries :: "('k \<Rightarrow> string) \<Rightarrow> ('v \<Rightarrow> string) \<Rightarrow> ('k \<times> 'v) list \<Rightarrow> string" where
  "join_entries sk sv [] = []"
| "join_entries sk sv [(k, v)] = ''('' @ sk k @ '','' @ sv v @ '')''"
| "join_entries sk sv ((k, v) # e # es) = ''('' @ sk k @ '','' @ sv v @ '') '' @ join_entries sk sv (e # es)"

lemma leaf_print_spec:
  assumes R: "leaf_repr c a xs sib l" and "i \<le> length xs"
  shows "leaf_print sk sv l i ss = Some (ss @ join_entries sk sv (drop i xs))"
  using assms(2)
proof (induction "length xs - i" arbitrary: i ss)
  case 0
  then show ?case using leaf_reprD(6) [OF R] by (subst leaf_print.simps) simp
next
  case (Suc n)
  then have i: "i < length xs" by simp
  obtain k v where e: "xs ! i = (k, v)" by fastforce
  have d: "drop i xs = (k, v) # drop (Suc i) xs" using i e by (simp add: Cons_nth_drop_Suc [symmetric])
  have ih: "leaf_print sk sv l (Suc i) ss' = Some (ss' @ join_entries sk sv (drop (Suc i) xs))" for ss'
    using Suc by (intro Suc.hyps(1)) simp_all
  show ?case
  proof (cases "Suc i = length xs")
    case True
    then show ?thesis
      using i leaf_repr_aget(1) [OF R i] leaf_reprD(6) [OF R] ih e
      by (simp add: leaf_print.simps [of sk sv l i] d)
  next
    case False
    then obtain f fs where f: "drop (Suc i) xs = f # fs" using i by (cases "drop (Suc i) xs") auto
    show ?thesis
      using False i leaf_repr_aget(1) [OF R i] leaf_reprD(6) [OF R] ih e
      by (simp add: leaf_print.simps [of sk sv l i] d f)
  qed
qed

lemma leaf_toString_spec:
  assumes "leaf_repr c a xs sib l"
  shows "leaf_toString sk sv l = Some (join_entries sk sv xs)"
  using leaf_print_spec [OF assms, of 0] by (simp add: leaf_toString_def)

lemma leaf_getEntry_spec:
  assumes "leaf_repr c a xs sib l"
  shows "leaf_getEntry l i = Some (if i < length xs then Some (xs ! i) else None)"
  using leaf_repr_aget(1) [OF assms, of i] leaf_reprD(6) [OF assms] by (simp add: leaf_getEntry_def)

lemma new_leaf_repr: "leaf_repr c a [] (-1) (new_leaf c a)"
  by (simp add: leaf_repr_def leaf_ok_def leaf_list_def new_leaf_def)

end
