(* ===== verification/Inner_Node.thy ===== *)
theory Inner_Node
  imports Leaf_Node
begin

text \<open>
  The class \<^verbatim>\<open>InnerNode\<close> of \<^verbatim>\<open>src/src/tree/inner_node.h\<close>: parallel arrays of
  separator keys and child addresses.  This theory holds the parts of the methods
  that work on one node (or on two siblings): child location, insertion of a child,
  the split of a full node, the removal of a merged child and \<^verbatim>\<open>balance\<close>.  The
  recursion into the children is in the theory of the tree.

  The array \<^verbatim>\<open>child_\<close> caches a reference object per child, created on demand from
  \<^verbatim>\<open>child_rep_\<close>; it carries no information of its own and is left out.  A loop whose
  body assigns \<^verbatim>\<open>key_\<close> and \<^verbatim>\<open>child_rep_\<close> is written as one loop per array.
\<close>

section \<open>State\<close>

record 'k inner_node =
  key :: "'k list"
  inner_size :: nat
  child_rep :: "blk_address list"
  inner_self :: blk_address
  inner_modified :: bool

definition new_inner :: "nat \<Rightarrow> blk_address \<Rightarrow> 'k inner_node" where
  "new_inner CAPACITY rep = \<lparr>key = replicate CAPACITY undefined, inner_size = 0,
     child_rep = replicate CAPACITY (-1), inner_self = rep, inner_modified = False\<rparr>"

definition inner_mark :: "'k inner_node \<Rightarrow> 'k inner_node" where
  "inner_mark n = n\<lparr>inner_modified := True\<rparr>"

section \<open>Operations\<close>

text \<open>The constructor from two nodes, given by their leftmost key and address.\<close>

definition new_inner_of ::
  "nat \<Rightarrow> blk_address \<Rightarrow> 'k \<times> blk_address \<Rightarrow> 'k \<times> blk_address \<Rightarrow> 'k inner_node option" where
  "new_inner_of CAPACITY rep left right =
     (let n = new_inner CAPACITY rep in
      do { ks \<leftarrow> aset (key n) 0 (fst left);
           cs \<leftarrow> aset (child_rep n) 0 (snd left);
           ks' \<leftarrow> aset ks 1 (fst right);
           cs' \<leftarrow> aset cs 1 (snd right);
           if snd left \<noteq> -1 \<and> snd right \<noteq> -1
           then Some (n\<lparr>key := ks', child_rep := cs', inner_size := 2\<rparr>) else None })"

function child_loop :: "'k::linorder list \<Rightarrow> 'k \<Rightarrow> int \<Rightarrow> int \<Rightarrow> int option" where
  "child_loop ks k l r =
     (if l \<le> r then
        (let m = (l + r) div 2 in
         aget ks m \<bind> (\<lambda>x.
         if x < k then child_loop ks k (m + 1) r
         else if k < x then child_loop ks k l (m - 1)
         else Some m))
      else Some (l - 1))"
  by pat_completeness auto
termination
  by (relation "measure (\<lambda>(ks, k, l, r). nat (r - l + 1))") auto

declare child_loop.simps [simp del]

definition locate_child_index :: "'k::linorder inner_node \<Rightarrow> 'k \<Rightarrow> int option" where
  "locate_child_index n k =
     (if inner_size n = 0 then Some (-1) else child_loop (key n) k 0 (int (inner_size n) - 1))"

definition get_child_rep :: "'k inner_node \<Rightarrow> int \<Rightarrow> blk_address option" where
  "get_child_rep n i = aget (child_rep n) i"

definition inner_set_first_key :: "'k \<Rightarrow> 'k inner_node \<Rightarrow> 'k inner_node option" where
  "inner_set_first_key k n =
     map_option (\<lambda>ks. inner_mark (n\<lparr>key := ks\<rparr>)) (aset (key n) 0 k)"

definition insert_inner_node :: "blk_address \<Rightarrow> 'k \<Rightarrow> int \<Rightarrow> 'k inner_node \<Rightarrow> 'k inner_node option" where
  "insert_inner_node child boundary insert_position n0 =
     (let n = inner_mark n0 in
      do { ks \<leftarrow> shift_up (key n) (int (inner_size n) - 1) insert_position;
           cs \<leftarrow> shift_up (child_rep n) (int (inner_size n) - 1) insert_position;
           ks' \<leftarrow> aset ks insert_position boundary;
           cs' \<leftarrow> aset cs insert_position child;
           Some (n\<lparr>key := ks', child_rep := cs', inner_size := inner_size n + 1\<rparr>) })"

definition inner_get_leftmost_key :: "'k inner_node \<Rightarrow> 'k option" where
  "inner_get_leftmost_key n = aget (key n) 0"

definition has_free_slot :: "nat \<Rightarrow> 'k inner_node \<Rightarrow> bool" where
  "has_free_slot CAPACITY n \<longleftrightarrow> inner_size n < CAPACITY"

text \<open>
  The part of \<^verbatim>\<open>insert_with_split_support\<close> that takes up the split of the child at
  \<open>target_node_index\<close>: \<open>boundary_key\<close> and \<open>child\<close> describe the new right sibling of that
  child, \<open>right_rep\<close> is the address for the new right sibling of this node.
\<close>

definition inner_split_node ::
  "nat \<Rightarrow> blk_address \<Rightarrow> 'k inner_node \<Rightarrow> ('k inner_node \<times> 'k inner_node) option" where
  "inner_split_node CAPACITY right_rep n =
     (let start_index_for_right = CAPACITY div 2;
          right = inner_mark (new_inner CAPACITY right_rep);
          moved = inner_size n - start_index_for_right
      in do {
        ks \<leftarrow> copy_loop (key n) (int start_index_for_right) (int (inner_size n)) (key right) 0;
        cs \<leftarrow> copy_loop (child_rep n) (int start_index_for_right) (int (inner_size n)) (child_rep right) 0;
        Some (n\<lparr>inner_size := inner_size n - moved\<rparr>,
              right\<lparr>key := ks, child_rep := cs, inner_size := moved\<rparr>) })"

definition inner_take_split ::
  "nat \<Rightarrow> blk_address \<Rightarrow> int \<Rightarrow> 'k::linorder \<Rightarrow> blk_address \<Rightarrow> 'k inner_node
     \<Rightarrow> ('k inner_node \<times> ('k, 'k inner_node) split option) option" where
  "inner_take_split CAPACITY right_rep target_node_index boundary child n0 =
     (let n = inner_mark n0 in
      if inner_size n < CAPACITY
      then map_option (\<lambda>n'. (n', None)) (insert_inner_node child boundary (target_node_index + 1) n)
      else
        (let insert_to_first_half = target_node_index < int (CAPACITY div 2) in
         do { (left, right) \<leftarrow> inner_split_node CAPACITY right_rep n;
              let host_for_node = (if insert_to_first_half then left else right);
              inner_node_insert_position \<leftarrow> locate_child_index host_for_node boundary;
              host' \<leftarrow> insert_inner_node child boundary (inner_node_insert_position + 1) host_for_node;
              let left' = (if insert_to_first_half then host' else left);
              let right' = (if insert_to_first_half then right else host');
              b \<leftarrow> inner_get_leftmost_key right';
              Some (left', Some \<lparr>split_left = left', split_right = right', boundary_key = b\<rparr>) }))"

text \<open>After a redistribution, and after a merge, of two children (\<^verbatim>\<open>delete_key\<close>).\<close>

definition inner_set_boundary :: "int \<Rightarrow> 'k \<Rightarrow> 'k inner_node \<Rightarrow> 'k inner_node option" where
  "inner_set_boundary right_child_index boundary n0 =
     (let n = inner_mark n0 in
      map_option (\<lambda>ks. n\<lparr>key := ks\<rparr>) (aset (key n) right_child_index boundary))"

definition inner_remove_child :: "int \<Rightarrow> 'k inner_node \<Rightarrow> 'k inner_node option" where
  "inner_remove_child right_child_index n0 =
     (let n = inner_mark n0 in
      do { cs \<leftarrow> aset (child_rep n) right_child_index (-1);
           ks' \<leftarrow> shift_down (key n) right_child_index (int (inner_size n));
           cs' \<leftarrow> shift_down cs right_child_index (int (inner_size n));
           Some (n\<lparr>key := ks', child_rep := cs', inner_size := inner_size n - 1\<rparr>) })"

text \<open>
  \<^verbatim>\<open>balance\<close>.  When this node borrows from a right sibling the loop that closes the gap
  runs to \<open>size_\<close> instead of \<open>size_ - 1\<close>, so a full sibling is read one element past the
  end of its arrays.  What is found there (the following members of the object) is
  the parameter \<open>junk\<close>.
\<close>

definition aget_past :: "'a \<Rightarrow> 'a list \<Rightarrow> int \<Rightarrow> 'a option" where
  "aget_past junk a i = (if i = int (length a) then Some junk else aget a i)"

function shift_down_past :: "'a \<Rightarrow> 'a list \<Rightarrow> int \<Rightarrow> int \<Rightarrow> 'a list option" where
  "shift_down_past junk a i n =
     (if i < n then
        do { x \<leftarrow> aget_past junk a (i + 1); a' \<leftarrow> aset a i x; shift_down_past junk a' (i + 1) n }
      else Some a)"
  by pat_completeness auto
termination
  by (relation "measure (\<lambda>(junk, a, i, n). nat (n - i))") auto

declare shift_down_past.simps [simp del]

definition inner_borrow_from_right ::
  "'k \<times> blk_address \<Rightarrow> 'k inner_node \<Rightarrow> 'k inner_node \<Rightarrow> ('k inner_node \<times> 'k inner_node \<times> 'k) option" where
  "inner_borrow_from_right junk n r =
     do { k0 \<leftarrow> aget (key r) 0;
          ks \<leftarrow> aset (key n) (int (inner_size n)) k0;
          c0 \<leftarrow> aget (child_rep r) 0;
          cs \<leftarrow> aset (child_rep n) (int (inner_size n)) c0;
          rks \<leftarrow> shift_down_past (fst junk) (key r) 0 (int (inner_size r));
          rcs \<leftarrow> shift_down_past (snd junk) (child_rep r) 0 (int (inner_size r));
          b \<leftarrow> aget rks 0;
          Some (n\<lparr>key := ks, child_rep := cs, inner_size := inner_size n + 1\<rparr>,
                r\<lparr>key := rks, child_rep := rcs, inner_size := inner_size r - 1\<rparr>, b) }"

definition inner_borrow_from_left ::
  "'k inner_node \<Rightarrow> 'k inner_node \<Rightarrow> ('k inner_node \<times> 'k inner_node \<times> 'k) option" where
  "inner_borrow_from_left n r =
     do { rks \<leftarrow> shift_up (key r) (int (inner_size r)) 0;
          rcs \<leftarrow> shift_up (child_rep r) (int (inner_size r)) 0;
          k1 \<leftarrow> aget (key n) (int (inner_size n) - 1);
          rks' \<leftarrow> aset rks 0 k1;
          c1 \<leftarrow> aget (child_rep n) (int (inner_size n) - 1);
          rcs' \<leftarrow> aset rcs 0 c1;
          cs \<leftarrow> aset (child_rep n) (int (inner_size n) - 1) (-1);
          b \<leftarrow> aget rks' 0;
          Some (n\<lparr>child_rep := cs, inner_size := inner_size n - 1\<rparr>,
                r\<lparr>key := rks', child_rep := rcs', inner_size := inner_size r + 1\<rparr>, b) }"

definition inner_merge :: "'k inner_node \<Rightarrow> 'k inner_node \<Rightarrow> ('k inner_node \<times> 'k inner_node) option" where
  "inner_merge n r =
     do { ks \<leftarrow> copy_loop (key r) 0 (int (inner_size r)) (key n) (int (inner_size n));
          cs \<leftarrow> copy_loop (child_rep r) 0 (int (inner_size r)) (child_rep n) (int (inner_size n));
          Some (n\<lparr>key := ks, child_rep := cs, inner_size := inner_size n + inner_size r\<rparr>,
                r\<lparr>inner_size := 0\<rparr>) }"

definition inner_balance ::
  "nat \<Rightarrow> 'k \<times> blk_address \<Rightarrow> 'k inner_node \<Rightarrow> 'k inner_node
     \<Rightarrow> ('k inner_node \<times> 'k inner_node \<times> 'k option) option" where
  "inner_balance CAPACITY junk n0 r0 =
     (let n = inner_mark n0; r = inner_mark r0; underflow_bound = UNDERFLOW_BOUND CAPACITY in
      if inner_size n < underflow_bound \<and> inner_size r > underflow_bound
      then map_option (\<lambda>(n', r', b). (n', r', Some b)) (inner_borrow_from_right junk n r)
      else if inner_size r < underflow_bound \<and> inner_size n > underflow_bound
      then map_option (\<lambda>(n', r', b). (n', r', Some b)) (inner_borrow_from_left n r)
      else map_option (\<lambda>(n', r'). (n', r', None)) (inner_merge n r))"

function keys_print :: "('k \<Rightarrow> string) \<Rightarrow> 'k inner_node \<Rightarrow> nat \<Rightarrow> string \<Rightarrow> string option" where
  "keys_print showk n i ss =
     (if i < inner_size n then
        aget (key n) (int i) \<bind> (\<lambda>k.
        keys_print showk n (Suc i) (ss @ showk k @ (if int i < int (inner_size n) - 1 then '' '' else [])))
      else Some ss)"
  by pat_completeness auto
termination
  by (relation "measure (\<lambda>(showk, n, i, ss). inner_size n - i)") auto

declare keys_print.simps [simp del]

definition keys_to_string :: "('k \<Rightarrow> string) \<Rightarrow> 'k inner_node \<Rightarrow> string option" where
  "keys_to_string showk n = keys_print showk n 1 []"

section \<open>Invariant and abstraction\<close>

definition inner_list :: "'k inner_node \<Rightarrow> ('k \<times> blk_address) list" where
  "inner_list n = take (inner_size n) (zip (key n) (child_rep n))"

text \<open>The inner node at address \<open>a\<close> with the separators and children \<open>xs\<close>.\<close>

definition inner_repr ::
  "nat \<Rightarrow> blk_address \<Rightarrow> ('k::linorder \<times> blk_address) list \<Rightarrow> 'k inner_node \<Rightarrow> bool" where
  "inner_repr c a xs n \<longleftrightarrow> length (key n) = c \<and> length (child_rep n) = c \<and> inner_size n \<le> c
     \<and> inner_list n = xs \<and> sorted_keys xs \<and> inner_self n = a"

text \<open>The index of the child to descend to: the last separator not above the key.\<close>

definition child_index :: "'k::linorder \<Rightarrow> ('k \<times> 'c) list \<Rightarrow> int" where
  "child_index k xs = int (length (filter (\<lambda>e. fst e \<le> k) xs)) - 1"

definition ins_child ::
  "nat \<Rightarrow> 'k::linorder \<Rightarrow> 'c \<Rightarrow> ('k \<times> 'c) list \<Rightarrow> ('k \<times> 'c) list \<times> ('k \<times> 'c) list option" where
  "ins_child c b ch xs =
     (if length xs < c then (kv_put b ch xs, None)
      else if rank b xs \<le> c div 2 then (kv_put b ch (take (c div 2) xs), Some (drop (c div 2) xs))
      else (take (c div 2) xs, Some (kv_put b ch (drop (c div 2) xs))))"

lemma inner_reprD:
  assumes "inner_repr c a xs n"
  shows "length (key n) = c" "length (child_rep n) = c" "inner_size n \<le> c" "length xs = inner_size n"
    "take (inner_size n) (zip (key n) (child_rep n)) = xs" "sorted_keys xs" "inner_self n = a"
    "take (inner_size n) (key n) = map fst xs" "take (inner_size n) (child_rep n) = map snd xs"
  using assms by (auto simp: inner_repr_def inner_list_def take_zip take_map)

lemma inner_reprI:
  assumes "length ks = c" "length cs = c" "m \<le> c" "take m (zip ks cs) = xs" "sorted_keys xs"
    "key n = ks" "child_rep n = cs" "inner_size n = m" "inner_self n = a"
  shows "inner_repr c a xs n"
  using assms by (simp add: inner_repr_def inner_list_def)

lemma inner_mark_simps [simp]:
  "key (inner_mark n) = key n" "inner_size (inner_mark n) = inner_size n"
  "child_rep (inner_mark n) = child_rep n" "inner_self (inner_mark n) = inner_self n"
  "inner_modified (inner_mark n)" "inner_repr c a xs (inner_mark n) = inner_repr c a xs n"
  by (simp_all add: inner_mark_def inner_repr_def inner_list_def)

lemma inner_repr_aget:
  assumes "inner_repr c a xs n" "i < length xs"
  shows "aget (key n) (int i) = Some (fst (xs ! i))" "aget (child_rep n) (int i) = Some (snd (xs ! i))"
    "i < length (key n)" "i < length (child_rep n)"
proof -
  note D = inner_reprD [OF assms(1)]
  show l: "i < length (key n)" "i < length (child_rep n)" using D(1-4) assms(2) by simp_all
  have "xs ! i = (key n ! i, child_rep n ! i)"
    using D(1-4) assms(2) unfolding D(5) [symmetric] by simp
  with l show "aget (key n) (int i) = Some (fst (xs ! i))" "aget (child_rep n) (int i) = Some (snd (xs ! i))"
    by simp_all
qed

section \<open>Child location\<close>

lemma child_loop_search:
  "child_loop ks k l r = map_option (\<lambda>(found, p). if found then p else p - 1) (search_loop (map (\<lambda>x. (x, ())) ks) k l r)"
proof (induction ks k l r rule: child_loop.induct)
  case (1 ks k l r)
  let ?m = "(l + r) div 2" and ?zs = "map (\<lambda>x. (x, ())) ks"
  have get: "aget ?zs ?m = map_option (\<lambda>x. (x, ())) (aget ks ?m)"
    by (auto simp: aget_def nat_less_iff)
  show ?case
  proof (cases "l \<le> r \<and> aget ks ?m \<noteq> None")
    case True
    then obtain x where x: "aget ks ?m = Some x" by auto
    consider "x < k" | "k < x" | "x = k" by (meson linorder_less_linear)
    then show ?thesis
      using "1.IH" [OF _ refl x] True x
      by cases (auto simp: child_loop.simps [of ks k l r] search_loop.simps [of ?zs k l r] get Let_def)
  next
    case False
    then show ?thesis
      by (auto simp: child_loop.simps [of ks k l r] search_loop.simps [of ?zs k l r] get Let_def)
  qed
qed

lemma rank_map: "rank k xs = length (filter (\<lambda>x. x < k) (map fst xs))"
  by (simp add: rank_def filter_map comp_def)

lemma rank_map_fst: "map fst xs = map fst ys \<Longrightarrow> rank k xs = rank k ys"
  by (simp only: rank_map)

lemma child_index_rank:
  assumes "sorted_keys xs"
  shows "child_index k xs = (if k \<in> keys xs then int (rank k xs) else int (rank k xs) - 1)"
proof -
  have "length (filter (\<lambda>e. fst e \<le> k) xs) + length (filter (\<lambda>e. k < fst e) xs) = length xs"
    using sum_length_filter_compl [of "\<lambda>e. fst e \<le> k" xs] by (simp add: not_le)
  moreover have "length (filter (\<lambda>e. k < fst e) xs) = length xs - (if k \<in> keys xs then Suc (rank k xs) else rank k xs)"
    using arg_cong [OF rank_miss [OF assms, of k], of length] arg_cong [OF drop_rank_hit [OF assms, of k], of length]
    by (cases "k \<in> keys xs") simp_all
  ultimately show ?thesis
    using rank_hit(1) [OF assms, of k] rank_le [of k xs] unfolding child_index_def
    by (cases "k \<in> keys xs"; simp only: if_True if_False; linarith)
qed

lemma child_index_bounds:
  "-1 \<le> child_index k xs" "child_index k xs < int (length xs)"
  using length_filter_le [of "\<lambda>e. fst e \<le> k" xs] unfolding child_index_def by linarith+

lemma locate_child_index_spec:
  assumes "inner_repr c a xs n"
  shows "locate_child_index n k = Some (child_index k xs)"
proof (cases "inner_size n = 0")
  case True
  then show ?thesis using inner_reprD(4) [OF assms] by (simp add: locate_child_index_def child_index_def)
next
  case False
  note D = inner_reprD [OF assms]
  let ?zs = "map (\<lambda>x. (x, ())) (key n)"
  have f: "map fst (take (inner_size n) ?zs) = map fst xs"
    using D(8) by (simp add: take_map comp_def)
  then have s: "sorted_keys (take (inner_size n) ?zs)" using D(6) by simp
  have keq: "keys (take (inner_size n) ?zs) = keys xs" using f by (metis list.set_map)
  have r: "rank k (take (inner_size n) ?zs) = rank k xs" using f by (rule rank_map_fst)
  have "k \<in> keys xs \<Longrightarrow> rank k xs < inner_size n" using rank_hit(1) [OF D(6)] D(4) by simp
  moreover have "rank k xs \<le> inner_size n" using D(4) rank_le [of k xs] by simp
  ultimately have "search_loop ?zs k 0 (int (inner_size n) - 1) = Some (k \<in> keys xs, int (rank k xs))"
    using search_loop_rank [OF s, of 0 "int (inner_size n) - 1" k] D(1,3) unfolding r keq by simp
  with False show ?thesis
    by (simp add: locate_child_index_def child_loop_search child_index_rank [OF D(6)])
qed

text \<open>Every key below the chosen child's successor and above the chosen separator.\<close>

lemma child_index_split:
  assumes "sorted_keys xs" "0 \<le> child_index k xs"
  defines "i \<equiv> nat (child_index k xs)"
  shows "i < length xs" "fst (xs ! i) \<le> k" "\<forall>x\<in>keys (take i xs). x < k" "\<forall>x\<in>keys (drop (Suc i) xs). k < x"
proof -
  let ?r = "if k \<in> keys xs then Suc (rank k xs) else rank k xs"
  have i: "?r = Suc i" using assms(2) by (auto simp: i_def child_index_rank [OF assms(1)] split: if_splits)
  show len: "i < length xs" using child_index_bounds(2) [of k xs] assms(2) by (simp add: i_def)
  have "drop (Suc i) xs = filter (\<lambda>e. k < fst e) xs"
    using rank_miss [OF assms(1), of k] drop_rank_hit [OF assms(1), of k] i
    by (cases "k \<in> keys xs") simp_all
  then show "\<forall>x\<in>keys (drop (Suc i) xs). k < x" by auto
  have le: "i \<le> rank k xs" using i by (auto split: if_splits)
  have "set (take i xs) \<subseteq> set (take (rank k xs) xs)" using le by (rule set_take_subset_set_take)
  then show "\<forall>x\<in>keys (take i xs). x < k" by (auto simp: take_rank [OF assms(1)])
  show "fst (xs ! i) \<le> k"
  proof (cases "k \<in> keys xs")
    case True
    then show ?thesis using i rank_hit(2) [OF assms(1) True] by simp
  next
    case False
    then show ?thesis using i rank_nth_less [OF assms(1) len, of k] by simp
  qed
qed

section \<open>Functional behaviour\<close>

lemma insert_inner_node_spec:
  assumes R: "inner_repr c a xs n" and p: "p \<le> length xs" and lt: "length xs < c"
    and s: "sorted_keys (take p xs @ (b, ch) # drop p xs)"
  shows "\<exists>n'. insert_inner_node ch b (int p) n = Some n'
     \<and> inner_repr c a (take p xs @ (b, ch) # drop p xs) n' \<and> inner_modified n'"
proof -
  note D = inner_reprD [OF R]
  let ?m = "inner_size n"
  let ?ks = "take (Suc p) (key n) @ take (?m - p) (drop p (key n)) @ drop (Suc ?m) (key n)"
  let ?cs = "take (Suc p) (child_rep n) @ take (?m - p) (drop p (child_rep n)) @ drop (Suc ?m) (child_rep n)"
  let ?z = "zip (key n) (child_rep n)"
  let ?n = "(inner_mark n)\<lparr>key := ?ks[p := b], child_rep := ?cs[p := ch], inner_size := ?m + 1\<rparr>"
  have m: "p \<le> ?m" "?m < c" using p lt D(4) by simp_all
  have sh: "shift_up (key n) (int ?m - 1) (int p) = Some ?ks" "shift_up (child_rep n) (int ?m - 1) (int p) = Some ?cs"
    using m D(1,2) by (simp_all only: shift_up_closed)
  have len: "length ?ks = c" "length ?cs = c" using m D(1,2) by simp_all
  have "insert_inner_node ch b (int p) n = Some ?n"
    using sh len m aset_nat [of p ?ks b] aset_nat [of p ?cs ch] by (simp add: insert_inner_node_def Let_def)
  moreover have "inner_repr c a (take p xs @ (b, ch) # drop p xs) ?n"
  proof (rule inner_reprI [where m = "Suc ?m"])
    have "zip (?ks[p := b]) (?cs[p := ch]) = (take (Suc p) ?z @ take (?m - p) (drop p ?z) @ drop (Suc ?m) ?z)[p := (b, ch)]"
      using D(1,2) unfolding zip_update by (simp add: zip_append take_zip drop_zip)
    then show "take (Suc ?m) (zip (?ks[p := b]) (?cs[p := ch])) = take p xs @ (b, ch) # drop p xs"
      using take_open_slot [OF m(1), of ?z "(b, ch)"] m(2) D(1,2) unfolding D(5) by simp
  qed (use D len m s in simp_all)
  ultimately show ?thesis by auto
qed

lemma new_inner_of_spec:
  assumes "2 \<le> c" "fst x < fst y" "snd x \<noteq> -1" "snd y \<noteq> -1"
  shows "\<exists>n. new_inner_of c a x y = Some n \<and> inner_repr c a [x, y] n"
proof -
  have c: "c = Suc (Suc (c - 2))" using assms(1) by simp
  show ?thesis
    using assms by (subst (1 2) c) (simp add: new_inner_of_def new_inner_def Let_def aset_def inner_repr_def inner_list_def)
qed

lemma inner_set_first_key_spec:
  assumes R: "inner_repr c a ((k0, ch) # xs) n" and "k < k0"
  shows "\<exists>n'. inner_set_first_key k n = Some n' \<and> inner_repr c a ((k, ch) # xs) n' \<and> inner_modified n'"
proof -
  note D = inner_reprD [OF R]
  have pos: "0 < c" "0 < inner_size n" using D(3,4) by auto
  let ?n = "inner_mark (n\<lparr>key := (key n)[0 := k]\<rparr>)"
  have "inner_set_first_key k n = Some ?n"
    using pos D(1) by (simp add: inner_set_first_key_def aset_def)
  moreover have "inner_repr c a ((k, ch) # xs) ?n"
  proof (rule inner_reprI [where m = "inner_size n"])
    obtain x ks y cs where "key n = x # ks" "child_rep n = y # cs"
      using pos D(1,2) by (cases "key n"; cases "child_rep n") auto
    then show "take (inner_size n) (zip ((key n)[0 := k]) (child_rep n)) = (k, ch) # xs"
      using D(5) pos(2) by (cases "inner_size n") auto
    show "sorted_keys ((k, ch) # xs)" using D(6) assms(2) by (auto dest: less_trans)
  qed (use D in simp_all)
  ultimately show ?thesis by auto
qed

lemma inner_set_boundary_spec:
  assumes R: "inner_repr c a xs n" and i: "i < length xs" and s: "sorted_keys (xs[i := (b, snd (xs ! i))])"
  shows "\<exists>n'. inner_set_boundary (int i) b n = Some n'
     \<and> inner_repr c a (xs[i := (b, snd (xs ! i))]) n' \<and> inner_modified n'"
proof -
  note D = inner_reprD [OF R] and A = inner_repr_aget [OF R i]
  let ?n = "(inner_mark n)\<lparr>key := (key n)[i := b]\<rparr>"
  have "inner_set_boundary (int i) b n = Some ?n"
    using A(3) by (simp add: inner_set_boundary_def Let_def)
  moreover have "inner_repr c a (xs[i := (b, snd (xs ! i))]) ?n"
  proof (rule inner_reprI [where m = "inner_size n"])
    have "child_rep n ! i = snd (xs ! i)" using A(2,4) by simp
    then have "zip ((key n)[i := b]) (child_rep n) = (zip (key n) (child_rep n))[i := (b, snd (xs ! i))]"
      using zip_update [of "key n" i b "child_rep n" "child_rep n ! i"] unfolding list_update_id by simp
    then show "take (inner_size n) (zip ((key n)[i := b]) (child_rep n)) = xs[i := (b, snd (xs ! i))]"
      using D(5) by (simp add: take_update_swap)
  qed (use D s in simp_all)
  ultimately show ?thesis by auto
qed

lemma inner_remove_child_spec:
  assumes R: "inner_repr c a xs n" and i: "i < length xs"
  shows "\<exists>n'. inner_remove_child (int i) n = Some n'
     \<and> inner_repr c a (take i xs @ drop (Suc i) xs) n' \<and> inner_modified n'"
proof -
  note D = inner_reprD [OF R] and A = inner_repr_aget [OF R i]
  let ?m = "inner_size n" and ?c = "(child_rep n)[i := -1]"
  let ?ks = "take i (key n) @ drop (Suc i) (take ?m (key n)) @ drop (?m - 1) (key n)"
  let ?cs = "take i ?c @ drop (Suc i) (take ?m ?c) @ drop (?m - 1) ?c"
  let ?n = "(inner_mark n)\<lparr>key := ?ks, child_rep := ?cs, inner_size := ?m - 1\<rparr>"
  have m: "i < ?m" using i D(4) by simp
  have "shift_down (key n) (int i) (int ?m) = Some ?ks" "shift_down ?c (int i) (int ?m) = Some ?cs"
    using m D(1-3) by (simp_all only: shift_down_closed length_list_update)
  then have "inner_remove_child (int i) n = Some ?n"
    using A(4) by (simp add: inner_remove_child_def Let_def)
  moreover have "inner_repr c a (take i xs @ drop (Suc i) xs) ?n"
  proof (rule inner_reprI [where m = "?m - 1"])
    let ?z = "zip (key n) (child_rep n)"
    have z: "zip (key n) ?c = ?z[i := (key n ! i, -1)]"
      using zip_update [of "key n" i "key n ! i" "child_rep n" "-1"] by simp
    have "zip ?ks ?cs = take i (zip (key n) ?c) @ drop (Suc i) (take ?m (zip (key n) ?c)) @ drop (?m - 1) (zip (key n) ?c)"
      using D(1,2) by (simp add: zip_append take_zip drop_zip)
    then have "take (?m - 1) (zip ?ks ?cs) = take i (take ?m (zip (key n) ?c)) @ drop (Suc i) (take ?m (zip (key n) ?c))"
      using take_close_slot [OF m, of "zip (key n) ?c"] D(1-3) by simp
    also have "\<dots> = take i xs @ drop (Suc i) xs"
      unfolding z using D(5) by (simp add: take_update_swap list_update_beyond)
    finally show "take (?m - 1) (zip ?ks ?cs) = take i xs @ drop (Suc i) xs" .
    have "sorted_keys (take i xs @ xs ! i # drop (Suc i) xs)" using D(6) i by (simp add: id_take_nth_drop [symmetric])
    then show "sorted_keys (take i xs @ drop (Suc i) xs)" by (simp add: sorted_wrt_append)
  qed (use D m in simp_all)
  ultimately show ?thesis by auto
qed

text \<open>The position \<^verbatim>\<open>locate_child_index(b) + 1\<close> is where \<open>b\<close> is stored in the sorted list.\<close>

lemma insert_inner_node_put:
  assumes R: "inner_repr c a xs n" and lt: "length xs < c" and b: "b \<notin> keys xs"
  shows "\<exists>n'. insert_inner_node ch b (child_index b xs + 1) n = Some n'
     \<and> inner_repr c a (kv_put b ch xs) n' \<and> inner_modified n'"
proof -
  note s = inner_reprD(6) [OF R]
  have "child_index b xs + 1 = int (rank b xs)" using b by (simp add: child_index_rank [OF s])
  moreover have "take (rank b xs) xs @ (b, ch) # drop (rank b xs) xs = kv_put b ch xs"
    using b by (simp add: kv_put_rank [OF s])
  ultimately show ?thesis
    using insert_inner_node_spec [OF R _ lt, of "rank b xs" b ch] kv_put_sorted [OF s, of b ch] by simp
qed

lemma inner_split_node_spec:
  fixes xs :: "('k::linorder \<times> blk_address) list"
  assumes R: "inner_repr c a xs n" and full: "length xs = c"
  shows "\<exists>l r. inner_split_node c rr n = Some (l, r) \<and> inner_repr c a (take (c div 2) xs) l
     \<and> inner_repr c rr (drop (c div 2) xs) r \<and> inner_modified l = inner_modified n \<and> inner_modified r"
proof -
  note D = inner_reprD [OF R]
  let ?h = "c div 2" and ?r = "inner_mark (new_inner c rr :: 'k inner_node)"
  have n: "inner_size n = c" and z: "zip (key n) (child_rep n) = xs" using D full by auto
  let ?ks = "drop ?h (key n) @ drop (c - ?h) (key ?r)" and ?cs = "drop ?h (child_rep n) @ drop (c - ?h) (child_rep ?r)"
  let ?L = "n\<lparr>inner_size := ?h\<rparr>" and ?R = "?r\<lparr>key := ?ks, child_rep := ?cs, inner_size := c - ?h\<rparr>"
  have lr: "length (key ?r) = c" "length (child_rep ?r) = c" by (simp_all add: new_inner_def)
  have "copy_loop (key n) (int ?h) (int c) (key ?r) 0 = Some ?ks"
    "copy_loop (child_rep n) (int ?h) (int c) (child_rep ?r) 0 = Some ?cs"
    using copy_loop_closed [of ?h c "key n" 0 "key ?r"] copy_loop_closed [of ?h c "child_rep n" 0 "child_rep ?r"]
      D(1,2) lr by simp_all
  moreover have "c - (c - ?h) = ?h" by simp
  ultimately have "inner_split_node c rr n = Some (?L, ?R)"
    using n unfolding inner_split_node_def Let_def by simp
  moreover have "inner_repr c a (take ?h xs) ?L"
    using D z sorted_keys_take [OF D(6)] by (intro inner_reprI [where m = ?h]) simp_all
  moreover have "inner_repr c rr (drop ?h xs) ?R"
  proof (rule inner_reprI [where m = "c - ?h"])
    show "take (c - ?h) (zip ?ks ?cs) = drop ?h xs"
      using D(1,2) lr z full by (simp add: zip_append drop_zip [symmetric])
  qed (use D lr sorted_keys_drop [OF D(6)] in \<open>simp_all add: new_inner_def\<close>)
  ultimately show ?thesis by (intro exI [of _ ?L] exI [of _ ?R]) simp
qed

lemma inner_take_split_spec:
  assumes R: "inner_repr c a xs n" and c: "2 \<le> c" and b: "b \<notin> keys xs" "rank b xs = Suc i"
  shows "(case ins_child c b ch xs of
       (ys, None) \<Rightarrow> \<exists>n'. inner_take_split c rr (int i) b ch n = Some (n', None)
          \<and> inner_repr c a ys n' \<and> inner_modified n'
     | (ys, Some zs) \<Rightarrow> zs \<noteq> [] \<and> (\<exists>n' r'. inner_take_split c rr (int i) b ch n
            = Some (n', Some \<lparr>split_left = n', split_right = r', boundary_key = fst (hd zs)\<rparr>)
          \<and> inner_repr c a ys n' \<and> inner_repr c rr zs r' \<and> inner_modified n' \<and> inner_modified r'))"
proof (cases "length xs < c")
  case True
  have "child_index b xs = int i" using b by (simp add: child_index_rank [OF inner_reprD(6) [OF R]])
  then show ?thesis
    using True insert_inner_node_put [of c a xs "inner_mark n" b ch] R b inner_reprD(4) [OF R]
    by (auto simp: ins_child_def inner_take_split_def Let_def)
next
  case False
  then have full: "length xs = c" and size: "inner_size n = c" using inner_reprD(3,4) [OF R] by auto
  let ?h = "c div 2"
  have h: "?h < c" "c - ?h < c" using c by auto
  obtain l r where lr: "inner_split_node c rr (inner_mark n) = Some (l, r)"
    "inner_repr c a (take ?h xs) l" "inner_repr c rr (drop ?h xs) r" "inner_modified l" "inner_modified r"
    using inner_split_node_spec [of c a xs "inner_mark n" rr] R full by auto
  show ?thesis
  proof (cases "i < ?h")
    case True
    have "b \<notin> keys (take ?h xs)" using b(1) by (auto dest: in_set_takeD)
    then obtain l' where l': "insert_inner_node ch b (child_index b (take ?h xs) + 1) l = Some l'"
      "inner_repr c a (kv_put b ch (take ?h xs)) l'" "inner_modified l'"
      using insert_inner_node_put [OF lr(2), of b ch] h full by auto
    have ne: "drop ?h xs \<noteq> []" using h full by simp
    have "inner_get_leftmost_key r = Some (fst (hd (drop ?h xs)))"
      using inner_repr_aget(1) [OF lr(3), of 0] ne by (simp add: inner_get_leftmost_key_def hd_conv_nth)
    with True b lr l' ne size full show ?thesis
      by (auto simp: ins_child_def inner_take_split_def Let_def locate_child_index_spec [OF lr(2)])
  next
    case False
    have "b \<notin> keys (drop ?h xs)" using b(1) by (auto dest: in_set_dropD)
    then obtain r' where r': "insert_inner_node ch b (child_index b (drop ?h xs) + 1) r = Some r'"
      "inner_repr c rr (kv_put b ch (drop ?h xs)) r'" "inner_modified r'"
      using insert_inner_node_put [OF lr(3), of b ch] h full by auto
    have ne: "kv_put b ch (drop ?h xs) \<noteq> []" by (simp add: kv_put_def)
    have "inner_get_leftmost_key r' = Some (fst (hd (kv_put b ch (drop ?h xs))))"
      using inner_repr_aget(1) [OF r'(2), of 0] ne by (simp add: inner_get_leftmost_key_def hd_conv_nth)
    with False b lr r' ne size full show ?thesis
      by (auto simp: ins_child_def inner_take_split_def Let_def locate_child_index_spec [OF lr(3)])
  qed
qed

section \<open>Balance\<close>

lemma shift_down_past_append:
  assumes "n \<le> length a"
  shows "shift_down (a @ [junk]) (int i) (int (Suc n)) = map_option (\<lambda>b. b @ [junk]) (shift_down_past junk a (int i) (int n))"
  using assms
proof (induction "n - i" arbitrary: i a)
  case 0
  then show ?case by (simp add: shift_down.simps [of _ "int i"] shift_down_past.simps [of _ _ "int i"])
next
  case (Suc d)
  let ?x = "(a @ [junk]) ! Suc i"
  have i: "i < n" "i < length a" using Suc by simp_all
  have g: "aget (a @ [junk]) (int (Suc i)) = Some ?x" using i by (intro aget_nat) simp
  have gp: "aget_past junk a (int (Suc i)) = Some ?x"
    using i aget_nat [of "Suc i" a]
    by (cases "Suc i = length a") (simp_all add: aget_past_def nth_append del: of_nat_Suc)
  have "shift_down (a @ [junk]) (int i) (int (Suc n)) = shift_down (a[i := ?x] @ [junk]) (int (Suc i)) (int (Suc n))"
    using i g by (subst shift_down.simps) (simp add: aset_def list_update_append add.commute)
  also have "\<dots> = map_option (\<lambda>b. b @ [junk]) (shift_down_past junk (a[i := ?x]) (int (Suc i)) (int n))"
    using Suc.prems Suc.hyps(2) by (intro Suc.hyps(1)) simp_all
  also have "shift_down_past junk (a[i := ?x]) (int (Suc i)) (int n) = shift_down_past junk a (int i) (int n)"
    using i gp by (subst (2) shift_down_past.simps) (simp add: aset_def add.commute)
  finally show ?case .
qed

lemma shift_down_past_tl:
  assumes "0 < n" "n \<le> length a"
  shows "\<exists>b. shift_down_past junk a 0 (int n) = Some b \<and> length b = length a \<and> take (n - 1) b = tl (take n a)"
proof -
  let ?c = "drop (Suc 0) (take (Suc n) (a @ [junk])) @ drop n (a @ [junk])"
  have "map_option (\<lambda>b. b @ [junk]) (shift_down_past junk a 0 (int n)) = Some ?c"
    using shift_down_past_append [OF assms(2), of junk 0] shift_down_closed [of 0 "Suc n" "a @ [junk]"] assms by simp
  then obtain b where b: "shift_down_past junk a 0 (int n) = Some b" "b @ [junk] = ?c" by auto
  have len: "length b = length a" using arg_cong [OF b(2), of length] assms by simp
  have "take (n - 1) b = take (n - 1) (b @ [junk])" using len assms by simp
  also have "\<dots> = take (n - 1) (drop (Suc 0) (take (Suc n) (a @ [junk])))" unfolding b(2) using assms by simp
  also have "\<dots> = tl (take n a)" using assms by (simp add: take_drop drop_Suc tl_take)
  finally show ?thesis using b len by blast
qed

lemma inner_borrow_from_right_spec:
  assumes L: "inner_repr c a xs n" and R: "inner_repr c b ys r"
    and ord: "sorted_keys (xs @ ys)" and "length xs < c" "2 \<le> length ys"
  shows "\<exists>n' r'. inner_borrow_from_right junk n r = Some (n', r', fst (hd (tl ys)))
     \<and> inner_repr c a (xs @ [hd ys]) n' \<and> inner_repr c b (tl ys) r'
     \<and> inner_modified n' = inner_modified n \<and> inner_modified r' = inner_modified r"
proof -
  note DL = inner_reprD [OF L] and DR = inner_reprD [OF R]
  let ?n = "inner_size n" and ?m = "inner_size r"
  have m: "0 < ?m" "?m \<le> length (key r)" "?m \<le> length (child_rep r)" using DR(1-4) assms(5) by simp_all
  obtain rks where ks: "shift_down_past (fst junk) (key r) 0 (int ?m) = Some rks" "length rks = c"
    "take (?m - 1) rks = tl (take ?m (key r))"
    using shift_down_past_tl [OF m(1,2)] DR(1) by metis
  obtain rcs where cs: "shift_down_past (snd junk) (child_rep r) 0 (int ?m) = Some rcs" "length rcs = c"
    "take (?m - 1) rcs = tl (take ?m (child_rep r))"
    using shift_down_past_tl [OF m(1,3)] DR(2) by metis
  let ?L = "n\<lparr>key := (key n)[?n := fst (hd ys)], child_rep := (child_rep n)[?n := snd (hd ys)], inner_size := ?n + 1\<rparr>"
  let ?R = "r\<lparr>key := rks, child_rep := rcs, inner_size := ?m - 1\<rparr>"
  have ne: "ys \<noteq> []" "tl ys \<noteq> []" using assms(5) by (auto simp: tl_Nil)
  have R': "inner_repr c b (tl ys) ?R"
  proof (rule inner_reprI [where m = "?m - 1"])
    show "take (?m - 1) (zip rks rcs) = tl ys"
      using ks(3) cs(3) DR(8,9) by (simp add: take_zip map_tl [symmetric] zip_map_fst_snd)
  qed (use DR ks cs sorted_keys_tl [OF DR(6)] in simp_all)
  have L': "inner_repr c a (xs @ [hd ys]) ?L"
  proof (rule inner_reprI [where m = "Suc ?n"])
    show "take (Suc ?n) (zip ((key n)[?n := fst (hd ys)]) ((child_rep n)[?n := snd (hd ys)])) = xs @ [hd ys]"
      using DL(1-5) assms(4) unfolding zip_update by (simp add: take_Suc_conv_app_nth)
    show "sorted_keys (xs @ [hd ys])" using ord ne(1) by (cases ys) (auto simp: sorted_wrt_append)
  qed (use DL assms(4) in simp_all)
  have "aget rks 0 = Some (fst (hd (tl ys)))"
    using inner_repr_aget(1) [OF R', of 0] ne(2) assms(5) by (simp add: hd_conv_nth)
  moreover have "aget (key r) 0 = Some (fst (hd ys))" "aget (child_rep r) 0 = Some (snd (hd ys))"
    using inner_repr_aget(1,2) [OF R, of 0] ne(1) by (simp_all add: hd_conv_nth)
  ultimately have "inner_borrow_from_right junk n r = Some (?L, ?R, fst (hd (tl ys)))"
    using ks cs DL assms(4) by (simp add: inner_borrow_from_right_def)
  with L' R' show ?thesis by auto
qed

lemma inner_borrow_from_left_spec:
  assumes L: "inner_repr c a xs n" and R: "inner_repr c b ys r"
    and ord: "sorted_keys (xs @ ys)" and "Suc (length ys) < c" "1 \<le> length xs"
  shows "\<exists>n' r'. inner_borrow_from_left n r = Some (n', r', fst (last xs))
     \<and> inner_repr c a (butlast xs) n' \<and> inner_repr c b (last xs # ys) r'
     \<and> inner_modified n' = inner_modified n \<and> inner_modified r' = inner_modified r"
proof -
  note DL = inner_reprD [OF L] and DR = inner_reprD [OF R]
  let ?n = "inner_size n" and ?m = "inner_size r"
  let ?x = "fst (last xs)" and ?y = "snd (last xs)"
  let ?ks = "take (Suc 0) (key r) @ take (Suc ?m) (key r) @ drop (Suc (Suc ?m)) (key r)"
  let ?cs = "take (Suc 0) (child_rep r) @ take (Suc ?m) (child_rep r) @ drop (Suc (Suc ?m)) (child_rep r)"
  have xs: "xs \<noteq> []" "int ?n - 1 = int (?n - 1)" "?n - 1 < length xs" using DL(4) assms(5) by auto
  have shift: "shift_up (key r) (int ?m) 0 = Some ?ks" "shift_up (child_rep r) (int ?m) 0 = Some ?cs"
    using shift_up_closed [of 0 "Suc ?m" "key r"] shift_up_closed [of 0 "Suc ?m" "child_rep r"] DR(1,2,4) assms(4)
    by simp_all
  have last: "aget (key n) (int ?n - 1) = Some ?x" "aget (child_rep n) (int ?n - 1) = Some ?y"
    using inner_repr_aget(1,2) [OF L xs(3)] unfolding xs(2) by (simp_all only: last_conv_nth [OF xs(1)] DL(4))
  let ?L = "n\<lparr>child_rep := (child_rep n)[?n - 1 := -1], inner_size := ?n - 1\<rparr>"
  let ?R = "r\<lparr>key := ?ks[0 := ?x], child_rep := ?cs[0 := ?y], inner_size := ?m + 1\<rparr>"
  have L': "inner_repr c a (butlast xs) ?L"
  proof (rule inner_reprI [where m = "?n - 1"])
    have "butlast xs = take (?n - 1) (zip (key n) (child_rep n))"
      using DL(1-3) unfolding DL(5) [symmetric] by (simp add: butlast_take)
    then show "take (?n - 1) (zip (key n) ((child_rep n)[?n - 1 := -1])) = butlast xs"
      by (simp add: take_zip)
  qed (use DL sorted_keys_butlast [OF DL(6)] in simp_all)
  obtain k0 ks0 c0 cs0 where k0: "key r = k0 # ks0" "child_rep r = c0 # cs0"
    using DR(1,2) assms(4) by (cases "key r"; cases "child_rep r") auto
  have R': "inner_repr c b (last xs # ys) ?R"
  proof (rule inner_reprI [where m = "Suc ?m"])
    have len: "length ks0 = length cs0" "?m \<le> Suc (length cs0)" using DR(1-3) k0 by simp_all
    have "zip (?ks[0 := ?x]) (?cs[0 := ?y])
        = last xs # (k0, c0) # take ?m (zip ks0 cs0) @ zip (drop (Suc ?m) ks0) (drop (Suc ?m) cs0)"
      using len by (simp add: k0 zip_append take_zip)
    then show "take (Suc ?m) (zip (?ks[0 := ?x]) (?cs[0 := ?y])) = last xs # ys"
      using DR(5) len by (cases ?m) (simp_all add: k0)
    show "sorted_keys (last xs # ys)" using ord xs(1) by (auto simp: sorted_wrt_append)
  qed (use DR assms(4) in simp_all)
  have "aset ?ks 0 ?x = Some (?ks[0 := ?x])" "aset ?cs 0 ?y = Some (?cs[0 := ?y])"
    using k0 by (simp_all add: aset_def)
  moreover have "aset (child_rep n) (int ?n - 1) (-1) = Some ((child_rep n)[?n - 1 := -1])"
    unfolding xs(2) using inner_repr_aget(4) [OF L xs(3)] by (rule aset_nat)
  moreover have "aget (?ks[0 := ?x]) 0 = Some ?x"
    using inner_repr_aget(1) [OF R', of 0] by simp
  ultimately have "inner_borrow_from_left n r = Some (?L, ?R, ?x)"
    using shift last by (simp add: inner_borrow_from_left_def)
  with L' R' show ?thesis by auto
qed

lemma inner_merge_spec:
  assumes L: "inner_repr c a xs n" and R: "inner_repr c b ys r"
    and ord: "sorted_keys (xs @ ys)" and le: "length xs + length ys \<le> c"
  shows "\<exists>n' r'. inner_merge n r = Some (n', r') \<and> inner_repr c a (xs @ ys) n'
     \<and> inner_modified n' = inner_modified n"
proof -
  note DL = inner_reprD [OF L] and DR = inner_reprD [OF R]
  let ?n = "inner_size n" and ?m = "inner_size r"
  let ?ks = "take ?n (key n) @ take ?m (key r) @ drop (?n + ?m) (key n)"
  let ?cs = "take ?n (child_rep n) @ take ?m (child_rep r) @ drop (?n + ?m) (child_rep n)"
  let ?N = "n\<lparr>key := ?ks, child_rep := ?cs, inner_size := ?n + ?m\<rparr>"
  have "copy_loop (key r) 0 (int ?m) (key n) (int ?n) = Some ?ks"
    "copy_loop (child_rep r) 0 (int ?m) (child_rep n) (int ?n) = Some ?cs"
    using copy_loop_closed [of 0 ?m "key r" ?n "key n"] copy_loop_closed [of 0 ?m "child_rep r" ?n "child_rep n"]
      DL(1-4) DR(1-4) le by simp_all
  then have "inner_merge n r = Some (?N, r\<lparr>inner_size := 0\<rparr>)" by (simp add: inner_merge_def)
  moreover have "inner_repr c a (xs @ ys) ?N"
  proof (rule inner_reprI [where m = "?n + ?m"])
    have "zip ?ks ?cs = xs @ ys @ zip (drop (?n + ?m) (key n)) (drop (?n + ?m) (child_rep n))"
      using DL(1-3,5) DR(1-3,5) by (simp add: zip_append take_zip)
    then show "take (?n + ?m) (zip ?ks ?cs) = xs @ ys" using DL(4) DR(4) by simp
  qed (use DL DR le ord in simp_all)
  ultimately show ?thesis by auto
qed

lemma inner_balance_spec:
  assumes L: "inner_repr c a xs n" and R: "inner_repr c b ys r" and ord: "sorted_keys (xs @ ys)"
    and under: "length xs < UNDERFLOW_BOUND c \<or> length ys < UNDERFLOW_BOUND c" and c: "2 \<le> c"
  shows "(case redistribute c xs ys of
       (xs', Some ys') \<Rightarrow> ys' \<noteq> [] \<and> (\<exists>n' r'. inner_balance c junk n r = Some (n', r', Some (fst (hd ys')))
          \<and> inner_repr c a xs' n' \<and> inner_repr c b ys' r' \<and> inner_modified n' \<and> inner_modified r')
     | (xs', None) \<Rightarrow> \<exists>n' r'. inner_balance c junk n r = Some (n', r', None)
          \<and> inner_repr c a xs' n' \<and> inner_modified n')"
proof -
  let ?u = "UNDERFLOW_BOUND c"
  have L': "inner_repr c a xs (inner_mark n)" and R': "inner_repr c b ys (inner_mark r)"
    using L R by simp_all
  have size: "inner_size n = length xs" "inner_size r = length ys"
    using inner_reprD(4) [OF L] inner_reprD(4) [OF R] by simp_all
  have u: "?u < c" "2 * ?u \<le> c + 1" "0 < ?u" using c by (auto simp: UNDERFLOW_BOUND_def)
  consider "length xs < ?u" "?u < length ys" | "length ys < ?u" "?u < length xs"
    | "length xs + length ys \<le> c" "\<not> (length xs < ?u \<and> ?u < length ys)" "\<not> (length ys < ?u \<and> ?u < length xs)"
    using under u by linarith
  then show ?thesis
  proof cases
    case 1
    then have "tl ys \<noteq> []" using u by (cases ys) auto
    with 1 u inner_borrow_from_right_spec [OF L' R' ord, of junk] size show ?thesis
      by (auto simp: inner_balance_def redistribute_def Let_def)
  next
    case 2
    with u inner_borrow_from_left_spec [OF L' R' ord] size show ?thesis
      by (auto simp: inner_balance_def redistribute_def Let_def)
  next
    case 3
    with inner_merge_spec [OF L' R' ord] size show ?thesis
      by (auto simp: inner_balance_def redistribute_def Let_def)
  qed
qed

end
