(* ===== verification/BT_Spec.thy ===== *)
theory BT_Spec
  imports Inner_Node "HOL-Library.Multiset"
begin

text \<open>
  B+-trees as a data type, with the address of every node, the keys of the source's
  search tree invariant and the insertion and deletion algorithms of
  \<^verbatim>\<open>inner_node.h\<close> and \<^verbatim>\<open>leaf_node.h\<close> without the memory: the intermediate level
  between the node classes and a sorted association list.  A split takes the
  addresses of the new nodes from a list.
\<close>

section \<open>Trees\<close>

datatype ('k, 'v) bt =
  BLeaf blk_address "('k \<times> 'v) list" blk_address
| BNode blk_address "('k \<times> ('k, 'v) bt) list"

type_synonym ('k, 'v) forest = "('k \<times> ('k, 'v) bt) list"

fun addr :: "('k, 'v) bt \<Rightarrow> blk_address" where
  "addr (BLeaf a xs sib) = a"
| "addr (BNode a ts) = a"

fun leafseq :: "('k, 'v) bt \<Rightarrow> (blk_address \<times> ('k \<times> 'v) list \<times> blk_address) list" where
  "leafseq (BLeaf a xs sib) = [(a, xs, sib)]"
| "leafseq (BNode a ts) = concat (map (\<lambda>p. leafseq (snd p)) ts)"

fun kvs :: "('k, 'v) bt \<Rightarrow> ('k \<times> 'v) list" where
  "kvs (BLeaf a xs sib) = xs"
| "kvs (BNode a ts) = concat (map (\<lambda>p. kvs (snd p)) ts)"

fun addrs :: "('k, 'v) bt \<Rightarrow> blk_address list" where
  "addrs (BLeaf a xs sib) = [a]"
| "addrs (BNode a ts) = a # concat (map (\<lambda>p. addrs (snd p)) ts)"

text \<open>The keys a tree holds, as entries or as separators.\<close>

fun bt_keys :: "('k, 'v) bt \<Rightarrow> 'k set" where
  "bt_keys (BLeaf a xs sib) = keys xs"
| "bt_keys (BNode a ts) = (\<Union>p\<in>set ts. insert (fst p) (bt_keys (snd p)))"

text \<open>All leaves at depth \<open>h\<close>.\<close>

fun bt_height :: "nat \<Rightarrow> ('k, 'v) bt \<Rightarrow> bool" where
  "bt_height h (BLeaf a xs sib) = (h = 0)"
| "bt_height h (BNode a ts) = (\<exists>d. h = Suc d \<and> (\<forall>p\<in>set ts. bt_height d (snd p)))"

text \<open>A child's keys are not below its own separator and below all later ones.\<close>

definition separated :: "('k::linorder, 'v) forest \<Rightarrow> bool" where
  "separated ts \<longleftrightarrow> sorted_wrt (\<lambda>p q. fst p < fst q \<and> (\<forall>x\<in>bt_keys (snd p). x < fst q)) ts
     \<and> (\<forall>p\<in>set ts. \<forall>x\<in>bt_keys (snd p). fst p \<le> x)"

fun bt_ok :: "nat \<Rightarrow> ('k::linorder, 'v) bt \<Rightarrow> bool" where
  "bt_ok c (BLeaf a xs sib) = (length xs \<le> c \<and> sorted_keys xs)"
| "bt_ok c (BNode a ts) = (ts \<noteq> [] \<and> length ts \<le> c \<and> separated ts \<and> (\<forall>p\<in>set ts. bt_ok c (snd p)))"

abbreviation forest_ok :: "nat \<Rightarrow> ('k::linorder, 'v) forest \<Rightarrow> bool" where
  "forest_ok c ts \<equiv> separated ts \<and> (\<forall>p\<in>set ts. bt_ok c (snd p))"

abbreviation forest_kvs :: "('k, 'v) forest \<Rightarrow> ('k \<times> 'v) list" where
  "forest_kvs ts \<equiv> concat (map (\<lambda>p. kvs (snd p)) ts)"

abbreviation forest_keys :: "('k, 'v) forest \<Rightarrow> 'k set" where
  "forest_keys ts \<equiv> \<Union>p\<in>set ts. insert (fst p) (bt_keys (snd p))"

text \<open>The right-sibling links run through the leaves in order and end in \<open>r\<close>.\<close>

definition first_leaf :: "(blk_address \<times> 'e \<times> blk_address) list \<Rightarrow> blk_address \<Rightarrow> blk_address" where
  "first_leaf ls r = (case ls of [] \<Rightarrow> r | l # _ \<Rightarrow> fst l)"

fun linked :: "(blk_address \<times> 'e \<times> blk_address) list \<Rightarrow> blk_address \<Rightarrow> bool" where
  "linked [] r = True"
| "linked ((a, xs, sib) # ls) r = (sib = first_leaf ls r \<and> linked ls r)"

section \<open>Insertion\<close>

function bt_ins ::
  "nat \<Rightarrow> 'k::linorder \<Rightarrow> 'v \<Rightarrow> blk_address list \<Rightarrow> ('k, 'v) bt
     \<Rightarrow> ('k, 'v) bt \<times> ('k \<times> ('k, 'v) bt) option \<times> blk_address list" where
  "bt_ins c k v fs (BLeaf a xs sib) =
     (case ins_split c k v xs of
        (ys, None) \<Rightarrow> (BLeaf a ys sib, None, fs)
      | (ys, Some zs) \<Rightarrow> (BLeaf a ys (hd fs), Some (fst (hd zs), BLeaf (hd fs) zs sib), tl fs))"
| "bt_ins c k v fs (BNode a ts) =
     (let i = nat (child_index k ts); s = (if child_index k ts < 0 then k else fst (ts ! i)) in
      if i < length ts then
        (case bt_ins c k v fs (snd (ts ! i)) of
           (t, None, fs') \<Rightarrow> (BNode a (ts[i := (s, t)]), None, fs')
         | (t, Some (b, r), fs') \<Rightarrow>
             (case ins_child c b r (ts[i := (s, t)]) of
                (us, None) \<Rightarrow> (BNode a us, None, fs')
              | (us, Some ws) \<Rightarrow> (BNode a us, Some (fst (hd ws), BNode (hd fs') ws), tl fs')))
      else (BNode a ts, None, fs))"
  by pat_completeness auto
termination
proof (relation "measure (\<lambda>(c, k, v, fs, t). size t)")
  show "((c, k, v, fs, snd (ts ! i)), (c, k, v, fs, BNode a ts)) \<in> measure (\<lambda>(c, k, v, fs, t). size t)"
    if "i = nat (child_index k ts)" "s = (if child_index k ts < 0 then k else fst (ts ! i))" "i < length ts"
    for c k v fs a and ts :: "('k::linorder, 'v) forest" and i s
  proof -
    have "ts ! i \<in> set ts" using that by simp
    then have "size_prod (\<lambda>_. 0) size (ts ! i) \<le> size_list (size_prod (\<lambda>_. 0) size) ts"
      by (rule size_list_estimation') simp
    then show ?thesis by (cases "ts ! i") simp
  qed
qed simp_all

declare bt_ins.simps(2) [simp del]

section \<open>Deletion\<close>

fun bt_balance ::
  "nat \<Rightarrow> ('k, 'v) bt \<Rightarrow> ('k, 'v) bt \<Rightarrow> ('k, 'v) bt \<times> ('k \<times> ('k, 'v) bt) option" where
  "bt_balance c (BLeaf a xs sib) (BLeaf b ys sib') =
     (case redistribute c xs ys of
        (us, Some ws) \<Rightarrow> (BLeaf a us sib, Some (fst (hd ws), BLeaf b ws sib'))
      | (us, None) \<Rightarrow> (BLeaf a us sib', None))"
| "bt_balance c (BNode a xs) (BNode b ys) =
     (case redistribute c xs ys of
        (us, Some ws) \<Rightarrow> (BNode a us, Some (fst (hd ws), BNode b ws))
      | (us, None) \<Rightarrow> (BNode a us, None))"
| "bt_balance c l r = (l, None)"

definition bt_fix_children ::
  "nat \<Rightarrow> nat \<Rightarrow> ('k, 'v) forest \<Rightarrow> ('k, 'v) forest \<times> bool \<times> blk_address list" where
  "bt_fix_children c l ts =
     (case bt_balance c (snd (ts ! l)) (snd (ts ! Suc l)) of
        (lt, Some (b, rt)) \<Rightarrow> (ts[l := (fst (ts ! l), lt), Suc l := (b, rt)], False, [])
      | (lt, None) \<Rightarrow>
          (take l ts @ (fst (ts ! l), lt) # drop (Suc (Suc l)) ts,
           length ts - 1 < UNDERFLOW_BOUND c, [addr (snd (ts ! Suc l))]))"

function bt_del ::
  "nat \<Rightarrow> 'k::linorder \<Rightarrow> bool \<Rightarrow> ('k, 'v) bt \<Rightarrow> ('k, 'v) bt \<times> bool \<times> bool \<times> blk_address list" where
  "bt_del c k u (BLeaf a xs sib) =
     (if k \<in> keys xs
      then (BLeaf a (kv_del k xs) sib, True, length (kv_del k xs) < UNDERFLOW_BOUND c, [])
      else (BLeaf a xs sib, False, u, []))"
| "bt_del c k u (BNode a ts) =
     (let i = nat (child_index k ts) in
      if child_index k ts < 0 \<or> \<not> i < length ts then (BNode a ts, False, u, [])
      else
        (case bt_del c k u (snd (ts ! i)) of
           (t, False, u', fs) \<Rightarrow> (BNode a ts, False, u', fs)
         | (t, True, u', fs) \<Rightarrow>
             (let us = ts[i := (fst (ts ! i), t)] in
              if \<not> u' \<or> length ts < 2 then (BNode a us, True, u', fs)
              else (case bt_fix_children c (i - 1) us of (ws, u'', fs') \<Rightarrow> (BNode a ws, True, u'', fs @ fs')))))"
  by pat_completeness auto
termination
proof (relation "measure (\<lambda>(c, k, u, t). size t)")
  show "((c, k, u, snd (ts ! i)), (c, k, u, BNode a ts)) \<in> measure (\<lambda>(c, k, u, t). size t)"
    if "i = nat (child_index k ts)" "\<not> (child_index k ts < 0 \<or> \<not> i < length ts)"
    for c k u a and ts :: "('k::linorder, 'v) forest" and i
  proof -
    have "ts ! i \<in> set ts" using that by simp
    then have "size_prod (\<lambda>_. 0) size (ts ! i) \<le> size_list (size_prod (\<lambda>_. 0) size) ts"
      by (rule size_list_estimation') simp
    then show ?thesis by (cases "ts ! i") simp
  qed
qed simp_all

declare bt_del.simps(2) [simp del]

section \<open>Forests\<close>

lemma separated_Nil [simp]: "separated []"
  by (simp add: separated_def)

lemma separated_Cons:
  "separated (p # ts) \<longleftrightarrow> separated ts \<and> (\<forall>x\<in>bt_keys (snd p). fst p \<le> x)
     \<and> (\<forall>q\<in>set ts. fst p < fst q \<and> (\<forall>x\<in>bt_keys (snd p). x < fst q))"
  by (auto simp: separated_def)

lemma separated_append:
  "separated (ts @ us) \<longleftrightarrow> separated ts \<and> separated us
     \<and> (\<forall>p\<in>set ts. \<forall>q\<in>set us. fst p < fst q \<and> (\<forall>x\<in>bt_keys (snd p). x < fst q))"
  by (auto simp: separated_def sorted_wrt_append)

lemma separated_sorted: "separated ts \<Longrightarrow> sorted_keys ts"
  by (induction ts) (auto simp: separated_Cons)

lemma separated_above:
  assumes "separated (p # ts)" "x \<in> forest_keys (p # ts)"
  shows "fst p \<le> x"
proof -
  from assms(2) consider "x = fst p" | "x \<in> bt_keys (snd p)"
    | q where "q \<in> set ts" "x = fst q \<or> x \<in> bt_keys (snd q)" by auto
  then show ?thesis
  proof cases
    case 3
    then have "fst p < fst q" "fst q \<le> x"
      using assms(1) by (auto simp: separated_Cons separated_def)
    then show ?thesis by simp
  qed (use assms(1) in \<open>auto simp: separated_Cons\<close>)
qed

lemma separated_below:
  "separated (ts @ p # us) \<Longrightarrow> x \<in> forest_keys ts \<Longrightarrow> x < fst p"
  by (auto simp: separated_append)

lemma forest_ok_split:
  "forest_ok c (ts @ us) \<Longrightarrow> forest_ok c ts \<and> forest_ok c us"
  by (auto simp: separated_append)

lemma keys_kvs: "keys (kvs t) \<subseteq> bt_keys t"
proof (induction t rule: kvs.induct)
  case (2 a ts)
  then show ?case by (simp add: image_UN) blast
qed simp

lemma keys_forest_kvs: "keys (forest_kvs ts) \<subseteq> forest_keys ts"
proof -
  have "(\<Union>p\<in>set ts. keys (kvs (snd p))) \<subseteq> forest_keys ts"
    by (intro UN_mono subset_refl subset_trans [OF keys_kvs] subset_insertI)
  then show ?thesis by (simp add: image_UN)
qed

text \<open>Descending to the child of a key: everything to the left is smaller, to the right larger.\<close>

lemma descend:
  fixes ts :: "('k::linorder, 'v) forest" and k :: 'k
  assumes sep: "separated ts" and ne: "ts \<noteq> []"
  defines "i \<equiv> nat (child_index k ts)"
  defines "s \<equiv> if child_index k ts < 0 then k else fst (ts ! i)"
  shows "i < length ts" "s \<le> k" "s \<le> fst (ts ! i)"
    "\<forall>x\<in>forest_keys (take i ts). x < s" "\<forall>x\<in>forest_keys (drop (Suc i) ts). k < x"
proof -
  note sorted = separated_sorted [OF sep]
  have split: "take i ts @ ts ! i # drop (Suc i) ts = ts" if "i < length ts"
    using that by (rule id_take_nth_drop [symmetric])
  show i: "i < length ts" 
    using child_index_bounds(2) [of k ts] length_greater_0_conv [of ts] ne unfolding i_def by linarith
  have neg: "i = 0 \<and> s = k \<and> (\<forall>x\<in>keys ts. k < x)" if "child_index k ts < 0"
  proof -
    have "filter (\<lambda>e. fst e \<le> k) ts = []" using that child_index_bounds(1) [of k ts] by (simp add: child_index_def)
    then show ?thesis using that by (auto simp: i_def s_def filter_empty_conv not_le)
  qed
  note pos = child_index_split [OF sorted, of k, folded i_def]
  show "s \<le> k" using neg pos by (cases "child_index k ts < 0") (auto simp: s_def)
  show "s \<le> fst (ts ! i)" using neg i by (cases "child_index k ts < 0") (auto simp: s_def less_imp_le)
  show "\<forall>x\<in>forest_keys (take i ts). x < s"
    using neg separated_below [of "take i ts" "ts ! i" "drop (Suc i) ts"] split [OF i] sep
    by (cases "child_index k ts < 0") (auto simp: s_def)
  have "\<forall>x\<in>keys (drop (Suc i) ts). k < x"
    using neg pos by (cases "child_index k ts < 0") (auto dest: in_set_dropD)
  moreover have "\<forall>q\<in>set ts. \<forall>x\<in>bt_keys (snd q). fst q \<le> x" using sep by (auto simp: separated_def)
  ultimately have "k < fst q" "\<forall>x\<in>bt_keys (snd q). fst q \<le> x" if "q \<in> set (drop (Suc i) ts)" for q
    using that in_set_dropD [OF that] by auto
  note right = this
  show "\<forall>x\<in>forest_keys (drop (Suc i) ts). k < x"
  proof
    fix x assume "x \<in> forest_keys (drop (Suc i) ts)"
    then obtain q where "q \<in> set (drop (Suc i) ts)" "x = fst q \<or> x \<in> bt_keys (snd q)" by auto
    with right [of q] show "k < x" by (auto intro: less_le_trans)
  qed
qed

section \<open>Splitting lists\<close>

lemma kv_put_take_drop:
  assumes s: "sorted_keys xs" and b: "b \<notin> keys xs" and h: "h \<le> length xs"
  shows "rank b xs \<le> h \<Longrightarrow> kv_put b r (take h xs) = take (Suc h) (kv_put b r xs) \<and> drop h xs = drop (Suc h) (kv_put b r xs)"
    and "h \<le> rank b xs \<Longrightarrow> take h xs = take h (kv_put b r xs) \<and> kv_put b r (drop h xs) = drop h (kv_put b r xs)"
proof -
  obtain l g where xs: "xs = l @ g" and len: "rank b xs = length l"
    and kl: "\<forall>x\<in>keys l. x < b" and kg: "\<forall>x\<in>keys g. b < x"
    using take_rank [OF s, of b] rank_miss [OF s b] append_take_drop_id [of "rank b xs" xs]
    by (intro that [of "filter (\<lambda>e. fst e < b) xs" "filter (\<lambda>e. b < fst e) xs"]) (auto simp: rank_def)
  have between: "kv_put b r (us @ ws) = us @ (b, r) # ws"
    if "\<forall>x\<in>keys us. x < b" "\<forall>x\<in>keys ws. b < x" for us ws :: "('a \<times> 'b) list"
    using kv_put_between [OF that, of r "[]"] by (simp add: kv_put_def)
  have "\<forall>x\<in>keys (take n g). b < x" "\<forall>x\<in>keys (drop n l). x < b" for n
    using kg kl by (auto dest: in_set_takeD in_set_dropD)
  then show "rank b xs \<le> h \<Longrightarrow> kv_put b r (take h xs) = take (Suc h) (kv_put b r xs) \<and> drop h xs = drop (Suc h) (kv_put b r xs)"
    and "h \<le> rank b xs \<Longrightarrow> take h xs = take h (kv_put b r xs) \<and> kv_put b r (drop h xs) = drop h (kv_put b r xs)"
    unfolding len unfolding xs by (simp_all add: between kl kg Suc_diff_le)
qed

lemma length_kv_put: "sorted_keys xs \<Longrightarrow> b \<notin> keys xs \<Longrightarrow> length (kv_put b r xs) = Suc (length xs)"
  by (simp add: kv_put_rank)

lemma ins_child_cases:
  assumes s: "sorted_keys xs" and b: "b \<notin> keys xs" and len: "length xs \<le> c" and c: "2 \<le> c"
  obtains (fits) "length (kv_put b r xs) \<le> c" "ins_child c b r xs = (kv_put b r xs, None)"
  | (split) p where "0 < p" "p < length (kv_put b r xs)" "p \<le> c" "length (kv_put b r xs) - p \<le> c"
      "ins_child c b r xs = (take p (kv_put b r xs), Some (drop p (kv_put b r xs)))"
proof (cases "length xs < c")
  case True
  then show thesis using fits length_kv_put [OF s b, of r] by (simp add: ins_child_def)
next
  case False
  then have n: "length xs = c" using len by simp
  have h: "0 < c div 2" "c div 2 < c" using c by auto
  show thesis
  proof (cases "rank b xs \<le> c div 2")
    case True
    with False h kv_put_take_drop(1) [OF s b, of "c div 2" r] length_kv_put [OF s b, of r] n show thesis
      by (intro split [of "Suc (c div 2)"]) (auto simp: ins_child_def)
  next
    case gt: False
    with False h kv_put_take_drop(2) [OF s b, of "c div 2" r] length_kv_put [OF s b, of r] n show thesis
      by (intro split [of "c div 2"]) (auto simp: ins_child_def)
  qed
qed

lemma length_kv_put_present: "sorted_keys xs \<Longrightarrow> k \<in> keys xs \<Longrightarrow> length (kv_put k v xs) = length xs"
  using rank_hit(1) [of xs k] by (simp add: kv_put_rank)

lemma ins_split_cases:
  assumes s: "sorted_keys xs" and len: "length xs \<le> c" and c: "2 \<le> c"
  obtains (fits) "length (kv_put k v xs) \<le> c" "ins_split c k v xs = (kv_put k v xs, None)"
  | (split) p where "0 < p" "p < length (kv_put k v xs)" "p \<le> c" "length (kv_put k v xs) - p \<le> c"
      "ins_split c k v xs = (take p (kv_put k v xs), Some (drop p (kv_put k v xs)))"
proof (cases "k \<in> keys xs \<or> length xs < c")
  case True
  then show thesis
    using fits len length_kv_put [OF s, of k v] length_kv_put_present [OF s, of k v]
    by (cases "k \<in> keys xs") (auto simp: ins_split_def)
next
  case False
  then have n: "length xs = c" and k: "k \<notin> keys xs" using len by auto
  have h: "0 < c div 2" "c div 2 < c" using c by auto
  show thesis
  proof (cases "rank k xs < c div 2")
    case True
    with False h kv_put_take_drop(1) [OF s k, of "c div 2" v] length_kv_put [OF s k, of v] n show thesis
      by (intro split [of "Suc (c div 2)"]) (auto simp: ins_split_def)
  next
    case ge: False
    with False h kv_put_take_drop(2) [OF s k, of "c div 2" v] length_kv_put [OF s k, of v] n show thesis
      by (intro split [of "c div 2"]) (auto simp: ins_split_def)
  qed
qed

section \<open>Correctness of insertion\<close>

text \<open>The children that replace a child after an insertion.\<close>

definition grown :: "'k \<Rightarrow> ('k, 'v) bt \<Rightarrow> ('k \<times> ('k, 'v) bt) option \<Rightarrow> ('k, 'v) forest" where
  "grown s t sp = (s, t) # (case sp of None \<Rightarrow> [] | Some p \<Rightarrow> [p])"

lemma kv_put_here:
  assumes "separated (ls @ (s, t) # (b, r) # rs)"
  shows "kv_put b r (ls @ (s, t) # rs) = ls @ (s, t) # (b, r) # rs"
    "b \<notin> keys (ls @ (s, t) # rs)" "rank b (ls @ (s, t) # rs) = Suc (length ls)"
proof -
  have l: "\<forall>x\<in>keys (ls @ [(s, t)]). x < b" and g: "\<forall>x\<in>keys rs. b < x"
    using assms by (auto simp: separated_append separated_Cons)
  show "kv_put b r (ls @ (s, t) # rs) = ls @ (s, t) # (b, r) # rs"
    using kv_put_between [OF l g, of r "[]"] by (simp add: kv_put_def)
  show "b \<notin> keys (ls @ (s, t) # rs)" using l g by auto
  have "filter (\<lambda>e. fst e < b) ls = ls" "s < b" "filter (\<lambda>e. fst e < b) rs = []"
    using l g unfolding filter_id_conv filter_empty_conv by auto
  then show "rank b (ls @ (s, t) # rs) = Suc (length ls)" by (simp add: rank_def)
qed

text \<open>Splitting a forest over two nodes.\<close>

lemma forest_ok_cut:
  assumes ok: "forest_ok c F" and p: "0 < p" "p < length F" "p \<le> c" "length F - p \<le> c"
    and low: "\<forall>x\<in>forest_keys F. s \<le> x"
  shows "forest_ok c [(s, BNode a (take p F)), (fst (hd (drop p F)), BNode f (drop p F))]"
proof -
  obtain q us where d: "drop p F = q # us" using p by (cases "drop p F") auto
  obtain q0 ls where t: "take p F = q0 # ls" using p by (cases "take p F") auto
  have F: "F = (q0 # ls) @ q # us" using append_take_drop_id [of p F] unfolding d t by simp
  have sep: "separated ((q0 # ls) @ q # us)" using ok unfolding F by simp
  have sub: "forest_ok c (q0 # ls)" "forest_ok c (q # us)"
    using ok forest_ok_split [of "q0 # ls" "q # us" c] unfolding F by blast+
  have low': "\<forall>x\<in>forest_keys (q0 # ls). s \<le> x" using low unfolding F set_append UN_Un ball_Un by blast
  have below: "\<forall>x\<in>forest_keys (q0 # ls). x < fst q" using separated_below [OF sep] by blast
  have above: "\<forall>x\<in>forest_keys (q # us). fst q \<le> x"
    using separated_above [OF conjunct1 [OF sub(2)]] by blast
  have "s \<le> fst q0" using low' by simp
  also have "fst q0 < fst q" using below by simp
  finally have "s < fst q" .
  moreover have "Suc (length ls) \<le> c" "Suc (length us) \<le> c"
    using arg_cong [OF t, of length] arg_cong [OF d, of length] p by simp_all
  moreover have "separated [(s, BNode a (q0 # ls)), (fst q, BNode f (q # us))]"
    using \<open>s < fst q\<close> low' below above
    unfolding separated_Cons bt_keys.simps fst_conv snd_conv by simp
  ultimately show ?thesis using sub unfolding d t by simp
qed

lemma bt_ins_unfold:
  assumes il: "i < length ts" and i: "i = nat (child_index k ts)"
    and s: "s = (if child_index k ts < 0 then k else fst (ts ! i))"
    and child: "bt_ins c k v fs (snd (ts ! i)) = (t, sp, fs')"
  shows "bt_ins c k v fs (BNode a ts) = (case sp of
        None \<Rightarrow> (BNode a (ts[i := (s, t)]), None, fs')
      | Some (b, r) \<Rightarrow> (case ins_child c b r (ts[i := (s, t)]) of
          (us, None) \<Rightarrow> (BNode a us, None, fs')
        | (us, Some ws) \<Rightarrow> (BNode a us, Some (fst (hd ws), BNode (hd fs') ws), tl fs')))"
  unfolding bt_ins.simps(2) Let_def i [symmetric] s [symmetric] child using il by (simp split: option.split)

text \<open>One level of the recursion, given that the child's result fits its place.\<close>

lemma bt_ins_step:
  assumes ok: "bt_ok c (BNode a ts)" and c: "2 \<le> c"
    and i: "i = nat (child_index k ts)" and s: "s = (if child_index k ts < 0 then k else fst (ts ! i))"
    and child: "bt_ins c k v fs (snd (ts ! i)) = (t, sp, fs')"
    and F: "F = take i ts @ grown s t sp @ drop (Suc i) ts" and sep: "separated F"
  obtains (fits) "length F \<le> c" "bt_ins c k v fs (BNode a ts) = (BNode a F, None, fs')"
  | (split) p where "0 < p" "p < length F" "p \<le> c" "length F - p \<le> c"
      "bt_ins c k v fs (BNode a ts)
         = (BNode a (take p F), Some (fst (hd (drop p F)), BNode (hd fs') (drop p F)), tl fs')"
proof -
  have il: "i < length ts" using descend(1) [of ts k] ok i by simp
  have upd: "ts[i := (s, t)] = take i ts @ (s, t) # drop (Suc i) ts" using il by (rule upd_conv_take_nth_drop)
  note eq = bt_ins_unfold [OF il i s child]
  show thesis
  proof (cases sp)
    case None
    then show thesis using fits F il ok upd eq by (simp add: grown_def)
  next
    case (Some q)
    obtain b r where q: "q = (b, r)" by fastforce
    let ?xs = "take i ts @ (s, t) # drop (Suc i) ts"
    have sepF: "separated (take i ts @ (s, t) # (b, r) # drop (Suc i) ts)"
      using sep F Some q by (simp add: grown_def)
    note here = kv_put_here [OF sepF]
    have put: "kv_put b r ?xs = F" using here(1) F Some q by (simp add: grown_def)
    have sorted: "sorted_keys ?xs" using separated_sorted [OF sepF] by (auto simp: sorted_wrt_append)
    have len: "length ?xs \<le> c" using ok il by simp
    show thesis
      using ins_child_cases [OF sorted here(2) len c, of r] unfolding put
      by cases (use eq upd Some q fits split in auto)
  qed
qed

lemma leaf_ok_cut:
  assumes ok: "sorted_keys P" and p: "0 < p" "p < length P" "p \<le> c" "length P - p \<le> c"
    and low: "\<forall>x\<in>keys P. s \<le> x"
  shows "forest_ok c [(s, BLeaf a (take p P) f), (fst (hd (drop p P)), BLeaf g (drop p P) sib)]"
proof -
  obtain q us where d: "drop p P = q # us" using p by (cases "drop p P") auto
  obtain q0 ls where t: "take p P = q0 # ls" using p by (cases "take p P") auto
  have "P = (q0 # ls) @ q # us" using d t by (metis append_take_drop_id)
  then have sorted: "sorted_keys ((q0 # ls) @ q # us)" and low': "\<forall>x\<in>keys ((q0 # ls) @ q # us). s \<le> x"
    using ok low by auto
  moreover have "s < fst q" using sorted low' by (auto simp: sorted_wrt_append intro: le_less_trans)
  moreover have "Suc (length ls) \<le> c" "Suc (length us) \<le> c"
    using arg_cong [OF t, of length] arg_cong [OF d, of length] p by simp_all
  ultimately show ?thesis
    unfolding d t by (auto simp: separated_Cons sorted_wrt_append intro: less_imp_le)
qed

text \<open>Putting the grown child back between its siblings.\<close>

lemma forest_ok_replace:
  assumes ok: "bt_ok c (BNode a ts)"
    and i: "i = nat (child_index k ts)" and s: "s = (if child_index k ts < 0 then k else fst (ts ! i))"
    and G: "forest_ok c G" "forest_kvs G = kv_put k v (kvs (snd (ts ! i)))"
      "forest_keys G \<subseteq> insert s (insert k (bt_keys (snd (ts ! i))))" "G = (s, t) # G'"
    and F: "F = take i ts @ G @ drop (Suc i) ts"
  shows "forest_ok c F" "forest_kvs F = kv_put k v (kvs (BNode a ts))"
    "forest_keys F \<subseteq> insert k (bt_keys (BNode a ts))"
proof -
  have sep: "separated ts" and ne: "ts \<noteq> []" using ok by auto
  note D = descend [OF sep ne, of k, folded i, folded s]
  have split: "ts = take i ts @ ts ! i # drop (Suc i) ts" using D(1) by (rule id_take_nth_drop)
  have sep3: "separated (take i ts @ ts ! i # drop (Suc i) ts)" using sep split by simp
  have sets: "set ts = set (take i ts) \<union> {ts ! i} \<union> set (drop (Suc i) ts)"
    using arg_cong [OF split, of set] by auto
  have sG: "fst q \<ge> s" if "q \<in> set G" for q
    using separated_above [of "(s, t)" G' "fst q"] G(1,4) that by auto
  have left: "fst p < fst q \<and> (\<forall>x\<in>bt_keys (snd p). x < fst q)" if "p \<in> set (take i ts)" "q \<in> set G" for p q
    using D(4) sG [OF that(2)] that(1) by (auto intro: less_le_trans)
  have right: "x < fst q" if "q \<in> set (drop (Suc i) ts)" "x \<in> forest_keys G" for x q
  proof -
    have "k < fst q" using D(5) that(1) by auto
    moreover have "\<forall>y\<in>bt_keys (snd (ts ! i)). y < fst q"
      using sep3 that(1) by (auto simp: separated_append separated_Cons)
    ultimately show ?thesis using that(2) G(3) D(2) by (auto dest!: subsetD [OF G(3)])
  qed
  then have right: "fst p < fst q \<and> (\<forall>x\<in>bt_keys (snd p). x < fst q)"
    if "p \<in> set G" "q \<in> set (drop (Suc i) ts)" for p q
    using that by blast
  have parts: "separated (take i ts)" "separated (drop (Suc i) ts)"
    "\<forall>p\<in>set (take i ts). \<forall>q\<in>set (drop (Suc i) ts). fst p < fst q \<and> (\<forall>x\<in>bt_keys (snd p). x < fst q)"
    using sep3 by (simp_all add: separated_append separated_Cons)
  have "separated F"
    unfolding F separated_append set_append using parts left right G(1) by blast
  moreover have "\<forall>p\<in>set F. bt_ok c (snd p)" using ok G(1) sets unfolding F by (simp add: ball_Un)
  ultimately show "forest_ok c F" ..
  have "forest_kvs F = forest_kvs (take i ts) @ kv_put k v (kvs (snd (ts ! i))) @ forest_kvs (drop (Suc i) ts)"
    by (simp add: F G(2))
  also have "\<dots> = kv_put k v (forest_kvs (take i ts) @ kvs (snd (ts ! i)) @ forest_kvs (drop (Suc i) ts))"
  proof (rule kv_put_between [symmetric])
    show "\<forall>x\<in>keys (forest_kvs (take i ts)). x < k"
      using subsetD [OF keys_forest_kvs, of _ "take i ts"] D(2,4) less_le_trans by blast
    show "\<forall>x\<in>keys (forest_kvs (drop (Suc i) ts)). k < x"
      using subsetD [OF keys_forest_kvs, of _ "drop (Suc i) ts"] D(5) by blast
  qed
  also have "forest_kvs (take i ts) @ kvs (snd (ts ! i)) @ forest_kvs (drop (Suc i) ts) = kvs (BNode a ts)"
    using arg_cong [OF split, of forest_kvs] by simp
  finally show "forest_kvs F = kv_put k v (kvs (BNode a ts))" .
  show "forest_keys F \<subseteq> insert k (bt_keys (BNode a ts))"
    using G(3) sets s unfolding F by (auto split: if_splits)
qed

lemma bt_ins_ok:
  assumes "bt_ok c t" "2 \<le> c" "s \<le> k" "\<forall>x\<in>bt_keys t. s \<le> x" "bt_ins c k v fs t = (t', sp, fs')"
  shows "forest_ok c (grown s t' sp) \<and> forest_kvs (grown s t' sp) = kv_put k v (kvs t)
     \<and> forest_keys (grown s t' sp) \<subseteq> insert s (insert k (bt_keys t))"
  using assms
proof (induction t arbitrary: s fs t' sp fs' rule: kvs.induct)
  case (1 a xs sib)
  let ?P = "kv_put k v xs"
  have xs: "sorted_keys xs" "length xs \<le> c" and P: "sorted_keys ?P" "keys ?P = insert k (keys xs)"
    using 1 kv_put_sorted keys_kv_put [of k v xs] by auto
  have low: "\<forall>x\<in>keys ?P. s \<le> x" using 1 P by auto
  from xs \<open>2 \<le> c\<close> show ?case
  proof (cases rule: ins_split_cases [where k = k and v = v])
    case fits
    then show ?thesis using "1.prems" P low by (auto simp: grown_def separated_Cons)
  next
    case (split p)
    have sub: "keys (take p ?P) \<subseteq> insert k (keys xs)" "keys (drop p ?P) \<subseteq> insert k (keys xs)"
      unfolding P(2) [symmetric] by (auto dest: in_set_takeD in_set_dropD)
    moreover have "fst (hd (drop p ?P)) \<in> insert k (keys xs)" using split(2) by (intro subsetD [OF sub(2)]) simp
    moreover have g: "grown s t' sp = [(s, BLeaf a (take p ?P) (hd fs)),
        (fst (hd (drop p ?P)), BLeaf (hd fs) (drop p ?P) sib)]"
      using split(5) "1.prems"(5) by (auto simp: grown_def)
    ultimately have "forest_keys (grown s t' sp) \<subseteq> insert s (insert k (keys xs))"
      by (simp add: subset_insertI2)
    then show ?thesis using leaf_ok_cut [OF P(1) split(1-4) low, of a "hd fs" "hd fs" sib] unfolding g by simp
  qed
next
  case (2 a ts)
  define i where "i = nat (child_index k ts)"
  define s' where "s' = (if child_index k ts < 0 then k else fst (ts ! i))"
  have sep: "separated ts" "ts \<noteq> []" using "2.prems"(1) by simp_all
  note D = descend [OF sep, of k, folded i_def, folded s'_def]
  obtain t1 sp1 fs1 where child: "bt_ins c k v fs (snd (ts ! i)) = (t1, sp1, fs1)" by (cases "bt_ins c k v fs (snd (ts ! i))")
  have mem: "ts ! i \<in> set ts" using D(1) by simp
  have "\<forall>x\<in>bt_keys (snd (ts ! i)). fst (ts ! i) \<le> x" using sep(1) mem by (auto simp: separated_def)
  then have low': "\<forall>x\<in>bt_keys (snd (ts ! i)). s' \<le> x" using order_trans [OF D(3)] by blast
  define F where "F = take i ts @ grown s' t1 sp1 @ drop (Suc i) ts"
  have "bt_ok c (snd (ts ! i))" using "2.prems"(1) mem by simp
  note IH = "2.IH" [OF mem this \<open>2 \<le> c\<close> D(2) low' child]
  note parts = conjunct1 [OF IH] conjunct1 [OF conjunct2 [OF IH]] conjunct2 [OF conjunct2 [OF IH]]
  note ok = forest_ok_replace [OF "2.prems"(1) i_def s'_def parts grown_def F_def]
  have low: "\<forall>x\<in>forest_keys F. s \<le> x" using ok(3) "2.prems"(3,4) by blast
  have ne: "F \<noteq> []" by (simp add: F_def grown_def)
  have sub: "forest_keys F \<subseteq> insert s (insert k (bt_keys (BNode a ts)))" using ok(3) by blast
  show ?case
  proof (rule bt_ins_step [OF "2.prems"(1,2) i_def s'_def child F_def conjunct1 [OF ok(1)]])
    assume len: "length F \<le> c" and res: "bt_ins c k v fs (BNode a ts) = (BNode a F, None, fs1)"
    have g: "grown s t' sp = [(s, BNode a F)]" using res "2.prems"(5) by (auto simp: grown_def)
    show ?thesis using ok(1,2) len ne low sub unfolding g by (simp add: separated_Cons)
  next
    fix p assume p: "0 < p" "p < length F" "p \<le> c" "length F - p \<le> c"
      and res: "bt_ins c k v fs (BNode a ts)
        = (BNode a (take p F), Some (fst (hd (drop p F)), BNode (hd fs1) (drop p F)), tl fs1)"
    have g: "grown s t' sp = [(s, BNode a (take p F)), (fst (hd (drop p F)), BNode (hd fs1) (drop p F))]"
      using res "2.prems"(5) by (auto simp: grown_def)
    have app: "F = take p F @ drop p F" by simp
    have hd: "hd (drop p F) \<in> set (drop p F)" using p by simp
    have "forest_keys (grown s t' sp) \<subseteq> insert s (forest_keys (take p F) \<union> forest_keys (drop p F))"
      unfolding g using hd by auto
    also have "forest_keys (take p F) \<union> forest_keys (drop p F) = forest_keys F"
      by (subst (3) app) (simp only: set_append UN_Un)
    finally have "forest_keys (grown s t' sp) \<subseteq> insert s (insert k (bt_keys (BNode a ts)))" using sub by blast
    moreover have "forest_kvs (grown s t' sp) = forest_kvs F"
      unfolding g by (subst (3) app) (simp only: map_append concat_append, simp)
    ultimately show ?thesis
      using forest_ok_cut [OF ok(1) p low] ok(2) unfolding g by simp
  qed
qed

lemma bt_ins_child_ok:
  assumes ok: "bt_ok c (BNode a ts)" and c: "2 \<le> c"
    and i: "i = nat (child_index k ts)" and s: "s = (if child_index k ts < 0 then k else fst (ts ! i))"
    and child: "bt_ins c k v fs (snd (ts ! i)) = (t, sp, fs')"
    and F: "F = take i ts @ grown s t sp @ drop (Suc i) ts"
  shows "i < length ts" "forest_ok c F"
proof -
  have sep: "separated ts" "ts \<noteq> []" using ok by simp_all
  note D = descend [OF sep, of k, folded i, folded s]
  show "i < length ts" by (rule D(1))
  have mem: "ts ! i \<in> set ts" using D(1) by simp
  have "\<forall>x\<in>bt_keys (snd (ts ! i)). fst (ts ! i) \<le> x" using sep(1) mem by (auto simp: separated_def)
  then have low: "\<forall>x\<in>bt_keys (snd (ts ! i)). s \<le> x" using order_trans [OF D(3)] by blast
  have "bt_ok c (snd (ts ! i))" using ok mem by simp
  note G = bt_ins_ok [OF this c D(2) low child]
  note parts = conjunct1 [OF G] conjunct1 [OF conjunct2 [OF G]] conjunct2 [OF conjunct2 [OF G]]
  show "forest_ok c F" by (rule forest_ok_replace(1) [OF ok i s parts grown_def F])
qed

text \<open>The two outcomes of an insertion below an inner node.\<close>

lemma bt_ins_node:
  assumes ok: "bt_ok c (BNode a ts)" and c: "2 \<le> c"
  obtains (fits) i s t sp fs' F where "i < length ts" "bt_ins c k v fs (snd (ts ! i)) = (t, sp, fs')"
      "F = take i ts @ grown s t sp @ drop (Suc i) ts"
      "bt_ins c k v fs (BNode a ts) = (BNode a F, None, fs')"
  | (split) i s t sp fs' F p where "i < length ts" "bt_ins c k v fs (snd (ts ! i)) = (t, sp, fs')"
      "F = take i ts @ grown s t sp @ drop (Suc i) ts" "0 < p" "p < length F"
      "bt_ins c k v fs (BNode a ts)
         = (BNode a (take p F), Some (fst (hd (drop p F)), BNode (hd fs') (drop p F)), tl fs')"
proof -
  define i where "i = nat (child_index k ts)"
  define s where "s = (if child_index k ts < 0 then k else fst (ts ! i))"
  obtain t sp fs' where child: "bt_ins c k v fs (snd (ts ! i)) = (t, sp, fs')"
    by (cases "bt_ins c k v fs (snd (ts ! i))")
  define F where "F = take i ts @ grown s t sp @ drop (Suc i) ts"
  note ch = bt_ins_child_ok [OF ok c i_def s_def child F_def]
  show thesis
    by (rule bt_ins_step [OF ok c i_def s_def child F_def conjunct1 [OF ch(2)]])
      (use fits [OF ch(1) child F_def] split [OF ch(1) child F_def] in blast)+
qed

lemma bt_ins_height:
  assumes "bt_ok c t" "2 \<le> c" "bt_height h t" "bt_ins c k v fs t = (t', sp, fs')"
  shows "\<forall>p\<in>set (grown s t' sp). bt_height h (snd p)"
  using assms
proof (induction t arbitrary: h s t' sp fs' rule: kvs.induct)
  case (1 a xs sib)
  then show ?case by (auto simp: grown_def split: prod.splits option.splits)
next
  case (2 a ts)
  obtain d where h: "h = Suc d" and d: "\<forall>p\<in>set ts. bt_height d (snd p)" using "2.prems"(3) by auto
  have all: "\<forall>q\<in>set (take i ts @ grown s1 t sp1 @ drop (Suc i) ts). bt_height d (snd q)"
    if "i < length ts" "bt_ins c k v fs (snd (ts ! i)) = (t, sp1, fs1)" for i s1 t sp1 fs1
  proof -
    have mem: "ts ! i \<in> set ts" using that(1) by simp
    have "\<forall>q\<in>set (grown s1 t sp1). bt_height d (snd q)"
      using "2.IH" [OF mem _ \<open>2 \<le> c\<close> _ that(2)] d "2.prems"(1) mem by simp
    then show ?thesis using d set_take_subset [of i ts] set_drop_subset [of "Suc i" ts] by (auto simp: subset_iff)
  qed
  from "2.prems"(1,2) show ?case
  proof (rule bt_ins_node [where k = k and v = v and fs = fs])
    fix i s1 t sp1 fs1 F
    assume "i < length ts" "bt_ins c k v fs (snd (ts ! i)) = (t, sp1, fs1)"
      "F = take i ts @ grown s1 t sp1 @ drop (Suc i) ts" "bt_ins c k v fs (BNode a ts) = (BNode a F, None, fs1)"
    then show ?thesis using all [of i t sp1 fs1 s1] "2.prems"(4) h by (simp add: grown_def)
  next
    fix i s1 t sp1 fs1 F p
    assume *: "i < length ts" "bt_ins c k v fs (snd (ts ! i)) = (t, sp1, fs1)"
      "F = take i ts @ grown s1 t sp1 @ drop (Suc i) ts" "0 < p" "p < length F"
      "bt_ins c k v fs (BNode a ts)
         = (BNode a (take p F), Some (fst (hd (drop p F)), BNode (hd fs1) (drop p F)), tl fs1)"
    have "\<forall>q\<in>set (take p F). bt_height d (snd q)" "\<forall>q\<in>set (drop p F). bt_height d (snd q)"
      using all [OF *(1,2), of s1] *(3) in_set_takeD in_set_dropD by metis+
    then show ?thesis using *(6) "2.prems"(4) h by (auto simp: grown_def)
  qed
qed

lemma linked_append: "linked (xs @ ys) r \<longleftrightarrow> linked xs (first_leaf ys r) \<and> linked ys r"
  and first_leaf_append: "first_leaf (xs @ ys) r = first_leaf xs (first_leaf ys r)"
proof -
  show app: "first_leaf (xs @ ys) r = first_leaf xs (first_leaf ys r)" for xs
    by (cases xs) (simp_all add: first_leaf_def)
  show "linked (xs @ ys) r \<longleftrightarrow> linked xs (first_leaf ys r) \<and> linked ys r"
    by (induction xs "first_leaf ys r" rule: linked.induct) (auto simp: app)
qed

abbreviation forest_leaves :: "('k, 'v) forest \<Rightarrow> (blk_address \<times> ('k \<times> 'v) list \<times> blk_address) list" where
  "forest_leaves ts \<equiv> concat (map (\<lambda>p. leafseq (snd p)) ts)"

abbreviation forest_addrs :: "('k, 'v) forest \<Rightarrow> blk_address list" where
  "forest_addrs ts \<equiv> concat (map (\<lambda>p. addrs (snd p)) ts)"

text \<open>A forest function over a cut list and over a replaced child.\<close>

lemma concat_map_cut: "concat (map f (take p F)) @ concat (map f (drop p F)) = concat (map f F)"
  by (metis append_take_drop_id concat_append map_append)

lemma concat_map_nth:
  "i < length ts \<Longrightarrow> concat (map f ts) = concat (map f (take i ts)) @ f (ts ! i) @ concat (map f (drop (Suc i) ts))"
  by (metis concat.simps(2) concat_append id_take_nth_drop list.simps(9) map_append)

lemma bt_ins_linked:
  assumes "bt_ok c t" "2 \<le> c" "linked (leafseq t) r" "bt_ins c k v fs t = (t', sp, fs')"
  shows "linked (forest_leaves (grown s t' sp)) r
     \<and> first_leaf (forest_leaves (grown s t' sp)) r = first_leaf (leafseq t) r"
  using assms
proof (induction t arbitrary: r s t' sp fs' rule: kvs.induct)
  case (1 a xs sib)
  then show ?case by (auto simp: grown_def first_leaf_def split: prod.splits option.splits)
next
  case (2 a ts)
  have all: "linked (forest_leaves (take i ts @ grown s1 t sp1 @ drop (Suc i) ts)) r
      \<and> first_leaf (forest_leaves (take i ts @ grown s1 t sp1 @ drop (Suc i) ts)) r = first_leaf (forest_leaves ts) r"
    if "i < length ts" "bt_ins c k v fs (snd (ts ! i)) = (t, sp1, fs1)" for i s1 t sp1 fs1
  proof -
    let ?r = "first_leaf (forest_leaves (drop (Suc i) ts)) r"
    have mem: "ts ! i \<in> set ts" using that(1) by simp
    have split: "forest_leaves ts = forest_leaves (take i ts) @ leafseq (snd (ts ! i)) @ forest_leaves (drop (Suc i) ts)"
      using that(1) by (rule concat_map_nth)
    have "linked (forest_leaves ts) r" using "2.prems"(3) by simp
    then have l: "linked (forest_leaves (take i ts)) (first_leaf (leafseq (snd (ts ! i))) ?r)"
      "linked (leafseq (snd (ts ! i))) ?r" "linked (forest_leaves (drop (Suc i) ts)) r"
      unfolding split by (simp_all add: linked_append first_leaf_append)
    have "linked (forest_leaves (grown s1 t sp1)) ?r
       \<and> first_leaf (forest_leaves (grown s1 t sp1)) ?r = first_leaf (leafseq (snd (ts ! i))) ?r"
      using "2.IH" [OF mem _ \<open>2 \<le> c\<close> l(2) that(2)] "2.prems"(1) mem by simp
    then show ?thesis using l unfolding split by (simp add: linked_append first_leaf_append)
  qed
  from "2.prems"(1,2) show ?case
  proof (rule bt_ins_node [where k = k and v = v and fs = fs])
    fix i s1 t sp1 fs1 F
    assume "i < length ts" "bt_ins c k v fs (snd (ts ! i)) = (t, sp1, fs1)"
      "F = take i ts @ grown s1 t sp1 @ drop (Suc i) ts" "bt_ins c k v fs (BNode a ts) = (BNode a F, None, fs1)"
    then show ?thesis using all [of i t sp1 fs1 s1] "2.prems"(4) by (simp add: grown_def)
  next
    fix i s1 t sp1 fs1 F p
    assume *: "i < length ts" "bt_ins c k v fs (snd (ts ! i)) = (t, sp1, fs1)"
      "F = take i ts @ grown s1 t sp1 @ drop (Suc i) ts" "0 < p" "p < length F"
      "bt_ins c k v fs (BNode a ts)
         = (BNode a (take p F), Some (fst (hd (drop p F)), BNode (hd fs1) (drop p F)), tl fs1)"
    have "forest_leaves (grown s t' sp) = forest_leaves F"
      using *(6) "2.prems"(4) concat_map_cut [of "\<lambda>p. leafseq (snd p)" p F] by (auto simp: grown_def)
    then show ?thesis using all [OF *(1,2), of s1] *(3) by simp
  qed
qed

lemma bt_ins_addr: "bt_ins c k v fs t = (t', sp, fs') \<Longrightarrow> addr t' = addr t"
  by (cases t) (auto simp: bt_ins.simps(2) Let_def split: prod.splits option.splits if_splits)

text \<open>The nodes of the result are those of the argument and the new ones.\<close>

lemma bt_ins_addrs:
  assumes "bt_ok c t" "2 \<le> c" "bt_ins c k v fs t = (t', sp, fs')" "fs' \<noteq> []"
  shows "\<exists>us. fs = us @ fs' \<and> mset (forest_addrs (grown s t' sp)) = mset (addrs t) + mset us"
  using assms
proof (induction t arbitrary: s t' sp fs' rule: kvs.induct)
  case (1 a xs sib)
  then have "fs \<noteq> []" by (auto split: prod.splits option.splits)
  then have "fs = [hd fs] @ tl fs" by simp
  with 1 show ?case
    by (auto simp: grown_def split: prod.splits option.splits intro: exI [of _ "[]"] exI [of _ "[hd fs]"])
next
  case (2 a ts)
  have all: "\<exists>us. fs = us @ fs1 \<and> mset (forest_addrs (take i ts @ grown s1 t sp1 @ drop (Suc i) ts))
      = mset (forest_addrs ts) + mset us"
    if "i < length ts" "bt_ins c k v fs (snd (ts ! i)) = (t, sp1, fs1)" "fs1 \<noteq> []" for i s1 t sp1 fs1
  proof -
    have mem: "ts ! i \<in> set ts" using that(1) by simp
    have "mset (forest_addrs ts) = mset (forest_addrs (take i ts)) + mset (addrs (snd (ts ! i)))
        + mset (forest_addrs (drop (Suc i) ts))"
      using arg_cong [OF concat_map_nth [OF that(1), of "\<lambda>p. addrs (snd p)"], of mset] by (simp add: ac_simps)
    with "2.IH" [OF mem _ \<open>2 \<le> c\<close> that(2,3), of s1] "2.prems"(1) mem show ?thesis by (auto simp: ac_simps)
  qed
  from "2.prems"(1,2) show ?case
  proof (rule bt_ins_node [where k = k and v = v and fs = fs])
    fix i s1 t sp1 fs1 F
    assume "i < length ts" "bt_ins c k v fs (snd (ts ! i)) = (t, sp1, fs1)"
      "F = take i ts @ grown s1 t sp1 @ drop (Suc i) ts" "bt_ins c k v fs (BNode a ts) = (BNode a F, None, fs1)"
    then show ?thesis using all [of i t sp1 fs1 s1] "2.prems"(3,4) by (auto simp: grown_def)
  next
    fix i s1 t sp1 fs1 F p
    assume *: "i < length ts" "bt_ins c k v fs (snd (ts ! i)) = (t, sp1, fs1)"
      "F = take i ts @ grown s1 t sp1 @ drop (Suc i) ts" "0 < p" "p < length F"
      "bt_ins c k v fs (BNode a ts)
         = (BNode a (take p F), Some (fst (hd (drop p F)), BNode (hd fs1) (drop p F)), tl fs1)"
    have fs1: "fs1 \<noteq> []" "fs1 = [hd fs1] @ fs'" using "2.prems"(3,4) *(6) by (cases fs1; auto)+
    obtain us where us: "fs = us @ fs1" "mset (forest_addrs F) = mset (forest_addrs ts) + mset us"
      using all [OF *(1,2) fs1(1), of s1] *(3) by auto
    have "fs = (us @ [hd fs1]) @ fs'" using us(1) fs1(2) by (metis append_assoc)
    moreover have "mset (forest_addrs (grown s t' sp)) = mset (addrs (BNode a ts)) + mset (us @ [hd fs1])"
      using us(2) *(6) "2.prems"(3) arg_cong [OF concat_map_cut [of "\<lambda>p. addrs (snd p)" p F], of mset]
      by (auto simp: grown_def ac_simps)
    ultimately show ?thesis by blast
  qed
qed

section \<open>Correctness of deletion\<close>

definition bt_len :: "('k, 'v) bt \<Rightarrow> nat" where
  "bt_len t = (case t of BLeaf a xs sib \<Rightarrow> length xs | BNode a ts \<Rightarrow> length ts)"

text \<open>Replacing a run of leaves without touching the links around it.\<close>

definition leaves_keep ::
  "(blk_address \<times> 'e \<times> blk_address) list \<Rightarrow> (blk_address \<times> 'e \<times> blk_address) list \<Rightarrow> bool" where
  "leaves_keep L L' \<longleftrightarrow> (\<forall>r. linked L r \<longrightarrow> linked L' r \<and> first_leaf L' r = first_leaf L r)"

lemma leaves_keep_refl [simp]: "leaves_keep L L"
  by (simp add: leaves_keep_def)

lemma leaves_keep_trans: "leaves_keep L L' \<Longrightarrow> leaves_keep L' L'' \<Longrightarrow> leaves_keep L L''"
  by (simp add: leaves_keep_def)

lemma leaves_keep_context: "leaves_keep L L' \<Longrightarrow> leaves_keep (A @ L @ B) (A @ L' @ B)"
  by (simp add: leaves_keep_def linked_append first_leaf_append)

lemma redistribute_cases:
  assumes under: "length xs < UNDERFLOW_BOUND c \<or> length ys < UNDERFLOW_BOUND c" and c: "2 \<le> c"
    and len: "length xs \<le> c" "length ys \<le> c"
  obtains (cut) p where "0 < p" "p < length (xs @ ys)" "p \<le> c" "length (xs @ ys) - p \<le> c"
      "redistribute c xs ys = (take p (xs @ ys), Some (drop p (xs @ ys)))"
  | (merge) "length (xs @ ys) \<le> c" "redistribute c xs ys = (xs @ ys, None)"
proof -
  let ?u = "UNDERFLOW_BOUND c"
  have u: "0 < ?u" "?u < c" "2 * ?u \<le> c + 1" using c by (auto simp: UNDERFLOW_BOUND_def)
  consider (r) "length xs < ?u" "?u < length ys" | (l) "length ys < ?u" "?u < length xs"
    | (m) "length xs + length ys \<le> c" "\<not> (length xs < ?u \<and> ?u < length ys)" "\<not> (length ys < ?u \<and> ?u < length xs)"
    using under u by linarith
  then show thesis
  proof cases
    case r
    then obtain y y' ys' where "ys = y # y' # ys'" using u(1) by (cases ys; cases "tl ys") auto
    with r u len show thesis by (intro cut [of "Suc (length xs)"]) (simp_all add: redistribute_def)
  next
    case l
    then have "xs \<noteq> []" by auto
    then obtain xs' x where x: "xs = xs' @ [x]" by (cases xs rule: rev_cases) auto
    moreover from this have "xs' \<noteq> []" using l u(1) by auto
    ultimately show thesis using l u len by (intro cut [of "length xs - 1"]) (simp_all add: redistribute_def)
  next
    case m
    then show thesis by (intro merge) (auto simp: redistribute_def)
  qed
qed

text \<open>What balancing two neighbours gives.\<close>

definition balanced_to :: "nat \<Rightarrow> nat \<Rightarrow> ('k::linorder, 'v) forest \<Rightarrow> ('k, 'v) forest \<Rightarrow> blk_address list \<Rightarrow> bool" where
  "balanced_to c h M G fs \<longleftrightarrow> forest_ok c G \<and> forest_kvs G = forest_kvs M \<and> forest_keys G \<subseteq> forest_keys M
     \<and> (\<forall>p\<in>set G. bt_height h (snd p)) \<and> leaves_keep (forest_leaves M) (forest_leaves G)
     \<and> mset (forest_addrs M) = mset (forest_addrs G) + mset fs"

lemma bt_balance_leaf:
  assumes ok: "forest_ok c [(s, BLeaf a xs sib), (b, BLeaf f ys sib')]"
    and under: "length xs < UNDERFLOW_BOUND c \<or> length ys < UNDERFLOW_BOUND c" and c: "2 \<le> c"
    and res: "bt_balance c (BLeaf a xs sib) (BLeaf f ys sib') = (l, sp)"
  shows "balanced_to c 0 [(s, BLeaf a xs sib), (b, BLeaf f ys sib')] (grown s l sp) (if sp = None then [f] else [])"
proof -
  have sorted: "sorted_keys (xs @ ys)"
    using ok by (auto simp: separated_Cons sorted_wrt_append intro: less_le_trans)
  have "s < b" "\<forall>x\<in>keys xs. s \<le> x" "\<forall>y\<in>keys ys. b \<le> y" using ok by (simp_all add: separated_Cons)
  then have "\<forall>y\<in>keys ys. s \<le> y" using less_imp_le order_trans by blast
  with \<open>\<forall>x\<in>keys xs. s \<le> x\<close> have low: "\<forall>x\<in>keys (xs @ ys). s \<le> x" by (simp add: ball_Un)
  have len: "length xs \<le> c" "length ys \<le> c" using ok by simp_all
  define P where "P = xs @ ys"
  have kP: "keys P = keys xs \<union> keys ys" by (simp add: P_def image_Un)
  from under c len show ?thesis
  proof (rule redistribute_cases, unfold P_def [symmetric])
    fix p assume p: "0 < p" "p < length P" "p \<le> c" "length P - p \<le> c"
      and r: "redistribute c xs ys = (take p P, Some (drop p P))"
    have g: "grown s l sp = [(s, BLeaf a (take p P) sib), (fst (hd (drop p P)), BLeaf f (drop p P) sib')]"
      and sp: "sp \<noteq> None" using res r by (auto simp: grown_def)
    have "fst (hd (drop p P)) \<in> keys (drop p P)" using p by simp
    moreover have "keys (take p P) \<subseteq> keys P" "keys (drop p P) \<subseteq> keys P"
      using set_take_subset [of p P] set_drop_subset [of p P] by blast+
    ultimately have "forest_keys (grown s l sp) \<subseteq> insert s (keys P)"
      unfolding g by (simp add: subset_insertI2 subset_iff)
    then have keys: "forest_keys (grown s l sp) \<subseteq> forest_keys [(s, BLeaf a xs sib), (b, BLeaf f ys sib')]"
      unfolding kP by auto
    show ?thesis
      using leaf_ok_cut [OF sorted [folded P_def] p low [folded P_def], of a sib f sib'] sp keys
      unfolding balanced_to_def g by (simp add: leaves_keep_def first_leaf_def P_def [symmetric])
  next
    assume "length P \<le> c" "redistribute c xs ys = (P, None)"
    then show ?thesis
      using res sorted low unfolding balanced_to_def P_def
      by (auto simp: grown_def separated_Cons leaves_keep_def first_leaf_def)
  qed
qed

lemma bt_balance_node:
  assumes ok: "forest_ok c [(s, BNode a xs), (b, BNode f ys)]"
    and under: "length xs < UNDERFLOW_BOUND c \<or> length ys < UNDERFLOW_BOUND c" and c: "2 \<le> c"
    and h: "\<forall>p\<in>set (xs @ ys). bt_height h (snd p)"
    and res: "bt_balance c (BNode a xs) (BNode f ys) = (l, sp)"
  shows "balanced_to c (Suc h) [(s, BNode a xs), (b, BNode f ys)] (grown s l sp) (if sp = None then [f] else [])"
proof -
  define P where "P = xs @ ys"
  have sb: "s < b" "\<forall>x\<in>forest_keys xs. x < b" "\<forall>x\<in>forest_keys xs. s \<le> x" "\<forall>y\<in>forest_keys ys. b \<le> y"
    "separated xs" "separated ys"
    using ok by (simp_all add: separated_Cons)
  have cross: "fst p < fst q \<and> (\<forall>x\<in>bt_keys (snd p). x < fst q)" if "p \<in> set xs" "q \<in> set ys" for p q
  proof -
    have "b \<le> fst q" using sb(4) that(2) by blast
    then show ?thesis using sb(2) that(1) less_le_trans by blast
  qed
  have sepP: "separated P" unfolding P_def separated_append using sb(5,6) cross by blast
  have okP: "forest_ok c P" using sepP ok by (simp add: P_def ball_Un)
  have "\<forall>y\<in>forest_keys ys. s \<le> y" using sb(1,4) less_imp_le order_trans by blast
  then have low: "\<forall>x\<in>forest_keys P. s \<le> x" using sb(3) unfolding P_def set_append UN_Un ball_Un by blast
  have kP: "forest_keys P = forest_keys xs \<union> forest_keys ys" by (simp add: P_def)
  have ne: "P \<noteq> []" using ok by (simp add: P_def)
  have len: "length xs \<le> c" "length ys \<le> c" using ok by simp_all
  have mP: "forest_kvs P = forest_kvs xs @ forest_kvs ys" "forest_leaves P = forest_leaves xs @ forest_leaves ys"
    "forest_addrs P = forest_addrs xs @ forest_addrs ys" by (simp_all add: P_def)
  from under c len show ?thesis
  proof (rule redistribute_cases, unfold P_def [symmetric])
    fix p assume p: "0 < p" "p < length P" "p \<le> c" "length P - p \<le> c"
      and r: "redistribute c xs ys = (take p P, Some (drop p P))"
    have g: "grown s l sp = [(s, BNode a (take p P)), (fst (hd (drop p P)), BNode f (drop p P))]"
      and sp: "sp \<noteq> None" using res r by (auto simp: grown_def)
    have "fst (hd (drop p P)) \<in> forest_keys (drop p P)" using p by (intro UN_I [of "hd (drop p P)"]) simp_all
    moreover have "forest_keys (take p P) \<subseteq> forest_keys P" "forest_keys (drop p P) \<subseteq> forest_keys P"
      using set_take_subset [of p P] set_drop_subset [of p P] by blast+
    ultimately have "forest_keys (grown s l sp) \<subseteq> insert s (forest_keys P)"
      unfolding g by (simp add: subset_insertI2 subset_iff)
    then have keys: "forest_keys (grown s l sp) \<subseteq> forest_keys [(s, BNode a xs), (b, BNode f ys)]"
      unfolding kP by auto
    have "forest_kvs (take p P) @ forest_kvs (drop p P) = forest_kvs P"
      "forest_leaves (take p P) @ forest_leaves (drop p P) = forest_leaves P"
      "mset (forest_addrs (take p P)) + mset (forest_addrs (drop p P)) = mset (forest_addrs P)"
      unfolding mset_append [symmetric] by (simp_all only: concat_map_cut)
    moreover have "\<forall>q\<in>set (take p P). bt_height h (snd q)" "\<forall>q\<in>set (drop p P). bt_height h (snd q)"
      using h set_take_subset [of p P] set_drop_subset [of p P] unfolding P_def by blast+
    ultimately show ?thesis
      using forest_ok_cut [OF okP p low, of a f] sp keys p
      unfolding balanced_to_def g by (simp add: mP)
  next
    assume r: "length P \<le> c" "redistribute c xs ys = (P, None)"
    then have g: "grown s l sp = [(s, BNode a P)]" and sp: "sp = None" using res by (auto simp: grown_def)
    have "forest_keys (grown s l sp) \<subseteq> forest_keys [(s, BNode a xs), (b, BNode f ys)]"
      unfolding g using kP by auto
    then show ?thesis
      using r(1) okP low ne sp h unfolding balanced_to_def g by (simp add: separated_Cons mP P_def [symmetric])
  qed
qed

lemma bt_balance_ok:
  assumes ok: "forest_ok c [(s, l), (b, r)]" and c: "2 \<le> c" and h: "bt_height h l" "bt_height h r"
    and under: "bt_len l < UNDERFLOW_BOUND c \<or> bt_len r < UNDERFLOW_BOUND c"
    and res: "bt_balance c l r = (l', sp)"
  shows "balanced_to c h [(s, l), (b, r)] (grown s l' sp) (if sp = None then [addr r] else [])"
proof (cases l)
  case (BLeaf a xs sib)
  with h obtain f ys sib' where r: "r = BLeaf f ys sib'" "h = 0" by (cases r) auto
  show ?thesis
    using bt_balance_leaf [OF ok [unfolded BLeaf r] _ c res [unfolded BLeaf r]] under
    unfolding BLeaf r bt_len_def bt.case addr.simps by blast
next
  case (BNode a xs)
  with h obtain d f ys where r: "r = BNode f ys" "h = Suc d" "\<forall>p\<in>set (xs @ ys). bt_height d (snd p)"
    by (cases r) auto
  show ?thesis
    using bt_balance_node [OF ok [unfolded BNode r(1)] _ c r(3) res [unfolded BNode r(1)]] under
    unfolding BNode r(1,2) bt_len_def bt.case addr.simps by blast
qed

text \<open>Replacing a run of children by one with the same first separator and no new keys.\<close>

lemma forest_ok_exchange:
  assumes ok: "forest_ok c (A @ M @ B)" and G: "forest_ok c G" "forest_keys G \<subseteq> forest_keys M"
    and hd: "M = (s, t) # M'" "G = (s, u) # G'"
  shows "forest_ok c (A @ G @ B)" "forest_keys (A @ G @ B) \<subseteq> forest_keys (A @ M @ B)"
proof -
  have sep: "separated A" "separated B"
    and AB: "\<forall>p\<in>set A. \<forall>q\<in>set B. fst p < fst q \<and> (\<forall>x\<in>bt_keys (snd p). x < fst q)"
    and AM: "\<forall>p\<in>set A. \<forall>q\<in>set M. fst p < fst q \<and> (\<forall>x\<in>bt_keys (snd p). x < fst q)"
    and MB: "\<forall>p\<in>set M. \<forall>q\<in>set B. fst p < fst q \<and> (\<forall>x\<in>bt_keys (snd p). x < fst q)"
    using ok unfolding separated_append set_append by blast+
  have As: "\<forall>p\<in>set A. fst p < s \<and> (\<forall>x\<in>bt_keys (snd p). x < s)" using AM hd(1) by simp
  have sG: "s \<le> fst q" if "q \<in> set G" for q
    using separated_above [of "(s, u)" G' "fst q"] G(1) hd(2) that by auto
  have AG: "\<forall>p\<in>set A. \<forall>q\<in>set G. fst p < fst q \<and> (\<forall>x\<in>bt_keys (snd p). x < fst q)"
    using As sG less_le_trans by blast
  have "\<forall>x\<in>forest_keys M. \<forall>q\<in>set B. x < fst q" using MB by blast
  then have GB: "\<forall>p\<in>set G. \<forall>q\<in>set B. fst p < fst q \<and> (\<forall>x\<in>bt_keys (snd p). x < fst q)"
    using G(2) by blast
  have "separated (A @ G @ B)" unfolding separated_append set_append using sep(1,2) G(1) AB AG GB by blast
  then show "forest_ok c (A @ G @ B)" using ok G(1) by (simp add: ball_Un)
  show "forest_keys (A @ G @ B) \<subseteq> forest_keys (A @ M @ B)" unfolding set_append UN_Un using G(2) by blast
qed

lemma update_pair: "length A = l \<Longrightarrow> (A @ x # y # B)[l := e, Suc l := f] = A @ e # f # B"
  by (simp add: list_update_append)

lemma bt_fix_children_ok:
  assumes ok: "forest_ok c ts" and l: "Suc l < length ts" and h: "\<forall>p\<in>set ts. bt_height h (snd p)" and c: "2 \<le> c"
    and under: "bt_len (snd (ts ! l)) < UNDERFLOW_BOUND c \<or> bt_len (snd (ts ! Suc l)) < UNDERFLOW_BOUND c"
    and res: "bt_fix_children c l ts = (ws, u, fs)"
  shows "balanced_to c h ts ws fs" "ws \<noteq> []" "length ws \<le> length ts" "u \<longrightarrow> length ws < UNDERFLOW_BOUND c"
proof -
  obtain s x b y where p: "ts ! l = (s, x)" and q: "ts ! Suc l = (b, y)" by fastforce
  let ?A = "take l ts" and ?B = "drop (Suc (Suc l)) ts" and ?M = "[(s, x), (b, y)]"
  have "ts = ?A @ ts ! l # drop (Suc l) ts" using l by (intro id_take_nth_drop) simp
  moreover have "drop (Suc l) ts = ts ! Suc l # ?B" using l by (simp add: Cons_nth_drop_Suc)
  ultimately have split: "ts = ?A @ ?M @ ?B" using p q by simp
  have okA: "forest_ok c (?A @ ?M @ ?B)" using ok split by simp
  obtain l' sp where bal: "bt_balance c x y = (l', sp)" by fastforce
  have mem: "(s, x) \<in> set ts" "(b, y) \<in> set ts" using l p q nth_mem [of l ts] nth_mem [of "Suc l" ts] by auto
  have okM: "forest_ok c ?M" using forest_ok_split [of ?M ?B c] forest_ok_split [OF okA] by blast
  let ?G = "grown s l' sp" and ?f = "if sp = None then [addr y] else []"
  have hM: "bt_height h x" "bt_height h y" using bspec [OF h mem(1)] bspec [OF h mem(2)] by simp_all
  have "bt_len x < UNDERFLOW_BOUND c \<or> bt_len y < UNDERFLOW_BOUND c" using under p q by simp
  note bt = bt_balance_ok [OF okM c hM this bal]
  have upd: "ts[l := e, Suc l := f] = ?A @ [e, f] @ ?B" for e f
    using l by (subst (1) split) (simp add: update_pair)
  have ws: "ws = ?A @ ?G @ ?B" "fs = ?f" and u: "u \<longrightarrow> length ts - 1 < UNDERFLOW_BOUND c \<and> sp = None"
    using res unfolding bt_fix_children_def p q fst_conv snd_conv bal
    by (cases sp; simp add: grown_def upd split: prod.splits)+
  note ex = forest_ok_exchange [OF okA _ _ refl grown_def]
  have G: "forest_ok c ?G" "forest_kvs ?G = forest_kvs ?M" "forest_keys ?G \<subseteq> forest_keys ?M"
    "\<forall>p\<in>set ?G. bt_height h (snd p)" "leaves_keep (forest_leaves ?M) (forest_leaves ?G)"
    "mset (forest_addrs ?M) = mset (forest_addrs ?G) + mset ?f"
    using bt unfolding balanced_to_def by blast+
  have hAB: "\<forall>p\<in>set ?A. bt_height h (snd p)" "\<forall>p\<in>set ?B. bt_height h (snd p)"
    using h set_take_subset [of l ts] set_drop_subset [of "Suc (Suc l)" ts] by blast+
  have "balanced_to c h (?A @ ?M @ ?B) (?A @ ?G @ ?B) ?f"
    unfolding balanced_to_def
  proof (intro conjI)
    show "separated (?A @ ?G @ ?B)" "\<forall>p\<in>set (?A @ ?G @ ?B). bt_ok c (snd p)" using ex(1) [OF G(1,3)] by blast+
    show "forest_keys (?A @ ?G @ ?B) \<subseteq> forest_keys (?A @ ?M @ ?B)" using ex(2) [OF G(1,3)] .
    show "forest_kvs (?A @ ?G @ ?B) = forest_kvs (?A @ ?M @ ?B)" by (simp only: map_append concat_append G(2))
    show "\<forall>p\<in>set (?A @ ?G @ ?B). bt_height h (snd p)" using G(4) hAB by (simp only: set_append ball_Un simp_thms)
    show "leaves_keep (forest_leaves (?A @ ?M @ ?B)) (forest_leaves (?A @ ?G @ ?B))"
      using leaves_keep_context [OF G(5)] by (simp only: map_append concat_append)
    show "mset (forest_addrs (?A @ ?M @ ?B)) = mset (forest_addrs (?A @ ?G @ ?B)) + mset ?f"
      by (simp only: map_append concat_append mset_append G(6) ac_simps)
  qed
  then show "balanced_to c h ts ws fs" using split ws by simp
  show "ws \<noteq> []" "length ws \<le> length ts" "u \<longrightarrow> length ws < UNDERFLOW_BOUND c"
    using ws l u by (auto simp: grown_def split: option.splits)
qed

definition deleted_to :: "nat \<Rightarrow> 'k::linorder \<Rightarrow> nat \<Rightarrow> ('k, 'v) bt \<Rightarrow> ('k, 'v) bt \<Rightarrow> blk_address list \<Rightarrow> bool" where
  "deleted_to c k h t t' fs \<longleftrightarrow> bt_ok c t' \<and> bt_height h t' \<and> kvs t' = kv_del k (kvs t) \<and> bt_keys t' \<subseteq> bt_keys t
     \<and> leaves_keep (leafseq t) (leafseq t') \<and> mset (addrs t) = mset (addrs t') + mset fs"

lemma child_index_neg:
  assumes "separated ts" "child_index k ts < 0"
  shows "k \<notin> forest_keys ts"
proof -
  have "filter (\<lambda>e. fst e \<le> k) ts = []" using assms(2) by (simp add: child_index_def)
  then have "\<forall>p\<in>set ts. k < fst p" by (simp add: filter_empty_conv not_le)
  moreover have "\<forall>p\<in>set ts. \<forall>x\<in>bt_keys (snd p). fst p \<le> x" using assms(1) by (simp add: separated_def)
  ultimately have "k < x" if "x \<in> forest_keys ts" for x using that less_le_trans by blast
  then show ?thesis by blast
qed

text \<open>The entries with the key are those of the child the key descends to.\<close>

lemma child_entries:
  assumes sep: "separated ts" and k: "0 \<le> child_index k ts"
  defines "i \<equiv> nat (child_index k ts)"
  shows "i < length ts" "k \<in> keys (forest_kvs ts) \<longleftrightarrow> k \<in> keys (kvs (snd (ts ! i)))"
    "kv_del k (forest_kvs ts) = forest_kvs (take i ts) @ kv_del k (kvs (snd (ts ! i))) @ forest_kvs (drop (Suc i) ts)"
    "map_of (forest_kvs ts) k = map_of (kvs (snd (ts ! i))) k"
proof -
  have ne: "ts \<noteq> []" using k by (auto simp: child_index_def)
  note D = descend [OF sep ne, of k, folded i_def]
  show i: "i < length ts" using D(1) .
  have split: "forest_kvs ts = forest_kvs (take i ts) @ kvs (snd (ts ! i)) @ forest_kvs (drop (Suc i) ts)"
    using i by (rule concat_map_nth)
  have s: "(if child_index k ts < 0 then k else fst (ts ! i)) = fst (ts ! i)" using k by simp
  have l: "\<forall>x\<in>keys (forest_kvs (take i ts)). x < k"
    using subsetD [OF keys_forest_kvs, of _ "take i ts"] D(2,4) less_le_trans by blast
  have g: "\<forall>x\<in>keys (forest_kvs (drop (Suc i) ts)). k < x"
    using subsetD [OF keys_forest_kvs, of _ "drop (Suc i) ts"] D(5) by blast
  show "k \<in> keys (forest_kvs ts) \<longleftrightarrow> k \<in> keys (kvs (snd (ts ! i)))"
    unfolding split set_append image_Un using l g by blast
  show "kv_del k (forest_kvs ts) = forest_kvs (take i ts) @ kv_del k (kvs (snd (ts ! i))) @ forest_kvs (drop (Suc i) ts)"
    unfolding split using l g by (rule kv_del_between)
  show "map_of (forest_kvs ts) k = map_of (kvs (snd (ts ! i))) k"
    unfolding split using l g by (rule map_of_between)
qed

text \<open>Replacing the child that lost the entry.\<close>

lemma forest_delete_child:
  assumes ok: "bt_ok c (BNode a ts)" and h: "\<forall>p\<in>set ts. bt_height h (snd p)" and k: "0 \<le> child_index k ts"
    and i: "i = nat (child_index k ts)" and del: "deleted_to c k h (snd (ts ! i)) t fs"
    and us: "us = ts[i := (fst (ts ! i), t)]"
  shows "deleted_to c k (Suc h) (BNode a ts) (BNode a us) fs"
proof -
  have sep: "separated ts" and ne: "ts \<noteq> []" and len: "length ts \<le> c" using ok by simp_all
  note C = child_entries [OF sep k, folded i]
  obtain s x where p: "ts ! i = (s, x)" by fastforce
  let ?A = "take i ts" and ?B = "drop (Suc i) ts" and ?M = "[(s, x)]" and ?G = "[(s, t)]"
  have split: "ts = ?A @ ?M @ ?B" using id_take_nth_drop [OF C(1)] p by simp
  have us': "us = ?A @ ?G @ ?B" using us p C(1) by (simp add: upd_conv_take_nth_drop)
  have D: "bt_ok c t" "bt_height h t" "kvs t = kv_del k (kvs x)" "bt_keys t \<subseteq> bt_keys x"
    "leaves_keep (leafseq x) (leafseq t)" "mset (addrs x) = mset (addrs t) + mset fs"
    using del p unfolding deleted_to_def by simp_all
  have "(s, x) \<in> set ts" using C(1) p nth_mem [of i ts] by simp
  then have "\<forall>y\<in>bt_keys x. s \<le> y" using sep by (auto simp: separated_def)
  then have G: "forest_ok c ?G" "forest_keys ?G \<subseteq> forest_keys ?M"
    using D(1,4) by (auto simp: separated_Cons)
  have okA: "forest_ok c (?A @ ?M @ ?B)" using ok split by simp
  note ex = forest_ok_exchange [OF okA G refl refl]
  have hAB: "\<forall>p\<in>set ?A. bt_height h (snd p)" "\<forall>p\<in>set ?B. bt_height h (snd p)"
    using h set_take_subset [of i ts] set_drop_subset [of "Suc i" ts] by blast+
  show ?thesis
    unfolding deleted_to_def
  proof (intro conjI)
    show "bt_ok c (BNode a us)" using ex(1) us' C(1) len us by simp
    show "bt_height (Suc h) (BNode a us)" using hAB D(2) us' by (auto simp: ball_Un)
    show "kvs (BNode a us) = kv_del k (kvs (BNode a ts))"
      using C(3) D(3) p us' by simp
    show "bt_keys (BNode a us) \<subseteq> bt_keys (BNode a ts)"
      using ex(2) unfolding split [symmetric] us' bt_keys.simps .
    show "leaves_keep (leafseq (BNode a ts)) (leafseq (BNode a us))"
      using leaves_keep_context [OF D(5), of "forest_leaves ?A" "forest_leaves ?B"] us' p
        concat_map_nth [OF C(1), of "\<lambda>p. leafseq (snd p)"] by simp
    show "mset (addrs (BNode a ts)) = mset (addrs (BNode a us)) + mset fs"
      using concat_map_nth [OF C(1), of "\<lambda>p. addrs (snd p)"] us' p D(6) by (simp add: ac_simps)
  qed
qed

lemma deleted_to_balanced:
  assumes "deleted_to c k (Suc h) t (BNode a us) fs" "balanced_to c h us ws fs'" "ws \<noteq> []" "length ws \<le> c"
  shows "deleted_to c k (Suc h) t (BNode a ws) (fs @ fs')"
proof -
  have "bt_keys (BNode a ws) \<subseteq> bt_keys t" using assms(1,2) unfolding deleted_to_def balanced_to_def bt_keys.simps by blast
  then show ?thesis
    using assms unfolding deleted_to_def balanced_to_def by (auto simp: ac_simps intro: leaves_keep_trans)
qed

lemma bt_del_ok:
  assumes "bt_ok c t" "bt_height h t" "3 \<le> c" "bt_del c k u t = (t', d, u', fs)"
  shows "(d \<longleftrightarrow> k \<in> keys (kvs t)) \<and>
    (if d then deleted_to c k h t t' fs \<and> (u' \<longrightarrow> bt_len t' < UNDERFLOW_BOUND c) else t' = t \<and> u' = u \<and> fs = [])"
  using assms
proof (induction t arbitrary: h t' d u' fs rule: kvs.induct)
  case (1 a xs sib)
  have "length (kv_del k xs) \<le> length xs" by (simp add: kv_del_def)
  with 1 show ?case
    by (auto simp: deleted_to_def bt_len_def kv_del_sorted keys_kv_del leaves_keep_def first_leaf_def split: if_splits)
next
  case (2 a ts)
  have sep: "separated ts" and len: "length ts \<le> c" using "2.prems"(1) by simp_all
  have ub: "2 \<le> UNDERFLOW_BOUND c" using \<open>3 \<le> c\<close> by (simp add: UNDERFLOW_BOUND_def)
  obtain h' where h: "h = Suc h'" "\<forall>p\<in>set ts. bt_height h' (snd p)" using "2.prems"(2) by auto
  show ?case
  proof (cases "child_index k ts < 0")
    case True
    have "k \<notin> keys (kvs (BNode a ts))"
      using child_index_neg [OF sep True] keys_forest_kvs [of ts] unfolding kvs.simps by blast
    then show ?thesis using True "2.prems"(4) by (auto simp: bt_del.simps(2) Let_def)
  next
    case False
    define i where "i = nat (child_index k ts)"
    have k: "0 \<le> child_index k ts" using False by simp
    note C = child_entries [OF sep k, folded i_def]
    have mem: "ts ! i \<in> set ts" using C(1) by simp
    obtain t1 d1 u1 f1 where child: "bt_del c k u (snd (ts ! i)) = (t1, d1, u1, f1)"
      by (cases "bt_del c k u (snd (ts ! i))")
    define us where "us = ts[i := (fst (ts ! i), t1)]"
    have IH: "d1 \<longleftrightarrow> k \<in> keys (kvs (snd (ts ! i)))"
      "d1 \<Longrightarrow> deleted_to c k h' (snd (ts ! i)) t1 f1" "d1 \<Longrightarrow> u1 \<Longrightarrow> bt_len t1 < UNDERFLOW_BOUND c"
      "\<not> d1 \<Longrightarrow> u1 = u \<and> f1 = []"
      using "2.IH" [OF mem _ _ \<open>3 \<le> c\<close> child, of h'] "2.prems"(1) h(2) mem by (simp_all split: if_splits)
    have eq: "bt_del c k u (BNode a ts) = (if \<not> d1 then (BNode a ts, False, u1, f1)
        else if \<not> u1 \<or> length ts < 2 then (BNode a us, True, u1, f1)
        else (case bt_fix_children c (i - 1) us of (ws, u'', fs') \<Rightarrow> (BNode a ws, True, u'', f1 @ fs')))"
      using C(1) False child by (simp add: bt_del.simps(2) Let_def i_def [symmetric] us_def split: bool.split)
    have del: "deleted_to c k h (BNode a ts) (BNode a us) f1" if d1
      using forest_delete_child [OF "2.prems"(1) h(2) k i_def IH(2) [OF that] us_def] h(1) by simp
    consider (none) "\<not> d1" | (keep) d1 "\<not> u1 \<or> length ts < 2" | (mend) d1 u1 "2 \<le> length ts" by linarith
    then show ?thesis
    proof cases
      case none
      then show ?thesis using eq "2.prems"(4) IH(1,4) C(2) by auto
    next
      case keep
      then show ?thesis
        using eq "2.prems"(4) IH(1) C(2) del ub by (auto simp: bt_len_def us_def)
    next
      case mend
      obtain ws w fs' where fixed: "bt_fix_children c (i - 1) us = (ws, w, fs')"
        by (cases "bt_fix_children c (i - 1) us")
      have us: "forest_ok c us" "\<forall>p\<in>set us. bt_height h' (snd p)"
        using del [OF mend(1)] h(1) by (simp_all add: deleted_to_def)
      have two: "Suc (i - 1) < length us" "2 \<le> c" using mend(3) C(1) \<open>3 \<le> c\<close> by (simp_all add: us_def)
      have "bt_len (snd (us ! (i - 1))) < UNDERFLOW_BOUND c \<or> bt_len (snd (us ! Suc (i - 1))) < UNDERFLOW_BOUND c"
        using IH(3) [OF mend(1,2)] C(1) by (cases i) (simp_all add: us_def)
      note B = bt_fix_children_ok [OF us(1) two(1) us(2) two(2) this fixed]
      have "deleted_to c k h (BNode a ts) (BNode a ws) (f1 @ fs')"
        using deleted_to_balanced [OF _ B(1,2)] del [OF mend(1)] h(1) B(3) len by (simp add: us_def)
      then show ?thesis
        using eq fixed "2.prems"(4) mend IH(1) C(2) B(4) by (auto simp: bt_len_def)
    qed
  qed
qed

end
