(* ===== verification/Node_Store.thy ===== *)
theory Node_Store
  imports BT_Spec "HOL-Library.AList"
begin

text \<open>
  The two abstract classes between the tree and its storage: \<^verbatim>\<open>node_reference\<close> of
  \<^verbatim>\<open>src/src/tree/node_reference.h\<close> and \<^verbatim>\<open>blk_accessor\<close> of \<^verbatim>\<open>src/src/blk/blk.h\<close>.  Their
  virtual methods that the tree calls are the fields of a record of functions; the
  locale states what the tree relies on.  The theory also holds the storage of the
  in-memory tree (\<^verbatim>\<open>in_memory_node_reference.h\<close>, \<^verbatim>\<open>void_blk_accessor.h\<close>).
\<close>

section \<open>Nodes\<close>

text \<open>A \<^verbatim>\<open>Node<K, V>*\<close> points to an object of one of the two subclasses.\<close>

datatype ('k, 'v) node = LeafN "('k, 'v) leaf_node" | InnerN "'k inner_node"

fun node_self :: "('k, 'v) node \<Rightarrow> blk_address" where
  "node_self (LeafN l) = leaf_self l"
| "node_self (InnerN n) = inner_self n"

fun is_modified :: "('k, 'v) node \<Rightarrow> bool" where
  "is_modified (LeafN l) = leaf_modified l"
| "is_modified (InnerN n) = inner_modified n"

fun node_size :: "('k, 'v) node \<Rightarrow> nat" where
  "node_size (LeafN l) = leaf_size l"
| "node_size (InnerN n) = inner_size n"

fun node_leftmost_key :: "('k, 'v) node \<Rightarrow> 'k option" where
  "node_leftmost_key (LeafN l) = leaf_get_leftmost_key l"
| "node_leftmost_key (InnerN n) = inner_get_leftmost_key n"

text \<open>
  What a node says, apart from unused array slots and the modification flag: the part
  that is written to a block.
\<close>

datatype ('k, 'v) blk_content =
  LeafC blk_address "('k \<times> 'v) list" blk_address
| InnerC blk_address "('k \<times> blk_address) list"

fun content :: "('k, 'v) node \<Rightarrow> ('k, 'v) blk_content" where
  "content (LeafN l) = LeafC (leaf_self l) (leaf_list l) (right_sibling l)"
| "content (InnerN n) = InnerC (inner_self n) (inner_list n)"

fun node_fits :: "nat \<Rightarrow> ('k, 'v) node \<Rightarrow> bool" where
  "node_fits c (LeafN l) = (length (entries l) = c \<and> leaf_size l \<le> c)"
| "node_fits c (InnerN n) = (length (key n) = c \<and> length (child_rep n) = c \<and> inner_size n \<le> c)"

fun content_refs :: "('k, 'v) blk_content \<Rightarrow> blk_address set" where
  "content_refs (LeafC a xs sib) = {a, sib}"
| "content_refs (InnerC a xs) = insert a (snd ` set xs)"

section \<open>The interface\<close>

text \<open>
  \<open>allocate_ref\<close> is \<^verbatim>\<open>blk_accessor::allocate_ref\<close>, called by the node constructors;
  \<open>ref_get\<close> and \<open>ref_close\<close> are \<^verbatim>\<open>node_reference::get\<close> and \<^verbatim>\<open>close\<close> of the reference
  with the given address, \<open>ref_remove\<close> is \<^verbatim>\<open>remove\<close> after the call of the node's own
  \<^verbatim>\<open>close\<close>.  \<open>None\<close> stands for undefined behaviour or a failed assertion.
\<close>

record ('s, 'k, 'v) node_ops =
  allocate_ref :: "'s \<Rightarrow> (blk_address \<times> 's) option"
  ref_get :: "blk_address \<Rightarrow> 's \<Rightarrow> (('k, 'v) node \<times> 's) option"
  ref_close :: "blk_address \<Rightarrow> ('k, 'v) node \<Rightarrow> 's \<Rightarrow> 's option"
  ref_remove :: "blk_address \<Rightarrow> 's \<Rightarrow> 's option"

text \<open>
  The contract.  \<open>blocks s\<close> is what is stored, \<open>owned s\<close> the addresses handed out and not
  yet returned, \<open>room s n\<close> that \<open>n\<close> more can be handed out, and \<open>valid_ref\<close> the
  addresses that can be written into a node.
\<close>

locale node_store =
  fixes R :: "('s, 'k::linorder, 'v) node_ops"
    and cap :: nat
    and inv :: "'s \<Rightarrow> bool"
    and blocks :: "'s \<Rightarrow> blk_address \<Rightarrow> ('k, 'v) blk_content option"
    and owned :: "'s \<Rightarrow> blk_address set"
    and room :: "'s \<Rightarrow> nat \<Rightarrow> bool"
    and valid_ref :: "blk_address \<Rightarrow> bool"
  assumes valid_null: "valid_ref (-1)"
    and owned_blocks: "inv s \<Longrightarrow> dom (blocks s) \<subseteq> owned s"
    and room_mono: "room s n \<Longrightarrow> m \<le> n \<Longrightarrow> room s m"
    and alloc: "inv s \<Longrightarrow> room s (Suc n) \<Longrightarrow>
      \<exists>a s'. allocate_ref R s = Some (a, s') \<and> inv s' \<and> room s' n \<and> (\<forall>x. x \<noteq> a \<longrightarrow> blocks s' x = blocks s x)
        \<and> a \<notin> owned s \<and> owned s' = insert a (owned s) \<and> valid_ref a \<and> a \<noteq> -1"
    and get: "inv s \<Longrightarrow> blocks s a = Some b \<Longrightarrow>
      \<exists>nd s'. ref_get R a s = Some (nd, s') \<and> inv s' \<and> room s' = room s \<and> blocks s' = blocks s
        \<and> owned s' = owned s \<and> content nd = b \<and> node_fits cap nd"
    and close: "inv s \<Longrightarrow> a \<in> owned s \<Longrightarrow> node_fits cap nd \<Longrightarrow> node_self nd = a \<Longrightarrow>
      is_modified nd \<and> (\<forall>x\<in>content_refs (content nd). valid_ref x) \<or> blocks s a = Some (content nd) \<Longrightarrow>
      \<exists>s'. ref_close R a nd s = Some s' \<and> inv s' \<and> room s' = room s
        \<and> blocks s' = (blocks s)(a \<mapsto> content nd) \<and> owned s' = owned s"
    and remove: "inv s \<Longrightarrow> a \<in> owned s \<Longrightarrow>
      \<exists>s'. ref_remove R a s = Some s' \<and> inv s' \<and> (\<forall>n. room s n \<longrightarrow> room s' n)
        \<and> blocks s' = (blocks s)(a := None) \<and> owned s' \<subseteq> owned s \<and> owned s - {a} \<subseteq> owned s'"

section \<open>The in-memory storage\<close>

text \<open>
  In the in-memory tree a reference is a pointer to the node object: \<^verbatim>\<open>get\<close> follows it,
  \<^verbatim>\<open>close\<close> forgets it, and an object that was changed in place is seen by everybody.
  The heap maps the address of an object to the object; the model of a method works on
  a copy, so \<open>mem_close\<close> puts the object back whether it is flagged as modified or not.
  \<^verbatim>\<open>allocate_ref\<close> returns a null reference that the constructor binds to the new
  object; \<^verbatim>\<open>new\<close> is modelled by the next free address.
\<close>

record ('k, 'v) mem =
  heap :: "(blk_address \<times> ('k, 'v) node) list"
  next_ptr :: nat

definition mem_allocate_ref :: "('k, 'v) mem \<Rightarrow> (blk_address \<times> ('k, 'v) mem) option" where
  "mem_allocate_ref s = Some (int (next_ptr s), s\<lparr>next_ptr := next_ptr s + 1\<rparr>)"

definition mem_get :: "blk_address \<Rightarrow> ('k, 'v) mem \<Rightarrow> (('k, 'v) node \<times> ('k, 'v) mem) option" where
  "mem_get a s = map_option (\<lambda>n. (n, s)) (map_of (heap s) a)"

definition mem_close :: "blk_address \<Rightarrow> ('k, 'v) node \<Rightarrow> ('k, 'v) mem \<Rightarrow> ('k, 'v) mem option" where
  "mem_close a n s = Some (s\<lparr>heap := AList.update a n (heap s)\<rparr>)"

definition mem_remove :: "blk_address \<Rightarrow> ('k, 'v) mem \<Rightarrow> ('k, 'v) mem option" where
  "mem_remove a s = Some (s\<lparr>heap := AList.delete a (heap s)\<rparr>)"

definition mem_ops :: "(('k, 'v) mem, 'k, 'v) node_ops" where
  "mem_ops = \<lparr>allocate_ref = mem_allocate_ref, ref_get = mem_get, ref_close = mem_close, ref_remove = mem_remove\<rparr>"

definition mem_empty :: "('k, 'v) mem" where
  "mem_empty = \<lparr>heap = [], next_ptr = 1\<rparr>"

definition mem_inv :: "nat \<Rightarrow> ('k, 'v) mem \<Rightarrow> bool" where
  "mem_inv c s \<longleftrightarrow> 0 < next_ptr s \<and> (\<forall>a n. map_of (heap s) a = Some n \<longrightarrow> 0 < a \<and> a < int (next_ptr s) \<and> node_fits c n)"

definition mem_blocks :: "('k, 'v) mem \<Rightarrow> blk_address \<Rightarrow> ('k, 'v) blk_content option" where
  "mem_blocks s a = map_option content (map_of (heap s) a)"

definition mem_owned :: "('k, 'v) mem \<Rightarrow> blk_address set" where
  "mem_owned s = {a. 0 < a \<and> a < int (next_ptr s)}"

interpretation mem: node_store mem_ops c "mem_inv c" mem_blocks mem_owned "\<lambda>s n. True" "\<lambda>a. True"
proof (unfold_locales, goal_cases)
  case (2 s)
  then show ?case by (auto simp: mem_inv_def mem_blocks_def mem_owned_def)
next
  case (4 s n)
  have "mem_inv c (s\<lparr>next_ptr := next_ptr s + 1\<rparr>)" using 4(1) unfolding mem_inv_def by force
  with 4(1) show ?case
    by (auto simp: mem_ops_def mem_allocate_ref_def mem_inv_def mem_blocks_def mem_owned_def fun_eq_iff)
next
  case (5 s a b)
  then show ?case by (auto simp: mem_ops_def mem_get_def mem_inv_def mem_blocks_def)
next
  case (6 s a n)
  then show ?case
    by (auto simp: mem_ops_def mem_close_def mem_inv_def mem_blocks_def mem_owned_def update_conv fun_eq_iff)
next
  case (7 s a)
  then show ?case
    by (auto simp: mem_ops_def mem_remove_def mem_inv_def mem_blocks_def mem_owned_def delete_conv fun_eq_iff
        split: if_splits)
qed simp_all

lemma mem_empty_ok: "mem_inv c mem_empty" "mem_blocks mem_empty = Map.empty"
  by (auto simp: mem_empty_def mem_inv_def mem_blocks_def)

end
