(* ===== verification/Node_Codec.thy ===== *)
theory Node_Codec
  imports Node_Store "HOL-Library.Word"
begin

text \<open>
  The block format of nodes: \<^verbatim>\<open>serialize\<close> and \<^verbatim>\<open>deserialize\<close> of \<^verbatim>\<open>leaf_node.h\<close> and
  \<^verbatim>\<open>inner_node.h\<close>, and the dispatch on the type tag in \<^verbatim>\<open>blk_node_reference.h\<close>.  A buffer is a
  list of bytes; a write or a read outside of it is undefined behaviour (\<open>None\<close>).  The machine is
  little endian.  Keys and values are copied with \<^verbatim>\<open>memcpy\<close>: how they lie in memory is a parameter.
\<close>

section \<open>Bytes\<close>

type_synonym byte = "8 word"

fun le_bytes :: "nat \<Rightarrow> int \<Rightarrow> byte list" where
  "le_bytes 0 x = []"
| "le_bytes (Suc n) x = word_of_int x # le_bytes n (x div 256)"

fun le_int :: "byte list \<Rightarrow> int" where
  "le_int [] = 0"
| "le_int (b # bs) = uint b + 256 * le_int bs"

text \<open>Reading a two's complement integer of as many bytes as are given.\<close>

definition le_sint :: "byte list \<Rightarrow> int" where
  "le_sint bs = (let u = le_int bs in if u < 256 ^ length bs div 2 then u else u - 256 ^ length bs)"

definition buf_write :: "nat \<Rightarrow> byte list \<Rightarrow> byte list \<Rightarrow> byte list option" where
  "buf_write off bs buf =
     (if off + length bs \<le> length buf then Some (take off buf @ bs @ drop (off + length bs) buf) else None)"

definition buf_read :: "nat \<Rightarrow> nat \<Rightarrow> byte list \<Rightarrow> byte list option" where
  "buf_read off n buf = (if off + n \<le> length buf then Some (take n (drop off buf)) else None)"

section \<open>Memory layout of keys and values\<close>

record 'a pod =
  pod_size :: nat
  pod_bytes :: "'a \<Rightarrow> byte list"
  pod_read :: "byte list \<Rightarrow> 'a"

text \<open>A \<^verbatim>\<open>struct\<close> of two fields, each followed by padding.\<close>

definition pod_pair :: "'a pod \<Rightarrow> nat \<Rightarrow> 'b pod \<Rightarrow> nat \<Rightarrow> ('a \<times> 'b) pod" where
  "pod_pair A p B q =
     \<lparr>pod_size = pod_size A + p + pod_size B + q,
      pod_bytes = (\<lambda>(x, y). pod_bytes A x @ replicate p 0 @ pod_bytes B y @ replicate q 0),
      pod_read = (\<lambda>bs. (pod_read A (take (pod_size A) bs), pod_read B (take (pod_size B) (drop (pod_size A + p) bs))))\<rparr>"

text \<open>The bytes of an array, and the array in bytes.\<close>

definition array_bytes :: "'a pod \<Rightarrow> 'a list \<Rightarrow> byte list" where
  "array_bytes P xs = concat (map (pod_bytes P) xs)"

fun array_read :: "'a pod \<Rightarrow> nat \<Rightarrow> byte list \<Rightarrow> 'a list" where
  "array_read P 0 bs = []"
| "array_read P (Suc n) bs = pod_read P (take (pod_size P) bs) # array_read P n (drop (pod_size P) bs)"

definition blk_address_pod :: "blk_address pod" where
  "blk_address_pod = \<lparr>pod_size = 8, pod_bytes = le_bytes 8, pod_read = le_sint\<rparr>"

section \<open>Leaf nodes\<close>

definition INNER_NODE :: int where "INNER_NODE = 0"
definition LEAF_NODE :: int where "LEAF_NODE = 1"

definition leaf_serialize :: "('k \<times> 'v) pod \<Rightarrow> ('k, 'v) leaf_node \<Rightarrow> byte list \<Rightarrow> byte list option" where
  "leaf_serialize E l buffer =
     (if leaf_size l \<le> length (entries l) then
        do { b1 \<leftarrow> buf_write 0 (le_bytes 4 LEAF_NODE) buffer;
             b2 \<leftarrow> buf_write 4 (le_bytes 4 (int (leaf_size l))) b1;
             b3 \<leftarrow> buf_write 8 (le_bytes 8 (leaf_self l)) b2;
             b4 \<leftarrow> buf_write 16 (le_bytes 8 (right_sibling l)) b3;
             buf_write 24 (array_bytes E (take (leaf_size l) (entries l))) b4 }
      else None)"

definition leaf_deserialize :: "('k \<times> 'v) pod \<Rightarrow> byte list \<Rightarrow> ('k, 'v) leaf_node \<Rightarrow> ('k, 'v) leaf_node option" where
  "leaf_deserialize E buffer l =
     do { sz \<leftarrow> buf_read 4 4 buffer;
          self \<leftarrow> buf_read 8 8 buffer;
          right \<leftarrow> buf_read 16 8 buffer;
          let n = nat (le_int sz);
          es \<leftarrow> buf_read 24 (n * pod_size E) buffer;
          if n \<le> length (entries l)
          then Some (l\<lparr>leaf_size := n, leaf_self := le_sint self, right_sibling := le_sint right,
                       entries := array_read E n es @ drop n (entries l)\<rparr>)
          else None }"

section \<open>Inner nodes\<close>

definition inner_serialize :: "'k pod \<Rightarrow> 'k inner_node \<Rightarrow> byte list \<Rightarrow> byte list option" where
  "inner_serialize P n buffer =
     (if inner_size n \<le> length (key n) \<and> inner_size n \<le> length (child_rep n) then
        do { b1 \<leftarrow> buf_write 0 (le_bytes 4 INNER_NODE) buffer;
             b2 \<leftarrow> buf_write 4 (le_bytes 4 (int (inner_size n))) b1;
             b3 \<leftarrow> buf_write 8 (le_bytes 8 (inner_self n)) b2;
             b4 \<leftarrow> buf_write 16 (array_bytes P (take (inner_size n) (key n))) b3;
             buf_write (16 + inner_size n * pod_size P) (array_bytes blk_address_pod (take (inner_size n) (child_rep n))) b4 }
      else None)"

definition inner_deserialize :: "'k pod \<Rightarrow> byte list \<Rightarrow> 'k inner_node \<Rightarrow> 'k inner_node option" where
  "inner_deserialize P buffer nd =
     do { sz \<leftarrow> buf_read 4 4 buffer;
          self \<leftarrow> buf_read 8 8 buffer;
          let n = nat (le_int sz);
          ks \<leftarrow> buf_read 16 (n * pod_size P) buffer;
          cs \<leftarrow> buf_read (16 + n * pod_size P) (n * 8) buffer;
          if n \<le> length (key nd) \<and> n \<le> length (child_rep nd)
          then Some (nd\<lparr>inner_size := n, inner_self := le_sint self,
                        key := array_read P n ks @ drop n (key nd),
                        child_rep := array_read blk_address_pod n cs @ drop n (child_rep nd)\<rparr>)
          else None }"

section \<open>Nodes\<close>

text \<open>\<^verbatim>\<open>specific_serialize\<close> and \<^verbatim>\<open>specific_deserialize\<close> of a block reference.\<close>

fun specific_serialize :: "'k pod \<Rightarrow> ('k \<times> 'v) pod \<Rightarrow> ('k, 'v) node \<Rightarrow> byte list \<Rightarrow> byte list option" where
  "specific_serialize P E (LeafN l) buffer = leaf_serialize E l buffer"
| "specific_serialize P E (InnerN n) buffer = inner_serialize P n buffer"

definition specific_deserialize :: "'k pod \<Rightarrow> ('k \<times> 'v) pod \<Rightarrow> nat \<Rightarrow> byte list \<Rightarrow> ('k, 'v) node option" where
  "specific_deserialize P E c buffer =
     do { tag \<leftarrow> buf_read 0 4 buffer;
          if le_int tag = LEAF_NODE then map_option LeafN (leaf_deserialize E buffer (new_leaf c (-1)))
          else if le_int tag = INNER_NODE then map_option InnerN (inner_deserialize P buffer (new_inner c (-1)))
          else None }"

section \<open>Round trips\<close>

lemma length_le_bytes [simp]: "length (le_bytes n x) = n"
  by (induction n arbitrary: x) simp_all

lemma le_int_bytes: "le_int (le_bytes n x) = x mod 256 ^ n"
proof (induction n arbitrary: x)
  case (Suc n)
  have "x mod 256 ^ Suc n = 256 * (x div 256 mod 256 ^ n) + x mod 256"
    using zmod_zmult2_eq [of "256 ^ n" x 256] by simp
  then show ?case using Suc by (simp add: uint_word_of_int)
qed simp

lemma le_sint_bytes:
  assumes "- (256 ^ n div 2) \<le> x" "x < 256 ^ n div 2" "0 < n"
  shows "le_sint (le_bytes n x) = x"
proof -
  obtain m where m: "n = Suc m" using assms(3) by (cases n) auto
  have e: "(256::int) ^ n = 2 * (256 ^ n div 2)" by (simp add: m)
  show ?thesis
  proof (cases "0 \<le> x")
    case True
    then have "x mod 256 ^ n = x" using assms(2) e by (intro mod_pos_pos_trivial) linarith+
    then show ?thesis using assms(2) by (simp add: le_sint_def le_int_bytes Let_def)
  next
    case False
    have "x mod 256 ^ n = (x + 256 ^ n) mod 256 ^ n" by simp
    also have "\<dots> = x + 256 ^ n" using False assms(1) e by (intro mod_pos_pos_trivial) linarith+
    finally show ?thesis using assms(1) False e by (simp add: le_sint_def le_int_bytes Let_def)
  qed
qed

text \<open>The law of the layouts; \<open>fits\<close> are the values that can be stored.\<close>

locale pod_layout =
  fixes P :: "'a pod" and fits :: "'a \<Rightarrow> bool"
  assumes pod_length: "length (pod_bytes P x) = pod_size P"
    and pod_round_trip: "fits x \<Longrightarrow> pod_read P (pod_bytes P x) = x"
begin

lemma length_array_bytes: "length (array_bytes P xs) = length xs * pod_size P"
  by (induction xs) (simp_all add: array_bytes_def pod_length)

lemma array_round_trip: "\<forall>x\<in>set xs. fits x \<Longrightarrow> array_read P (length xs) (array_bytes P xs) = xs"
  by (induction xs) (simp_all add: array_bytes_def pod_length pod_round_trip)

end

definition int64_ok :: "int \<Rightarrow> bool" where
  "int64_ok x \<longleftrightarrow> - (2 ^ 63) \<le> x \<and> x < 2 ^ 63"

lemma le_sint_int64: "int64_ok x \<Longrightarrow> le_sint (le_bytes 8 x) = x"
  by (rule le_sint_bytes) (simp_all add: int64_ok_def)

interpretation addr_layout: pod_layout blk_address_pod int64_ok
  by unfold_locales (simp_all add: blk_address_pod_def le_sint_int64)

lemma pod_pair_layout:
  assumes "pod_layout A f" "pod_layout B g"
  shows "pod_layout (pod_pair A p B q) (\<lambda>(x, y). f x \<and> g y)"
  using assms unfolding pod_layout_def by (auto simp: pod_pair_def)

lemma buf_write_length: "buf_write off bs buf = Some buf' \<Longrightarrow> length buf' = length buf"
  by (auto simp: buf_write_def split: if_splits)

text \<open>Consecutive writes from the start of the buffer.\<close>

lemma buf_write_next:
  assumes "off + length bs \<le> length pre + length rest" "length pre = off"
  shows "buf_write off bs (pre @ rest) = Some ((pre @ bs) @ drop (length bs) rest)"
  using assms by (simp add: buf_write_def)

lemma buf_read_part: "length pre = off \<Longrightarrow> length bs = n \<Longrightarrow> buf_read off n (pre @ bs @ rest) = Some bs"
  by (simp add: buf_read_def)

subsection \<open>Nodes\<close>

definition leaf_image :: "('k \<times> 'v) pod \<Rightarrow> ('k, 'v) leaf_node \<Rightarrow> byte list" where
  "leaf_image E l = le_bytes 4 LEAF_NODE @ le_bytes 4 (int (leaf_size l)) @ le_bytes 8 (leaf_self l)
     @ le_bytes 8 (right_sibling l) @ array_bytes E (take (leaf_size l) (entries l))"

definition inner_image :: "'k pod \<Rightarrow> 'k inner_node \<Rightarrow> byte list" where
  "inner_image P n = le_bytes 4 INNER_NODE @ le_bytes 4 (int (inner_size n)) @ le_bytes 8 (inner_self n)
     @ array_bytes P (take (inner_size n) (key n)) @ array_bytes blk_address_pod (take (inner_size n) (child_rep n))"

lemma buf_write_Some:
  assumes "buf = pre @ rest" "length pre = off" "length bs \<le> length rest"
  shows "buf_write off bs buf = Some ((pre @ bs) @ drop (length bs) rest)"
  using assms by (simp add: buf_write_def)

lemma leaf_serialize_image:
  assumes "leaf_size l \<le> length (entries l)" "length (leaf_image E l) \<le> length buffer"
  shows "leaf_serialize E l buffer = Some (leaf_image E l @ drop (length (leaf_image E l)) buffer)"
proof -
  let ?a = "le_bytes 4 LEAF_NODE" and ?b = "le_bytes 4 (int (leaf_size l))" and ?c = "le_bytes 8 (leaf_self l)"
    and ?d = "le_bytes 8 (right_sibling l)" and ?e = "array_bytes E (take (leaf_size l) (entries l))"
  have len: "24 + length ?e \<le> length buffer" using assms(2) by (simp add: leaf_image_def)
  have 1: "buf_write 0 ?a buffer = Some (([] @ ?a) @ drop 4 buffer)" using len buf_write_Some [of buffer "[]" buffer 0 ?a] by simp
  have 2: "buf_write 4 ?b (([] @ ?a) @ drop 4 buffer) = Some ((([] @ ?a) @ ?b) @ drop 8 buffer)"
    using len buf_write_Some [OF refl, of "[] @ ?a" 4 ?b "drop 4 buffer"] by simp
  have 3: "buf_write 8 ?c ((([] @ ?a) @ ?b) @ drop 8 buffer) = Some (((([] @ ?a) @ ?b) @ ?c) @ drop 16 buffer)"
    using len buf_write_Some [OF refl, of "([] @ ?a) @ ?b" 8 ?c "drop 8 buffer"] by simp
  have 4: "buf_write 16 ?d (((([] @ ?a) @ ?b) @ ?c) @ drop 16 buffer) = Some ((((([] @ ?a) @ ?b) @ ?c) @ ?d) @ drop 24 buffer)"
    using len buf_write_Some [OF refl, of "(([] @ ?a) @ ?b) @ ?c" 16 ?d "drop 16 buffer"] by simp
  have 5: "buf_write 24 ?e ((((([] @ ?a) @ ?b) @ ?c) @ ?d) @ drop 24 buffer)
      = Some (((((([] @ ?a) @ ?b) @ ?c) @ ?d) @ ?e) @ drop (24 + length ?e) buffer)"
    using len buf_write_Some [OF refl, of "((([] @ ?a) @ ?b) @ ?c) @ ?d" 24 ?e "drop 24 buffer"] by (simp add: add.commute)
  show ?thesis
    unfolding leaf_serialize_def 1 bind.bind_lunit 2 3 4 5 using assms(1) by (simp add: leaf_image_def)
qed

lemma inner_serialize_image:
  assumes "inner_size n \<le> length (key n)" "inner_size n \<le> length (child_rep n)" "length (inner_image P n) \<le> length buffer"
    and P: "length (array_bytes P (take (inner_size n) (key n))) = inner_size n * pod_size P"
  shows "inner_serialize P n buffer = Some (inner_image P n @ drop (length (inner_image P n)) buffer)"
proof -
  let ?a = "le_bytes 4 INNER_NODE" and ?b = "le_bytes 4 (int (inner_size n))" and ?c = "le_bytes 8 (inner_self n)"
    and ?d = "array_bytes P (take (inner_size n) (key n))" and ?e = "array_bytes blk_address_pod (take (inner_size n) (child_rep n))"
  have len: "16 + length ?d + length ?e \<le> length buffer" using assms(3) by (simp add: inner_image_def)
  have 1: "buf_write 0 ?a buffer = Some (([] @ ?a) @ drop 4 buffer)" using len buf_write_Some [of buffer "[]" buffer 0 ?a] by simp
  have 2: "buf_write 4 ?b (([] @ ?a) @ drop 4 buffer) = Some ((([] @ ?a) @ ?b) @ drop 8 buffer)"
    using len buf_write_Some [OF refl, of "[] @ ?a" 4 ?b "drop 4 buffer"] by simp
  have 3: "buf_write 8 ?c ((([] @ ?a) @ ?b) @ drop 8 buffer) = Some (((([] @ ?a) @ ?b) @ ?c) @ drop 16 buffer)"
    using len buf_write_Some [OF refl, of "([] @ ?a) @ ?b" 8 ?c "drop 8 buffer"] by simp
  have 4: "buf_write 16 ?d (((([] @ ?a) @ ?b) @ ?c) @ drop 16 buffer)
      = Some ((((([] @ ?a) @ ?b) @ ?c) @ ?d) @ drop (16 + length ?d) buffer)"
    using len buf_write_Some [OF refl, of "(([] @ ?a) @ ?b) @ ?c" 16 ?d "drop 16 buffer"] by (simp add: add.commute)
  have 5: "buf_write (16 + inner_size n * pod_size P) ?e ((((([] @ ?a) @ ?b) @ ?c) @ ?d) @ drop (16 + length ?d) buffer)
      = Some (((((([] @ ?a) @ ?b) @ ?c) @ ?d) @ ?e) @ drop (16 + length ?d + length ?e) buffer)"
    using len P buf_write_Some [OF refl, of "((([] @ ?a) @ ?b) @ ?c) @ ?d" "16 + inner_size n * pod_size P" ?e "drop (16 + length ?d) buffer"]
    by (simp add: add.commute)
  show ?thesis
    unfolding inner_serialize_def 1 bind.bind_lunit 2 3 4 5 using assms(1,2) by (simp add: inner_image_def add.assoc)
qed

text \<open>Reading back.\<close>

lemma size_round_trip: "n < 2 ^ 32 \<Longrightarrow> nat (le_int (le_bytes 4 (int n))) = n"
  by (simp add: le_int_bytes)

text \<open>A block of \<open>n\<close> bytes has room for every node of capacity \<open>c\<close>.\<close>

definition block_fits :: "'k pod \<Rightarrow> ('k \<times> 'v) pod \<Rightarrow> nat \<Rightarrow> nat \<Rightarrow> bool" where
  "block_fits P E c n \<longleftrightarrow> c < 2 ^ 32 \<and> 24 + c * pod_size E \<le> n \<and> 16 + c * (pod_size P + 8) \<le> n"

locale node_layout = K: pod_layout P "\<lambda>_. True" + KV: pod_layout E "\<lambda>_. True"
  for P :: "'k pod" and E :: "('k \<times> 'v) pod"
begin

lemma leaf_read_back:
  assumes "leaf_size l \<le> c" "length (entries l) = c" "c < 2 ^ 32" "int64_ok (leaf_self l)" "int64_ok (right_sibling l)"
    and "length (entries l0) = c"
  shows "leaf_deserialize E (leaf_image E l @ rest) l0
    = Some (l0\<lparr>leaf_size := leaf_size l, leaf_self := leaf_self l, right_sibling := right_sibling l,
               entries := leaf_list l @ drop (leaf_size l) (entries l0)\<rparr>)"
proof -
  let ?a = "le_bytes 4 LEAF_NODE" and ?b = "le_bytes 4 (int (leaf_size l))" and ?c = "le_bytes 8 (leaf_self l)"
    and ?d = "le_bytes 8 (right_sibling l)" and ?e = "array_bytes E (leaf_list l)"
  have img: "leaf_image E l @ rest = ?a @ ?b @ ?c @ ?d @ ?e @ rest" by (simp add: leaf_image_def leaf_list_def)
  have le: "length ?e = leaf_size l * pod_size E" using assms(1,2) KV.length_array_bytes by (simp add: leaf_list_def)
  have r: "buf_read 4 4 (?a @ ?b @ ?c @ ?d @ ?e @ rest) = Some ?b"
    "buf_read 8 8 (?a @ ?b @ ?c @ ?d @ ?e @ rest) = Some ?c"
    "buf_read 16 8 (?a @ ?b @ ?c @ ?d @ ?e @ rest) = Some ?d"
    "buf_read 24 (leaf_size l * pod_size E) (?a @ ?b @ ?c @ ?d @ ?e @ rest) = Some ?e"
    using buf_read_part [of ?a 4 ?b 4 "?c @ ?d @ ?e @ rest"] buf_read_part [of "?a @ ?b" 8 ?c 8 "?d @ ?e @ rest"]
      buf_read_part [of "?a @ ?b @ ?c" 16 ?d 8 "?e @ rest"] buf_read_part [of "?a @ ?b @ ?c @ ?d" 24 ?e _ rest] le by simp_all
  have "array_read E (leaf_size l) ?e = leaf_list l"
    using KV.array_round_trip [of "leaf_list l"] assms(1,2) by (simp add: leaf_list_def)
  moreover have "nat (le_int ?b) = leaf_size l" using assms(1,3) by (intro size_round_trip) simp
  ultimately show ?thesis
    using assms r by (simp add: img leaf_deserialize_def le_sint_int64 Let_def)
qed

lemma inner_read_back:
  assumes "inner_size n \<le> c" "length (key n) = c" "length (child_rep n) = c" "c < 2 ^ 32" "int64_ok (inner_self n)"
    and "\<forall>x\<in>set (take (inner_size n) (child_rep n)). int64_ok x" "length (key n0) = c" "length (child_rep n0) = c"
  shows "inner_deserialize P (inner_image P n @ rest) n0
    = Some (n0\<lparr>inner_size := inner_size n, inner_self := inner_self n,
               key := take (inner_size n) (key n) @ drop (inner_size n) (key n0),
               child_rep := take (inner_size n) (child_rep n) @ drop (inner_size n) (child_rep n0)\<rparr>)"
proof -
  let ?ks = "take (inner_size n) (key n)" and ?cs = "take (inner_size n) (child_rep n)"
  let ?a = "le_bytes 4 INNER_NODE" and ?b = "le_bytes 4 (int (inner_size n))" and ?c = "le_bytes 8 (inner_self n)"
    and ?d = "array_bytes P ?ks" and ?e = "array_bytes blk_address_pod ?cs"
  have img: "inner_image P n @ rest = ?a @ ?b @ ?c @ ?d @ ?e @ rest" by (simp add: inner_image_def)
  have l: "length ?d = inner_size n * pod_size P" "length ?e = inner_size n * 8"
    using assms(1-3) K.length_array_bytes [of ?ks] addr_layout.length_array_bytes [of ?cs] by (simp_all add: blk_address_pod_def)
  have r: "buf_read 4 4 (?a @ ?b @ ?c @ ?d @ ?e @ rest) = Some ?b"
    "buf_read 8 8 (?a @ ?b @ ?c @ ?d @ ?e @ rest) = Some ?c"
    "buf_read 16 (inner_size n * pod_size P) (?a @ ?b @ ?c @ ?d @ ?e @ rest) = Some ?d"
    "buf_read (16 + inner_size n * pod_size P) (inner_size n * 8) (?a @ ?b @ ?c @ ?d @ ?e @ rest) = Some ?e"
    using buf_read_part [of ?a 4 ?b 4 "?c @ ?d @ ?e @ rest"] buf_read_part [of "?a @ ?b" 8 ?c 8 "?d @ ?e @ rest"]
      buf_read_part [of "?a @ ?b @ ?c" 16 ?d _ "?e @ rest"] buf_read_part [of "?a @ ?b @ ?c @ ?d" _ ?e _ rest] l by simp_all
  have "array_read P (inner_size n) ?d = ?ks" "array_read blk_address_pod (inner_size n) ?e = ?cs"
    using K.array_round_trip [of ?ks] addr_layout.array_round_trip [of ?cs] assms(1-3,6) by (simp_all add: min_absorb2)
  moreover have "nat (le_int ?b) = inner_size n" using assms(1,4) by (intro size_round_trip) simp
  ultimately show ?thesis
    using assms r by (simp add: img inner_deserialize_def le_sint_int64 Let_def)
qed

theorem node_round_trip:
  assumes "node_fits c n" "\<forall>x\<in>content_refs (content n). int64_ok x" "block_fits P E c (length buffer)"
  shows "\<exists>buf n'. specific_serialize P E n buffer = Some buf \<and> length buf = length buffer
     \<and> specific_deserialize P E c buf = Some n' \<and> content n' = content n \<and> node_fits c n' \<and> \<not> is_modified n'"
proof (cases n)
  case (LeafN l)
  have l: "leaf_size l \<le> c" "length (entries l) = c" using assms(1) LeafN by simp_all
  have r: "int64_ok (leaf_self l)" "int64_ok (right_sibling l)" using assms(2) LeafN by simp_all
  have len: "length (leaf_image E l) = 24 + leaf_size l * pod_size E"
    using l KV.length_array_bytes by (simp add: leaf_image_def min_absorb2)
  moreover have "24 + leaf_size l * pod_size E \<le> 24 + c * pod_size E" using l(1) by simp
  ultimately have le: "length (leaf_image E l) \<le> length buffer" and c: "c < 2 ^ 32"
    using assms(3) unfolding block_fits_def by linarith+
  let ?l0 = "new_leaf c (-1)" and ?rest = "drop (length (leaf_image E l)) buffer"
  have l0: "length (entries ?l0) = c" by (simp add: new_leaf_def)
  have s: "leaf_serialize E l buffer = Some (leaf_image E l @ ?rest)" by (rule leaf_serialize_image) (use le l in simp_all)
  have tag: "buf_read 0 4 (leaf_image E l @ ?rest) = Some (le_bytes 4 LEAF_NODE)" by (simp add: buf_read_def leaf_image_def)
  let ?n' = "?l0\<lparr>leaf_size := leaf_size l, leaf_self := leaf_self l, right_sibling := right_sibling l,
               entries := leaf_list l @ drop (leaf_size l) (entries ?l0)\<rparr>"
  have "specific_deserialize P E c (leaf_image E l @ ?rest) = Some (LeafN ?n')"
    using tag leaf_read_back [OF l c r l0, of ?rest] by (simp add: specific_deserialize_def le_int_bytes LEAF_NODE_def)
  moreover have "content (LeafN ?n') = content n" "node_fits c (LeafN ?n')" "\<not> is_modified (LeafN ?n')"
    using LeafN l l0 by (simp_all add: leaf_list_def new_leaf_def)
  ultimately show ?thesis using s LeafN le by auto
next
  case (InnerN nd)
  have l: "inner_size nd \<le> c" "length (key nd) = c" "length (child_rep nd) = c" using assms(1) InnerN by simp_all
  have "map snd (inner_list nd) = take (inner_size nd) (child_rep nd)" using l by (simp add: inner_list_def take_zip)
  then have "set (take (inner_size nd) (child_rep nd)) = snd ` set (inner_list nd)" by (metis set_map)
  then have r: "int64_ok (inner_self nd)" "\<forall>x\<in>set (take (inner_size nd) (child_rep nd)). int64_ok x"
    using assms(2) InnerN by auto
  have d: "length (array_bytes P (take (inner_size nd) (key nd))) = inner_size nd * pod_size P"
    using l K.length_array_bytes by (simp add: min_absorb2)
  have "length (inner_image P nd) = 16 + inner_size nd * (pod_size P + 8)"
    using l d addr_layout.length_array_bytes by (simp add: inner_image_def min_absorb2 blk_address_pod_def distrib_left)
  moreover have "16 + inner_size nd * (pod_size P + 8) \<le> 16 + c * (pod_size P + 8)" using l(1) by (simp add: mult_le_mono1)
  ultimately have le: "length (inner_image P nd) \<le> length buffer" and c: "c < 2 ^ 32"
    using assms(3) unfolding block_fits_def by linarith+
  let ?n0 = "new_inner c (-1) :: 'k inner_node" and ?rest = "drop (length (inner_image P nd)) buffer"
  have n0: "length (key ?n0) = c" "length (child_rep ?n0) = c" by (simp_all add: new_inner_def)
  have s: "inner_serialize P nd buffer = Some (inner_image P nd @ ?rest)" by (rule inner_serialize_image) (use le l d in simp_all)
  have tag: "buf_read 0 4 (inner_image P nd @ ?rest) = Some (le_bytes 4 INNER_NODE)" by (simp add: buf_read_def inner_image_def)
  let ?n' = "?n0\<lparr>inner_size := inner_size nd, inner_self := inner_self nd,
               key := take (inner_size nd) (key nd) @ drop (inner_size nd) (key ?n0),
               child_rep := take (inner_size nd) (child_rep nd) @ drop (inner_size nd) (child_rep ?n0)\<rparr>"
  have "specific_deserialize P E c (inner_image P nd @ ?rest) = Some (InnerN ?n')"
    using tag inner_read_back [OF l c r n0, of ?rest]
    by (simp add: specific_deserialize_def le_int_bytes LEAF_NODE_def INNER_NODE_def)
  moreover have "content (InnerN ?n') = content n" "node_fits c (InnerN ?n')" "\<not> is_modified (InnerN ?n')"
    using InnerN l n0 by (simp_all add: inner_list_def new_inner_def take_zip)
  ultimately show ?thesis using s InnerN le by auto
qed

end

section \<open>32-bit keys\<close>

text \<open>\<^verbatim>\<open>int\<close>, the key and value type of the trees in the repository's programs.\<close>

typedef int32 = "{i::int. - (2 ^ 31) \<le> i \<and> i < 2 ^ 31}"
  morphisms int_of_int32 int32_of_int
  by (rule exI [of _ 0]) simp

setup_lifting type_definition_int32

instantiation int32 :: linorder
begin

lift_definition less_eq_int32 :: "int32 \<Rightarrow> int32 \<Rightarrow> bool" is "(\<le>)" .

lift_definition less_int32 :: "int32 \<Rightarrow> int32 \<Rightarrow> bool" is "(<)" .

instance
  by standard (transfer; auto)+

end

definition int32_pod :: "int32 pod" where
  "int32_pod = \<lparr>pod_size = 4, pod_bytes = (\<lambda>x. le_bytes 4 (int_of_int32 x)), pod_read = (\<lambda>bs. int32_of_int (le_sint bs))\<rparr>"

definition int32_entry_pod :: "(int32 \<times> int32) pod" where
  "int32_entry_pod = pod_pair int32_pod 0 int32_pod 0"

lemma int32_round_trip: "int32_of_int (le_sint (le_bytes 4 (int_of_int32 x))) = x"
proof -
  have "- (256 ^ 4 div 2) \<le> int_of_int32 x" "int_of_int32 x < 256 ^ 4 div 2" using int_of_int32 [of x] by simp_all
  then show ?thesis by (simp add: le_sint_bytes int_of_int32_inverse)
qed

interpretation int32_nodes: node_layout int32_pod int32_entry_pod
proof -
  have i: "pod_layout int32_pod (\<lambda>_. True)" by unfold_locales (simp_all add: int32_pod_def int32_round_trip)
  show "node_layout int32_pod int32_entry_pod"
    using i pod_pair_layout [OF i i, of 0 0] by (simp add: node_layout_def int32_entry_pod_def case_prod_unfold)
qed

end
