(* ===== verification/Blk_Cache.thy ===== *)
theory Blk_Cache
  imports Node_Codec
begin

text \<open>
  The block cache of \<^verbatim>\<open>src/src/blk/blk_cache.h\<close>.  Cached blocks live in DMA memory and are
  referred to by pointers: a copy of a \<^verbatim>\<open>cache_unit\<close> shares its data with the unit in the list but
  not its dirty flag.  A pointer is the index of the block in the memory; \<^verbatim>\<open>spdk_dma_malloc\<close>
  returns the next unused one.  The hash map from identifiers to list iterators is the
  lookup of an identifier in the list.
\<close>

section \<open>The class\<close>

record cache_unit =
  unit_id :: int
  dirty :: bool
  data :: nat

record blk_cache =
  c_blk_size :: nat
  c_capacity :: nat
  c_size :: nat
  c_key :: "cache_unit list"
  c_mem :: "nat \<Rightarrow> byte list"
  c_next :: nat
  c_free :: "nat list"
  read_hits :: int
  read_probes :: int
  write_hits :: int
  write_probes :: int

definition cache_new :: "nat \<Rightarrow> nat \<Rightarrow> blk_cache" where
  "cache_new bs n = \<lparr>c_blk_size = bs, c_capacity = n, c_size = 0, c_key = [], c_mem = (\<lambda>_. []), c_next = 0, c_free = [],
     read_hits = 0, read_probes = 0, write_hits = 0, write_probes = 0\<rparr>"

definition find_unit :: "int \<Rightarrow> blk_cache \<Rightarrow> cache_unit option" where
  "find_unit i c = find (\<lambda>u. unit_id u = i) (c_key c)"

definition is_cached :: "int \<Rightarrow> blk_cache \<Rightarrow> bool" where
  "is_cached i c = (find_unit i c \<noteq> None)"

definition allocate_block :: "blk_cache \<Rightarrow> nat \<times> blk_cache" where
  "allocate_block c =
     (if c_free c = [] then (c_next c, c\<lparr>c_next := c_next c + 1\<rparr>)
      else (last (c_free c), c\<lparr>c_free := butlast (c_free c)\<rparr>))"

definition free_block :: "nat \<Rightarrow> blk_cache \<Rightarrow> blk_cache" where
  "free_block p c = c\<lparr>c_free := c_free c @ [p]\<rparr>"

definition insert_new_unit :: "cache_unit \<Rightarrow> blk_cache \<Rightarrow> blk_cache" where
  "insert_new_unit u c = c\<lparr>c_key := u # c_key c, c_size := c_size c + 1\<rparr>"

text \<open>\<^verbatim>\<open>back()\<close> of an empty list is undefined.\<close>

definition evict_unit :: "blk_cache \<Rightarrow> (cache_unit \<times> blk_cache) option" where
  "evict_unit c =
     (if c_key c = [] then None
      else Some (last (c_key c), c\<lparr>c_key := butlast (c_key c), c_size := c_size c - 1\<rparr>))"

text \<open>\<^verbatim>\<open>get\<close> moves the unit to the front of the list and returns a copy of it.\<close>

definition cache_get :: "int \<Rightarrow> blk_cache \<Rightarrow> (cache_unit \<times> blk_cache) option" where
  "cache_get i c =
     (case find_unit i c of
        None \<Rightarrow> None
      | Some u \<Rightarrow> Some (u, c\<lparr>c_key := u # filter (\<lambda>w. unit_id w \<noteq> i) (c_key c)\<rparr>))"

definition blk_memcpy :: "nat \<Rightarrow> byte list \<Rightarrow> blk_cache \<Rightarrow> blk_cache" where
  "blk_memcpy p buf c = c\<lparr>c_mem := (c_mem c)(p := take (c_blk_size c) buf)\<rparr>"

text \<open>
  \<^verbatim>\<open>write\<close> returns whether a unit was evicted, and that unit.  On a hit the dirty flag is set
  in a local copy of the unit only.
\<close>

definition cache_write :: "int \<Rightarrow> byte list \<Rightarrow> bool \<Rightarrow> blk_cache \<Rightarrow> (cache_unit option \<times> blk_cache) option" where
  "cache_write i buf d c0 =
     (let c = c0\<lparr>write_probes := write_probes c0 + 1\<rparr> in
      if find_unit i c = None then
        (case allocate_block c of (p, c1) \<Rightarrow>
          let c2 = insert_new_unit \<lparr>unit_id = i, dirty = d, data = p\<rparr> c1 in
          if c_capacity c2 < c_size c2
          then evict_unit c2 \<bind> (\<lambda>(e, c3). Some (Some e, blk_memcpy p buf c3))
          else Some (None, blk_memcpy p buf c2))
      else cache_get i (c\<lparr>write_hits := write_hits c + 1\<rparr>) \<bind> (\<lambda>(u, c1). Some (None, blk_memcpy (data u) buf c1)))"

definition cache_read :: "int \<Rightarrow> blk_cache \<Rightarrow> (byte list option \<times> blk_cache) option" where
  "cache_read i c0 =
     (let c = c0\<lparr>read_probes := read_probes c0 + 1\<rparr> in
      if find_unit i c = None then Some (None, c)
      else cache_get i (c\<lparr>read_hits := read_hits c + 1\<rparr>) \<bind> (\<lambda>(u, c1). Some (Some (c_mem c1 (data u)), c1)))"

definition invalidate :: "int \<Rightarrow> blk_cache \<Rightarrow> bool \<times> blk_cache" where
  "invalidate i c =
     (case find_unit i c of
        None \<Rightarrow> (False, c)
      | Some u \<Rightarrow> (True, (free_block (data u) c)\<lparr>c_key := filter (\<lambda>w. unit_id w \<noteq> i) (c_key c), c_size := c_size c - 1\<rparr>))"

definition mark_flushed :: "int \<Rightarrow> blk_cache \<Rightarrow> blk_cache" where
  "mark_flushed i c = c\<lparr>c_key := map (\<lambda>u. if unit_id u = i then u\<lparr>dirty := False\<rparr> else u) (c_key c)\<rparr>"

text \<open>The source collects the dirty units in the order of the hash map, which is not specified.\<close>

definition get_dirty_cache :: "blk_cache \<Rightarrow> cache_unit list" where
  "get_dirty_cache c = filter dirty (c_key c)"

section \<open>Invariant and abstraction\<close>

definition cache_ok :: "blk_cache \<Rightarrow> bool" where
  "cache_ok c \<longleftrightarrow> distinct (map unit_id (c_key c)) \<and> distinct (map data (c_key c) @ c_free c)
     \<and> (\<forall>p\<in>set (map data (c_key c) @ c_free c). p < c_next c) \<and> c_size c = length (c_key c)"

definition cache_ids :: "blk_cache \<Rightarrow> int list" where
  "cache_ids c = map unit_id (c_key c)"

definition cached :: "blk_cache \<Rightarrow> int \<Rightarrow> byte list option" where
  "cached c i = map_option (\<lambda>u. c_mem c (data u)) (find_unit i c)"

text \<open>The list of identifiers of a cache of bounded size, most recently used first.\<close>

definition lru_use :: "nat \<Rightarrow> int \<Rightarrow> int list \<Rightarrow> int list" where
  "lru_use n i xs = take n (i # filter (\<lambda>x. x \<noteq> i) xs)"

lemma find_unit_Some: "find_unit i c = Some u \<Longrightarrow> u \<in> set (c_key c) \<and> unit_id u = i"
  unfolding find_unit_def by (metis (mono_tags, lifting) find_Some_iff nth_mem)

lemma find_unit_None: "find_unit i c = None \<longleftrightarrow> i \<notin> set (cache_ids c)"
  by (auto simp: find_unit_def find_None_iff cache_ids_def)

lemma find_unit_unique:
  assumes "distinct (map unit_id us)" "u \<in> set us"
  shows "find (\<lambda>w. unit_id w = unit_id u) us = Some u"
  using assms
proof (induction us)
  case (Cons w us)
  then show ?case by (cases "w = u") (auto simp: rev_image_eqI)
qed simp

lemma cached_None: "cached c i = None \<longleftrightarrow> i \<notin> set (cache_ids c)"
  by (simp add: cached_def find_unit_None)

text \<open>Two caches with the same units and the same data under them hold the same blocks.\<close>

lemma cached_cong:
  assumes ok: "distinct (map unit_id (c_key c))" "distinct (map unit_id (c_key c'))" and s: "set (c_key c') = set (c_key c)"
    and m: "\<And>u. u \<in> set (c_key c) \<Longrightarrow> c_mem c' (data u) = c_mem c (data u)"
  shows "cached c' = cached c"
proof
  fix i
  show "cached c' i = cached c i"
  proof (cases "i \<in> set (cache_ids c)")
    case True
    then obtain u where u: "u \<in> set (c_key c)" "unit_id u = i" by (auto simp: cache_ids_def)
    then have "find_unit i c = Some u" "find_unit i c' = Some u"
      using find_unit_unique [OF ok(1)] find_unit_unique [OF ok(2)] s by (auto simp: find_unit_def)
    then show ?thesis using m [OF u(1)] by (simp add: cached_def)
  next
    case False
    then have "i \<notin> set (cache_ids c')" using s by (simp add: cache_ids_def)
    then show ?thesis using False cached_None by metis
  qed
qed

lemma cache_okD:
  assumes "cache_ok c"
  shows "distinct (map unit_id (c_key c))" "distinct (map data (c_key c))" "c_size c = length (c_key c)"
    "u \<in> set (c_key c) \<Longrightarrow> w \<in> set (c_key c) \<Longrightarrow> data u = data w \<Longrightarrow> u = w"
    "u \<in> set (c_key c) \<Longrightarrow> find_unit (unit_id u) c = Some u"
  using assms find_unit_unique [of "c_key c" u] by (auto simp: cache_ok_def find_unit_def distinct_map inj_on_def)

text \<open>Moving a unit to the front.\<close>

lemma cache_get_ok:
  assumes ok: "cache_ok c" and u: "find_unit i c = Some u"
  shows "\<exists>c'. cache_get i c = Some (u, c') \<and> cache_ok c' \<and> cached c' = cached c \<and> set (c_key c') = set (c_key c)
     \<and> cache_ids c' = i # filter (\<lambda>x. x \<noteq> i) (cache_ids c) \<and> c_mem c' = c_mem c \<and> c_blk_size c' = c_blk_size c
     \<and> c_capacity c' = c_capacity c \<and> c_free c' = c_free c \<and> c_next c' = c_next c \<and> length (c_key c') = length (c_key c)"
proof -
  note D = cache_okD [OF ok] and F = find_unit_Some [OF u]
  let ?ks = "u # filter (\<lambda>w. unit_id w \<noteq> i) (c_key c)" and ?c = "c\<lparr>c_key := u # filter (\<lambda>w. unit_id w \<noteq> i) (c_key c)\<rparr>"
  have s: "set ?ks = set (c_key c)" using F D(1) by (auto simp: distinct_map inj_on_def)
  have d: "distinct (map unit_id ?ks)" using F D(1) by (auto simp: distinct_map inj_on_def)
  have "distinct ?ks" "distinct (c_key c)" using d D(1) unfolding distinct_map by blast+
  then have len: "length ?ks = length (c_key c)" using s distinct_card by metis
  have dd: "distinct (map data ?ks)" using \<open>distinct ?ks\<close> s D(4) unfolding distinct_map inj_on_def by blast
  have "cache_ok ?c"
    using ok d dd len s unfolding cache_ok_def by (simp only: distinct_append set_append set_map) (simp add: s [simplified] len [simplified])
  moreover have "cached ?c = cached c" by (rule cached_cong) (use D(1) d s in simp_all)
  moreover have "cache_ids ?c = i # filter (\<lambda>x. x \<noteq> i) (cache_ids c)" using F by (simp add: cache_ids_def filter_map comp_def)
  ultimately show ?thesis using u s len by (simp add: cache_get_def)
qed

lemma blk_memcpy_ok:
  assumes ok: "cache_ok c" and u: "u \<in> set (c_key c)" and l: "length buf = c_blk_size c"
  shows "cache_ok (blk_memcpy (data u) buf c)" "cached (blk_memcpy (data u) buf c) = (cached c)(unit_id u \<mapsto> buf)"
    "cache_ids (blk_memcpy (data u) buf c) = cache_ids c"
proof -
  note D = cache_okD [OF ok]
  show "cache_ok (blk_memcpy (data u) buf c)" "cache_ids (blk_memcpy (data u) buf c) = cache_ids c"
    using ok by (simp_all add: cache_ok_def blk_memcpy_def cache_ids_def)
  show "cached (blk_memcpy (data u) buf c) = (cached c)(unit_id u \<mapsto> buf)"
  proof
    fix i
    have f: "find_unit i (blk_memcpy (data u) buf c) = find_unit i c" by (simp add: find_unit_def blk_memcpy_def)
    show "cached (blk_memcpy (data u) buf c) i = ((cached c)(unit_id u \<mapsto> buf)) i"
    proof (cases "find_unit i c")
      case None
      then have "unit_id u \<noteq> i" using D(5) [OF u] by auto
      then show ?thesis using None f by (simp add: cached_def)
    next
      case (Some w)
      then have w: "w \<in> set (c_key c)" "unit_id w = i" using find_unit_Some by blast+
      show ?thesis
      proof (cases "w = u")
        case True
        then show ?thesis using Some f w l by (simp add: cached_def blk_memcpy_def)
      next
        case False
        then have "data w \<noteq> data u" "unit_id w \<noteq> unit_id u" using D(4) [OF w(1) u] D(5) [OF u] Some w by auto
        then show ?thesis using Some f w by (simp add: cached_def blk_memcpy_def)
      qed
    qed
  qed
qed

lemma cache_read_ok:
  assumes ok: "cache_ok c"
  shows "\<exists>c'. cache_read i c = Some (cached c i, c') \<and> cache_ok c' \<and> cached c' = cached c \<and> c_blk_size c' = c_blk_size c
     \<and> c_capacity c' = c_capacity c \<and> set (cache_ids c') = set (cache_ids c)
     \<and> cache_ids c' = (if i \<in> set (cache_ids c) then i # filter (\<lambda>x. x \<noteq> i) (cache_ids c) else cache_ids c)"
proof -
  let ?c = "c\<lparr>read_probes := read_probes c + 1\<rparr>"
  have [simp]: "find_unit i ?c = find_unit i c" "cached ?c = cached c" "cache_ids ?c = cache_ids c"
    by (auto simp: find_unit_def cached_def cache_ids_def fun_eq_iff)
  have ok1: "cache_ok ?c" using ok by (simp add: cache_ok_def)
  show ?thesis
  proof (cases "find_unit i c")
    case None
    then show ?thesis using ok1 find_unit_None [of i c] by (auto simp: cache_read_def cached_def)
  next
    case (Some u)
    let ?h = "?c\<lparr>read_hits := read_hits ?c + 1\<rparr>"
    have h: "cache_ok ?h" "find_unit i ?h = Some u" "cached ?h = cached c" "cache_ids ?h = cache_ids c"
      using ok Some by (auto simp: cache_ok_def find_unit_def cached_def cache_ids_def fun_eq_iff)
    obtain c' where c': "cache_get i ?h = Some (u, c')" "cache_ok c'" "cached c' = cached ?h"
      "cache_ids c' = i # filter (\<lambda>x. x \<noteq> i) (cache_ids ?h)" "c_mem c' = c_mem ?h" "c_blk_size c' = c_blk_size ?h" "c_capacity c' = c_capacity ?h"
      using cache_get_ok [OF h(1,2)] by blast
    have "i \<in> set (cache_ids c)" using Some find_unit_None [of i c] by auto
    then show ?thesis using Some c' h by (auto simp: cache_read_def cached_def)
  qed
qed

text \<open>A read keeps the units and only moves one of them to the front.\<close>

lemma cache_read_units:
  assumes ok: "cache_ok c"
  shows "\<exists>c'. cache_read i c = Some (cached c i, c') \<and> cache_ok c' \<and> cached c' = cached c \<and> c_blk_size c' = c_blk_size c
     \<and> c_capacity c' = c_capacity c \<and> set (c_key c') = set (c_key c) \<and> length (cache_ids c') = length (cache_ids c)
     \<and> set (cache_ids c') = set (cache_ids c)"
proof (cases "find_unit i c")
  case None
  then show ?thesis using ok by (auto simp: cache_read_def find_unit_def cached_def cache_ok_def cache_ids_def fun_eq_iff)
next
  case (Some u)
  let ?h = "c\<lparr>read_probes := read_probes c + 1, read_hits := read_hits c + 1\<rparr>"
  have h: "cache_ok ?h" "find_unit i ?h = Some u" "cached ?h = cached c"
    using ok Some by (auto simp: cache_ok_def find_unit_def cached_def fun_eq_iff)
  obtain c' where c': "cache_get i ?h = Some (u, c')" "cache_ok c'" "cached c' = cached ?h" "set (c_key c') = set (c_key ?h)"
    "c_mem c' = c_mem ?h" "c_blk_size c' = c_blk_size ?h" "c_capacity c' = c_capacity ?h" "length (c_key c') = length (c_key ?h)"
    using cache_get_ok [OF h(1,2)] by blast
  have "cache_read i c = Some (cached c i, c')" using Some c'(1,5) by (simp add: cache_read_def Let_def find_unit_def cached_def)
  then show ?thesis using c' h by (intro exI [of _ c']) (simp add: cache_ids_def)
qed

lemma cache_write_hit:
  assumes ok: "cache_ok c" and i: "i \<in> set (cache_ids c)" and l: "length buf = c_blk_size c"
  shows "\<exists>c'. cache_write i buf d c = Some (None, c') \<and> cache_ok c' \<and> cached c' = (cached c)(i \<mapsto> buf)
     \<and> c_blk_size c' = c_blk_size c \<and> c_capacity c' = c_capacity c
     \<and> cache_ids c' = i # filter (\<lambda>x. x \<noteq> i) (cache_ids c) \<and> set (c_key c') = set (c_key c)"
proof -
  obtain u where u: "find_unit i c = Some u" using i find_unit_None [of i c] by auto
  let ?c = "c\<lparr>write_probes := write_probes c + 1, write_hits := write_hits c + 1\<rparr>"
  have h: "cache_ok ?c" "find_unit i ?c = Some u" "cached ?c = cached c" "cache_ids ?c = cache_ids c"
    using ok u by (auto simp: cache_ok_def find_unit_def cached_def cache_ids_def fun_eq_iff)
  obtain c' where c': "cache_get i ?c = Some (u, c')" "cache_ok c'" "cached c' = cached ?c" "set (c_key c') = set (c_key ?c)"
    "cache_ids c' = i # filter (\<lambda>x. x \<noteq> i) (cache_ids ?c)" "c_blk_size c' = c_blk_size ?c" "c_capacity c' = c_capacity ?c"
    using cache_get_ok [OF h(1,2)] by blast
  have "u \<in> set (c_key c')" "unit_id u = i" using find_unit_Some [OF u] c'(4) by simp_all
  note B = blk_memcpy_ok [OF c'(2) this(1), of buf, unfolded this(2)]
  have "cache_write i buf d c = Some (None, blk_memcpy (data u) buf c')"
    using u c'(1) by (simp add: cache_write_def Let_def find_unit_def)
  then show ?thesis using B c' h l by (simp add: blk_memcpy_def)
qed

lemma allocate_block_ok:
  assumes ok: "cache_ok c" and a: "allocate_block c = (p, c')"
  shows "p \<notin> data ` set (c_key c)" "p \<notin> set (c_free c')" "p < c_next c'" "c_key c' = c_key c" "c_size c' = c_size c"
    "c_mem c' = c_mem c" "c_blk_size c' = c_blk_size c" "c_capacity c' = c_capacity c" "cache_ok c'"
proof -
  show "c_key c' = c_key c" "c_size c' = c_size c" "c_mem c' = c_mem c" "c_blk_size c' = c_blk_size c" "c_capacity c' = c_capacity c"
    using a by (auto simp: allocate_block_def split: if_splits)
  have "p \<notin> data ` set (c_key c) \<and> p \<notin> set (c_free c') \<and> p < c_next c' \<and> cache_ok c'"
  proof (cases "c_free c" rule: rev_cases)
    case Nil
    then have "\<forall>q\<in>data ` set (c_key c). q < c_next c" "p = c_next c" "c' = c\<lparr>c_next := c_next c + 1\<rparr>"
      using ok a by (auto simp: cache_ok_def allocate_block_def)
    then show ?thesis using Nil ok by (auto simp: cache_ok_def less_Suc_eq)
  next
    case (snoc ps q)
    then have "p = q" "c' = c\<lparr>c_free := ps\<rparr>" using a by (auto simp: allocate_block_def)
    then show ?thesis using snoc ok by (auto simp: cache_ok_def)
  qed
  then show "p \<notin> data ` set (c_key c)" "p \<notin> set (c_free c')" "p < c_next c'" "cache_ok c'" by simp_all
qed

lemma insert_new_unit_ok:
  assumes ok: "cache_ok c" and i: "i \<notin> set (cache_ids c)" and p: "p \<notin> data ` set (c_key c)" "p \<notin> set (c_free c)" "p < c_next c"
  shows "cache_ok (insert_new_unit \<lparr>unit_id = i, dirty = d, data = p\<rparr> c)"
    "j \<noteq> i \<Longrightarrow> cached (insert_new_unit \<lparr>unit_id = i, dirty = d, data = p\<rparr> c) j = cached c j"
  using assms by (auto simp: cache_ok_def insert_new_unit_def cache_ids_def cached_def find_unit_def)

lemma find_append: "find P (xs @ ys) = (case find P xs of None \<Rightarrow> find P ys | Some x \<Rightarrow> Some x)"
  by (induction xs) simp_all

lemma evict_unit_ok:
  assumes ok: "cache_ok c" and ne: "c_key c \<noteq> []"
  shows "\<exists>c'. evict_unit c = Some (last (c_key c), c') \<and> cache_ok c' \<and> c_key c' = butlast (c_key c) \<and> c_mem c' = c_mem c
     \<and> c_blk_size c' = c_blk_size c \<and> c_capacity c' = c_capacity c \<and> c_free c' = c_free c \<and> c_next c' = c_next c
     \<and> cached c' = (cached c)(unit_id (last (c_key c)) := None)"
proof -
  obtain us u where us: "c_key c = us @ [u]" using ne by (cases "c_key c" rule: rev_cases) auto
  let ?c = "c\<lparr>c_key := butlast (c_key c), c_size := c_size c - 1\<rparr>"
  have "cached ?c i = ((cached c)(unit_id u := None)) i" for i
  proof (cases "i = unit_id u")
    case True
    have "unit_id u \<notin> unit_id ` set us" using ok us by (simp add: cache_ok_def)
    then show ?thesis using True us cached_None [of ?c "unit_id u"] by (simp add: cache_ids_def)
  next
    case False
    then show ?thesis using us by (simp add: cached_def find_unit_def find_append split: option.split)
  qed
  moreover have "cache_ok ?c" using ok us by (auto simp: cache_ok_def)
  ultimately show ?thesis using us by (simp add: evict_unit_def fun_eq_iff)
qed

lemma cache_write_miss:
  assumes ok: "cache_ok c" and i: "i \<notin> set (cache_ids c)" and l: "length buf = c_blk_size c" and cap: "length (cache_ids c) < c_capacity c"
  shows "\<exists>c'. cache_write i buf d c = Some (None, c') \<and> cache_ok c' \<and> cached c' = (cached c)(i \<mapsto> buf)
     \<and> c_blk_size c' = c_blk_size c \<and> c_capacity c' = c_capacity c \<and> cache_ids c' = i # cache_ids c
     \<and> tl (c_key c') = c_key c \<and> dirty (hd (c_key c')) = d"
proof -
  let ?c = "c\<lparr>write_probes := write_probes c + 1\<rparr>"
  have ok0: "cache_ok ?c" using ok by (simp add: cache_ok_def)
  obtain p c1 where a: "allocate_block ?c = (p, c1)" by fastforce
  note A = allocate_block_ok [OF ok0 a]
  let ?u = "\<lparr>unit_id = i, dirty = d, data = p\<rparr>"
  have i1: "i \<notin> set (cache_ids c1)" using i A(4) by (simp add: cache_ids_def)
  have "p \<notin> data ` set (c_key c1)" using A(1,4) by simp
  note I = insert_new_unit_ok [OF A(9) i1 this A(2,3), where d = d]
  let ?c2 = "insert_new_unit ?u c1"
  have u: "?u \<in> set (c_key ?c2)" by (simp add: insert_new_unit_def)
  have l2: "length buf = c_blk_size ?c2" using l A(7) by (simp add: insert_new_unit_def)
  note B = blk_memcpy_ok [OF I(1) u l2]
  have "find_unit i ?c = None" using i find_unit_None [of i ?c] by (simp add: cache_ids_def)
  moreover have "\<not> c_capacity ?c2 < c_size ?c2"
    using cap A(4,5,8) cache_okD(3) [OF ok] by (simp add: insert_new_unit_def cache_ids_def)
  ultimately have "cache_write i buf d c = Some (None, blk_memcpy p buf ?c2)" using a by (simp add: cache_write_def Let_def)
  moreover have "cached (blk_memcpy p buf ?c2) = (cached c)(i \<mapsto> buf)"
  proof
    fix j
    have "cached c1 j = cached c j" using A(4,6) by (simp add: cached_def find_unit_def)
    then show "cached (blk_memcpy p buf ?c2) j = ((cached c)(i \<mapsto> buf)) j" using B(2) I(2) [of j] by simp
  qed
  ultimately show ?thesis using B A(4,7,8) by (simp add: blk_memcpy_def insert_new_unit_def cache_ids_def)
qed

text \<open>A write into a full cache evicts the least recently used block and hands it to the caller.\<close>

lemma cache_write_evicts:
  assumes ok: "cache_ok c" and i: "i \<notin> set (cache_ids c)" and l: "length buf = c_blk_size c"
    and cap: "length (cache_ids c) = c_capacity c" "c_key c \<noteq> []"
  shows "\<exists>c'. cache_write i buf d c = Some (Some (last (c_key c)), c') \<and> cache_ok c'
     \<and> cached c' = (cached c)(i \<mapsto> buf, unit_id (last (c_key c)) := None)
     \<and> Some (c_mem c' (data (last (c_key c)))) = cached c (unit_id (last (c_key c)))
     \<and> c_blk_size c' = c_blk_size c \<and> c_capacity c' = c_capacity c \<and> cache_ids c' = i # butlast (cache_ids c)
     \<and> data (last (c_key c)) \<notin> set (map data (c_key c') @ c_free c') \<and> data (last (c_key c)) < c_next c'
     \<and> tl (c_key c') = butlast (c_key c) \<and> dirty (hd (c_key c')) = d"
proof -
  let ?c = "c\<lparr>write_probes := write_probes c + 1\<rparr>" and ?e = "last (c_key c)"
  have ok0: "cache_ok ?c" using ok by (simp add: cache_ok_def)
  obtain p c1 where a: "allocate_block ?c = (p, c1)" by fastforce
  note A = allocate_block_ok [OF ok0 a]
  let ?u = "\<lparr>unit_id = i, dirty = d, data = p\<rparr>"
  have i1: "i \<notin> set (cache_ids c1)" using i A(4) by (simp add: cache_ids_def)
  have "p \<notin> data ` set (c_key c1)" using A(1,4) by simp
  note I = insert_new_unit_ok [OF A(9) i1 this A(2,3), where d = d]
  let ?c2 = "insert_new_unit ?u c1"
  have key2: "c_key ?c2 = ?u # c_key c" using A(4) by (simp add: insert_new_unit_def)
  then have last2: "last (c_key ?c2) = ?e" "butlast (c_key ?c2) = ?u # butlast (c_key c)" using cap(2) by simp_all
  obtain c3 where c3: "evict_unit ?c2 = Some (?e, c3)" "cache_ok c3" "c_key c3 = ?u # butlast (c_key c)" "c_mem c3 = c_mem ?c2"
    "c_blk_size c3 = c_blk_size ?c2" "c_capacity c3 = c_capacity ?c2" "c_free c3 = c_free ?c2" "c_next c3 = c_next ?c2"
    "cached c3 = (cached ?c2)(unit_id ?e := None)"
    using evict_unit_ok [OF I(1)] last2 key2 by auto
  have u: "?u \<in> set (c_key c3)" using c3(3) by simp
  have l3: "length buf = c_blk_size c3" using l A(7) c3(5) by (simp add: insert_new_unit_def)
  note B = blk_memcpy_ok [OF c3(2) u l3, simplified]
  have e: "?e \<in> set (c_key c)" using cap(2) by simp
  then have ne: "unit_id ?e \<noteq> i" "data ?e \<noteq> p" using i A(1) by (auto simp: cache_ids_def)
  have "find_unit i ?c = None" using i find_unit_None [of i ?c] by (simp add: cache_ids_def)
  moreover have "c_capacity ?c2 < c_size ?c2"
    using cap A(4,5,8) cache_okD(3) [OF ok] by (simp add: insert_new_unit_def cache_ids_def)
  ultimately have w: "cache_write i buf d c = Some (Some ?e, blk_memcpy p buf c3)" using a c3(1) by (simp add: cache_write_def Let_def)
  have v: "cached (blk_memcpy p buf c3) = (cached c)(i \<mapsto> buf, unit_id ?e := None)"
  proof
    fix j
    have "cached c1 j = cached c j" using A(4,6) by (simp add: cached_def find_unit_def)
    then show "cached (blk_memcpy p buf c3) j = ((cached c)(i \<mapsto> buf, unit_id ?e := None)) j"
      using B(2) I(2) [of j] c3(9) ne(1) by auto
  qed
  have m: "Some (c_mem (blk_memcpy p buf c3) (data ?e)) = cached c (unit_id ?e)"
    using cache_okD(5) [OF ok e] c3(4) A(6) ne(2) by (simp add: blk_memcpy_def insert_new_unit_def cached_def)
  have "c_key ?c2 = (?u # butlast (c_key c)) @ [?e]" using key2 cap(2) by simp
  then have f: "data ?e \<notin> set (map data (?u # butlast (c_key c)) @ c_free ?c2)" "data ?e < c_next ?c2"
    using I(1) unfolding cache_ok_def by auto
  have g: "c_key (blk_memcpy p buf c3) = ?u # butlast (c_key c)" "c_free (blk_memcpy p buf c3) = c_free ?c2"
    "c_next (blk_memcpy p buf c3) = c_next ?c2" "c_blk_size (blk_memcpy p buf c3) = c_blk_size c" "c_capacity (blk_memcpy p buf c3) = c_capacity c"
    using c3 A(7,8) by (simp_all add: blk_memcpy_def insert_new_unit_def)
  have "cache_ids (blk_memcpy p buf c3) = i # butlast (cache_ids c)" using g(1) by (simp add: cache_ids_def map_butlast)
  with w B(1) v m f g show ?thesis by (intro exI [of _ "blk_memcpy p buf c3"] conjI) simp_all
qed

lemma cache_write_lru:
  assumes ok: "cache_ok c" and l: "length buf = c_blk_size c" and cap: "length (cache_ids c) \<le> c_capacity c" "0 < c_capacity c"
  shows "\<exists>e c'. cache_write i buf d c = Some (e, c') \<and> cache_ok c' \<and> cache_ids c' = lru_use (c_capacity c) i (cache_ids c)
     \<and> cached c' = (\<lambda>j. if j \<in> set (cache_ids c') then if j = i then Some buf else cached c j else None)
     \<and> c_blk_size c' = c_blk_size c \<and> c_capacity c' = c_capacity c"
proof -
  have d: "distinct (cache_ids c)" using ok by (simp add: cache_ok_def cache_ids_def)
  have out: "cached c j = None" if "j \<notin> set (cache_ids c)" for j using that cached_None by blast
  show ?thesis
  proof (cases "i \<in> set (cache_ids c)")
    case True
    have "length (filter (\<lambda>x. x \<noteq> i) (cache_ids c)) < length (cache_ids c)" by (rule length_filter_less [OF True]) simp
    then have "lru_use (c_capacity c) i (cache_ids c) = i # filter (\<lambda>x. x \<noteq> i) (cache_ids c)"
      using cap by (simp add: lru_use_def)
    then show ?thesis using cache_write_hit [OF ok True l, of d] out by (fastforce simp: fun_eq_iff)
  next
    case False
    then have f: "filter (\<lambda>x. x \<noteq> i) (cache_ids c) = cache_ids c" by (auto simp: filter_id_conv)
    show ?thesis
    proof (cases "length (cache_ids c) < c_capacity c")
      case True
      then have "lru_use (c_capacity c) i (cache_ids c) = i # cache_ids c" using f by (simp add: lru_use_def)
      then show ?thesis using cache_write_miss [OF ok False l True, of d] out by (fastforce simp: fun_eq_iff)
    next
      case full: False
      then have len: "length (cache_ids c) = c_capacity c" using cap(1) by simp
      then have ne: "c_key c \<noteq> []" using cap(2) by (auto simp: cache_ids_def)
      let ?e = "last (c_key c)"
      obtain c' where c': "cache_write i buf d c = Some (Some ?e, c')" "cache_ok c'"
        "cached c' = (cached c)(i \<mapsto> buf, unit_id ?e := None)" "cache_ids c' = i # butlast (cache_ids c)"
        "c_blk_size c' = c_blk_size c" "c_capacity c' = c_capacity c"
        using cache_write_evicts [OF ok False l len ne, of d] by blast
      have lst: "last (cache_ids c) = unit_id ?e" "cache_ids c \<noteq> []" using ne by (simp_all add: cache_ids_def last_map)
      have "lru_use (c_capacity c) i (cache_ids c) = i # butlast (cache_ids c)"
        using f len cap(2) by (cases "c_capacity c") (simp_all add: lru_use_def butlast_conv_take)
      moreover have "cached c' j = (if j \<in> set (i # butlast (cache_ids c)) then if j = i then Some buf else cached c j else None)" for j
      proof -
        have ids: "cache_ids c = butlast (cache_ids c) @ [unit_id ?e]" using lst by (metis append_butlast_last_id)
        then have "unit_id ?e \<notin> set (butlast (cache_ids c))" "unit_id ?e \<noteq> i"
          using d False by (metis distinct_append disjoint_insert(1) list.simps(15) , metis in_set_conv_decomp)
        moreover have "j \<in> set (cache_ids c) \<longleftrightarrow> j \<in> set (butlast (cache_ids c)) \<or> j = unit_id ?e"
          by (subst ids) auto
        ultimately show ?thesis using c'(3) out [of j] by auto
      qed
      ultimately show ?thesis using c' by (intro exI [of _ "Some ?e"] exI [of _ c']) (simp add: fun_eq_iff)
    qed
  qed
qed

text \<open>The caller frees the memory of an evicted unit when it has written it back.\<close>

lemma free_block_ok:
  assumes "cache_ok c" "p \<notin> set (map data (c_key c) @ c_free c)" "p < c_next c"
  shows "cache_ok (free_block p c)" "cached (free_block p c) = cached c" "cache_ids (free_block p c) = cache_ids c"
    "c_key (free_block p c) = c_key c" "c_mem (free_block p c) = c_mem c"
    "c_blk_size (free_block p c) = c_blk_size c" "c_capacity (free_block p c) = c_capacity c"
  using assms by (auto simp: cache_ok_def free_block_def cached_def find_unit_def cache_ids_def fun_eq_iff)

lemma cached_unit: "cache_ok c \<Longrightarrow> u \<in> set (c_key c) \<Longrightarrow> cached c (unit_id u) = Some (c_mem c (data u))"
  using cache_okD(5) by (simp add: cached_def)

lemma find_filter: "(\<And>x. P x \<Longrightarrow> Q x) \<Longrightarrow> find P (filter Q xs) = find P xs"
  by (induction xs) auto

lemma invalidate_ok:
  assumes ok: "cache_ok c"
  shows "\<exists>c'. invalidate i c = (i \<in> set (cache_ids c), c') \<and> cache_ok c' \<and> cached c' = (cached c)(i := None)
     \<and> cache_ids c' = filter (\<lambda>x. x \<noteq> i) (cache_ids c)"
proof (cases "find_unit i c")
  case None
  then have "i \<notin> set (cache_ids c)" using find_unit_None by blast
  moreover from this have "cached c i = None" using cached_None by blast
  moreover have "filter (\<lambda>x. x \<noteq> i) (cache_ids c) = cache_ids c" using \<open>i \<notin> set (cache_ids c)\<close> by (auto simp: filter_id_conv)
  ultimately show ?thesis using None ok by (simp add: invalidate_def fun_upd_idem)
next
  case (Some u)
  let ?c = "(free_block (data u) c)\<lparr>c_key := filter (\<lambda>w. unit_id w \<noteq> i) (c_key c), c_size := c_size c - 1\<rparr>"
  note D = cache_okD [OF ok] and U = find_unit_Some [OF Some]
  have d: "distinct (c_key c)" using D(1) unfolding distinct_map by blast
  have only: "w = u" if "w \<in> set (c_key c)" "unit_id w = i" for w using D(5) [OF that(1)] that(2) Some by simp
  have "filter (\<lambda>w. unit_id w \<noteq> i) (c_key c) = remove1 u (c_key c)"
    using distinct_remove1_removeAll [OF d, of u] U only by (auto simp: removeAll_filter_not_eq intro!: filter_cong)
  then have len: "length (filter (\<lambda>w. unit_id w \<noteq> i) (c_key c)) = length (c_key c) - 1" using U by (simp add: length_remove1)
  have "cache_ok ?c"
    using ok U len only by (auto simp: cache_ok_def free_block_def distinct_map inj_on_def)
  moreover have "cached ?c j = ((cached c)(i := None)) j" for j
  proof (cases "j = i")
    case True
    then show ?thesis using cached_None [of ?c i] by (auto simp: cache_ids_def)
  next
    case False
    then have "find (\<lambda>w. unit_id w = j) (filter (\<lambda>w. unit_id w \<noteq> i) (c_key c)) = find (\<lambda>w. unit_id w = j) (c_key c)"
      by (intro find_filter) simp
    then show ?thesis using False by (simp add: cached_def find_unit_def free_block_def)
  qed
  moreover have "i \<in> set (cache_ids c)" using U by (auto simp: cache_ids_def)
  moreover have "cache_ids ?c = filter (\<lambda>x. x \<noteq> i) (cache_ids c)" by (simp add: cache_ids_def filter_map comp_def)
  ultimately show ?thesis using Some by (intro exI [of _ ?c]) (simp add: invalidate_def fun_eq_iff)
qed

lemma get_dirty_cache_flushed:
  assumes ok: "cache_ok c"
  shows "cache_ok (mark_flushed i c)" "cached (mark_flushed i c) = cached c"
    "get_dirty_cache (mark_flushed i c) = filter (\<lambda>u. unit_id u \<noteq> i) (get_dirty_cache c)"
proof -
  let ?f = "\<lambda>u. if unit_id u = i then u\<lparr>dirty := False\<rparr> else u"
  have m: "map unit_id (map ?f (c_key c)) = map unit_id (c_key c)" "map data (map ?f (c_key c)) = map data (c_key c)"
    by (auto simp: comp_def)
  then show "cache_ok (mark_flushed i c)" using ok by (simp add: cache_ok_def mark_flushed_def del: map_map)
  have f: "find (\<lambda>u. unit_id u = j) (map ?f us) = map_option ?f (find (\<lambda>u. unit_id u = j) us)" for j us
    by (induction us) auto
  have "cached (mark_flushed i c) j = cached c j" for j
    using f [of j "c_key c"] by (cases "find (\<lambda>u. unit_id u = j) (c_key c)") (auto simp: cached_def find_unit_def mark_flushed_def)
  then show "cached (mark_flushed i c) = cached c" by (rule ext)
  have "filter dirty (map ?f us) = filter (\<lambda>u. unit_id u \<noteq> i) (filter dirty us)" for us by (induction us) auto
  then show "get_dirty_cache (mark_flushed i c) = filter (\<lambda>u. unit_id u \<noteq> i) (get_dirty_cache c)"
    unfolding get_dirty_cache_def mark_flushed_def by simp
qed

end
