(* ===== verification/Vanilla_Tree.thy ===== *)
theory Vanilla_Tree
  imports Node_Store
begin

text \<open>
  The recursive methods of \<^verbatim>\<open>InnerNode\<close> and the class \<^verbatim>\<open>VanillaBPlusTree\<close>
  (\<^verbatim>\<open>src/src/tree/inner_node.h\<close>, \<^verbatim>\<open>vanilla_b_plus_tree.h\<close>) over any node storage.
  A method works on the node object it is called on and on the storage; it returns the
  changed object, and its caller closes the reference it obtained the object from.
  The recursion is that of the source: \<^verbatim>\<open>None\<close> is undefined behaviour, a failed assertion
  or a call that does not return.
\<close>

section \<open>Node methods\<close>

subsection \<open>Search\<close>

partial_function (option) node_search ::
  "('s, 'k::linorder, 'v) node_ops \<Rightarrow> 'k \<Rightarrow> ('k, 'v) node \<Rightarrow> 's \<Rightarrow> ('v option \<times> 's) option" where
  "node_search R k n s =
     (case n of
        LeafN l \<Rightarrow> leaf_search l k \<bind> (\<lambda>v. Some (v, s))
      | InnerN nd \<Rightarrow>
          locate_child_index nd k \<bind> (\<lambda>index.
          if index < 0 then Some (None, s)
          else do { a \<leftarrow> get_child_rep nd index;
                    (child, s1) \<leftarrow> ref_get R a s;
                    (ret, s2) \<leftarrow> node_search R k child s1;
                    s3 \<leftarrow> ref_close R a child s2;
                    Some (ret, s3) }))"

text \<open>
  \<^verbatim>\<open>locate_key\<close> returns whether the key was found, and assigns its reference
  parameters: \<open>None\<close> when it leaves them unassigned.
\<close>

partial_function (option) node_locate_key ::
  "('s, 'k::linorder, 'v) node_ops \<Rightarrow> 'k \<Rightarrow> ('k, 'v) node \<Rightarrow> 's \<Rightarrow> ((bool \<times> (blk_address \<times> int) option) \<times> 's) option" where
  "node_locate_key R k n s =
     (case n of
        LeafN l \<Rightarrow> leaf_locate_key l k \<bind> (\<lambda>(found, a, p). Some ((found, Some (a, p)), s))
      | InnerN nd \<Rightarrow>
          locate_child_index nd k \<bind> (\<lambda>local_index.
          if local_index < 0 then Some ((False, None), s)
          else do { a \<leftarrow> get_child_rep nd local_index;
                    (child, s1) \<leftarrow> ref_get R a s;
                    (ret, s2) \<leftarrow> node_locate_key R k child s1;
                    s3 \<leftarrow> ref_close R a child s2;
                    Some (ret, s3) }))"

partial_function (option) node_leftmost_leaf ::
  "('s, 'k::linorder, 'v) node_ops \<Rightarrow> ('k, 'v) node \<Rightarrow> 's \<Rightarrow> (blk_address \<times> 's) option" where
  "node_leftmost_leaf R n s =
     (case n of
        LeafN l \<Rightarrow> Some (leaf_self l, s)
      | InnerN nd \<Rightarrow>
          do { a \<leftarrow> get_child_rep nd 0;
               (child, s1) \<leftarrow> ref_get R a s;
               (ret, s2) \<leftarrow> node_leftmost_leaf R child s1;
               s3 \<leftarrow> ref_close R a child s2;
               Some (ret, s3) })"

subsection \<open>Insertion\<close>

text \<open>The insertion without split support, and \<^verbatim>\<open>update\<close>.\<close>

partial_function (option) node_insert ::
  "('s, 'k::linorder, 'v) node_ops \<Rightarrow> nat \<Rightarrow> 'k \<Rightarrow> 'v \<Rightarrow> ('k, 'v) node \<Rightarrow> 's \<Rightarrow> (bool \<times> ('k, 'v) node \<times> 's) option" where
  "node_insert R c k v n s =
     (case n of
        LeafN l \<Rightarrow> leaf_insert c k v l \<bind> (\<lambda>(ok, l'). Some (ok, LeafN l', s))
      | InnerN nd \<Rightarrow>
          do { insert_position \<leftarrow> locate_child_index nd k;
               a \<leftarrow> get_child_rep nd insert_position;
               (child, s1) \<leftarrow> ref_get R a s;
               (ret, child', s2) \<leftarrow> node_insert R c k v child s1;
               s3 \<leftarrow> ref_close R a child' s2;
               Some (ret, InnerN nd, s3) })"

fun node_update :: "'k::linorder \<Rightarrow> 'v \<Rightarrow> ('k, 'v) node \<Rightarrow> (bool \<times> ('k, 'v) node) option" where
  "node_update k v (LeafN l) = map_option (\<lambda>(ok, l'). (ok, LeafN l')) (leaf_update k v l)"
| "node_update k v (InnerN n) = Some (True, InnerN n)"

definition leaf_must_split :: "nat \<Rightarrow> 'k::linorder \<Rightarrow> ('k, 'v) leaf_node \<Rightarrow> bool option" where
  "leaf_must_split c k l = map_option (\<lambda>(found, _). \<not> found \<and> \<not> leaf_size l < c) (search_key_position l k)"

text \<open>\<^verbatim>\<open>insert_with_split_support\<close> of a leaf; the constructor of the new leaf allocates a reference.\<close>

definition leaf_iwss ::
  "('s, 'k::linorder, 'v) node_ops \<Rightarrow> nat \<Rightarrow> 'k \<Rightarrow> 'v \<Rightarrow> ('k, 'v) leaf_node \<Rightarrow> 's
     \<Rightarrow> (('k, 'v) node \<times> ('k, ('k, 'v) node) split option \<times> 's) option" where
  "leaf_iwss R c k v l s =
     leaf_must_split c k l \<bind> (\<lambda>must_split.
     do { (right_rep, s1) \<leftarrow> (if must_split then allocate_ref R s else Some (-1, s));
          (l', sp) \<leftarrow> leaf_insert_with_split_support c right_rep k v l;
          Some (LeafN l', map_option (\<lambda>p. \<lparr>split_left = LeafN (split_left p), split_right = LeafN (split_right p),
                                           boundary_key = boundary_key p\<rparr>) sp, s1) })"

text \<open>The part of the inner node's method after the child was split.\<close>

definition inner_iwss_split ::
  "('s, 'k::linorder, 'v) node_ops \<Rightarrow> nat \<Rightarrow> int \<Rightarrow> ('k, ('k, 'v) node) split \<Rightarrow> 'k inner_node \<Rightarrow> 's
     \<Rightarrow> (('k, 'v) node \<times> ('k, ('k, 'v) node) split option \<times> 's) option" where
  "inner_iwss_split R c target_node_index local_split nd s =
     do { (right_rep, s1) \<leftarrow> (if inner_size nd < c then Some (-1, s) else allocate_ref R s);
          (nd', sp) \<leftarrow> inner_take_split c right_rep target_node_index (boundary_key local_split)
                        (node_self (split_right local_split)) nd;
          s2 \<leftarrow> ref_close R (node_self (split_left local_split)) (split_left local_split) s1;
          s3 \<leftarrow> ref_close R (node_self (split_right local_split)) (split_right local_split) s2;
          Some (InnerN nd', map_option (\<lambda>p. \<lparr>split_left = InnerN (split_left p), split_right = InnerN (split_right p),
                                             boundary_key = boundary_key p\<rparr>) sp, s3) }"

partial_function (option) node_iwss ::
  "('s, 'k::linorder, 'v) node_ops \<Rightarrow> nat \<Rightarrow> 'k \<Rightarrow> 'v \<Rightarrow> ('k, 'v) node \<Rightarrow> 's
     \<Rightarrow> (('k, 'v) node \<times> ('k, ('k, 'v) node) split option \<times> 's) option" where
  "node_iwss R c k v n s =
     (case n of
        LeafN l \<Rightarrow> leaf_iwss R c k v l s
      | InnerN nd \<Rightarrow>
          locate_child_index nd k \<bind> (\<lambda>index.
          (if index < 0 then inner_set_first_key k nd else Some nd) \<bind> (\<lambda>nd1.
          get_child_rep nd1 (max 0 index) \<bind> (\<lambda>a.
          ref_get R a s \<bind> (\<lambda>(child, s1).
          node_iwss R c k v child s1 \<bind> (\<lambda>(child', sp, s2).
          case sp of
            None \<Rightarrow> ref_close R a child' s2 \<bind> (\<lambda>s3. Some (InnerN nd1, None, s3))
          | Some local_split \<Rightarrow> inner_iwss_split R c (max 0 index) local_split nd1 s2))))))"

subsection \<open>Deletion\<close>

fun node_balance ::
  "nat \<Rightarrow> 'k \<times> blk_address \<Rightarrow> ('k, 'v) node \<Rightarrow> ('k, 'v) node \<Rightarrow> (('k, 'v) node \<times> ('k, 'v) node \<times> 'k option) option" where
  "node_balance c junk (LeafN l) (LeafN r) =
     map_option (\<lambda>(l', r', b). (LeafN l', LeafN r', b)) (leaf_balance c l r)"
| "node_balance c junk (InnerN l) (InnerN r) =
     map_option (\<lambda>(l', r', b). (InnerN l', InnerN r', b)) (inner_balance c junk l r)"
| "node_balance c junk l r = None"

text \<open>
  The inner node's method after the child at \<open>idx\<close> (\<^verbatim>\<open>child_index\<close>) has reported an underflow.
  The reference of that child holds its object; the neighbour is read.  The merged right
  node is removed: its own \<^verbatim>\<open>close\<close> has no children left to visit.
\<close>

definition inner_fix_underflow ::
  "('s, 'k::linorder, 'v) node_ops \<Rightarrow> nat \<Rightarrow> 'k \<times> blk_address \<Rightarrow> int \<Rightarrow> ('k, 'v) node \<Rightarrow> 'k inner_node \<Rightarrow> 's
     \<Rightarrow> (bool \<times> 'k inner_node \<times> 's) option" where
  "inner_fix_underflow R c junk idx child nd s =
     (let left_child_index = (if idx \<ge> 1 then idx - 1 else idx);
          right_child_index = (if idx \<ge> 1 then idx else idx + 1)
      in do {
        left_ref \<leftarrow> get_child_rep nd left_child_index;
        right_ref \<leftarrow> get_child_rep nd right_child_index;
        (left_child, s1) \<leftarrow> (if left_child_index = idx then Some (child, s) else ref_get R left_ref s);
        (right_child, s2) \<leftarrow> (if right_child_index = idx then Some (child, s1) else ref_get R right_ref s1);
        (left', right', boundary) \<leftarrow> node_balance c junk left_child right_child;
        (case boundary of
           Some b \<Rightarrow>
             do { nd' \<leftarrow> inner_set_boundary right_child_index b nd;
                  s3 \<leftarrow> ref_close R left_ref left' s2;
                  s4 \<leftarrow> ref_close R right_ref right' s3;
                  Some (False, nd', s4) }
         | None \<Rightarrow>
             do { s3 \<leftarrow> ref_close R left_ref left' s2;
                  s4 \<leftarrow> ref_remove R right_ref s3;
                  nd' \<leftarrow> inner_remove_child right_child_index nd;
                  Some (inner_size nd' < UNDERFLOW_BOUND c, nd', s4) }) })"

partial_function (option) node_delete_key ::
  "('s, 'k::linorder, 'v) node_ops \<Rightarrow> nat \<Rightarrow> 'k \<times> blk_address \<Rightarrow> 'k \<Rightarrow> bool \<Rightarrow> ('k, 'v) node \<Rightarrow> 's
     \<Rightarrow> (bool \<times> bool \<times> ('k, 'v) node \<times> 's) option" where
  "node_delete_key R c junk k underflow n s =
     (case n of
        LeafN l \<Rightarrow> leaf_delete_key c k underflow l \<bind> (\<lambda>(deleted, u, l'). Some (deleted, u, LeafN l', s))
      | InnerN nd \<Rightarrow>
          locate_child_index nd k \<bind> (\<lambda>idx.
          if idx < 0 then Some (False, underflow, InnerN nd, s)
          else
            get_child_rep nd idx \<bind> (\<lambda>a.
            ref_get R a s \<bind> (\<lambda>(child, s1).
            node_delete_key R c junk k underflow child s1 \<bind> (\<lambda>(deleted, u, child', s2).
            if \<not> deleted then ref_close R a child' s2 \<bind> (\<lambda>s3. Some (False, u, InnerN nd, s3))
            else if \<not> u \<or> inner_size nd < 2
            then ref_close R a child' s2 \<bind> (\<lambda>s3. Some (True, u, InnerN nd, s3))
            else inner_fix_underflow R c junk idx child' nd s2 \<bind> (\<lambda>(u', nd', s3).
                 Some (True, u', InnerN nd', s3)))))))"

text \<open>
  Removing a reference closes the node first, which for an inner node gets and removes
  every child: the loop index is the argument \<open>i\<close>.
\<close>

partial_function (option) node_remove ::
  "('s, 'k, 'v) node_ops \<Rightarrow> blk_address \<Rightarrow> ('k, 'v) node \<Rightarrow> nat \<Rightarrow> 's \<Rightarrow> 's option" where
  "node_remove R a n i s =
     (case n of
        LeafN l \<Rightarrow> ref_remove R a s
      | InnerN nd \<Rightarrow>
          if i < inner_size nd then
            do { ch \<leftarrow> get_child_rep nd (int i);
                 (child, s1) \<leftarrow> ref_get R ch s;
                 s2 \<leftarrow> node_remove R ch child 0 s1;
                 node_remove R a n (Suc i) s2 }
          else ref_remove R a s)"

subsection \<open>Printing\<close>

text \<open>\<^verbatim>\<open>toString\<close>; \<open>i\<close> and \<open>ss\<close> are the loop variables of \<^verbatim>\<open>nodes_to_string\<close>.\<close>

partial_function (option) node_print ::
  "('s, 'k, 'v) node_ops \<Rightarrow> ('k \<Rightarrow> string) \<Rightarrow> ('v \<Rightarrow> string) \<Rightarrow> ('k, 'v) node \<Rightarrow> nat \<Rightarrow> string \<Rightarrow> 's
     \<Rightarrow> (string \<times> 's) option" where
  "node_print R sk sv n i ss s =
     (case n of
        LeafN l \<Rightarrow> leaf_toString sk sv l \<bind> (\<lambda>r. Some (r, s))
      | InnerN nd \<Rightarrow>
          if i < inner_size nd then
            do { ch \<leftarrow> get_child_rep nd (int i);
                 (child, s1) \<leftarrow> ref_get R ch s;
                 (r, s2) \<leftarrow> node_print R sk sv child 0 [] s1;
                 s3 \<leftarrow> ref_close R ch child s2;
                 node_print R sk sv n (Suc i)
                   (ss @ ''['' @ r @ '']'' @ (if int i \<noteq> int (inner_size nd) - 1 then '' '' else [])) s3 }
          else do { ks \<leftarrow> keys_to_string sk nd; Some (ks @ '' '' @ ss, s) })"

section \<open>The tree\<close>

record 's vtree =
  root_ref :: blk_address
  depth :: int
  store :: 's

definition vt_init :: "('s, 'k, 'v) node_ops \<Rightarrow> nat \<Rightarrow> 's \<Rightarrow> 's vtree option" where
  "vt_init R c s =
     do { (a, s1) \<leftarrow> allocate_ref R s;
          s2 \<leftarrow> ref_close R a (LeafN (leaf_mark (new_leaf c a))) s1;
          Some \<lparr>root_ref = a, depth = 1, store = s2\<rparr> }"

text \<open>A new root above the two halves of the old one.\<close>

definition vt_grow ::
  "('s, 'k, 'v) node_ops \<Rightarrow> nat \<Rightarrow> ('k, ('k, 'v) node) split \<Rightarrow> 's vtree \<Rightarrow> 's \<Rightarrow> 's vtree option" where
  "vt_grow R c split T s =
     (let left = split_left split; right = split_right split in
      do { (a, s1) \<leftarrow> allocate_ref R s;
           lk \<leftarrow> node_leftmost_key left;
           rk \<leftarrow> node_leftmost_key right;
           n \<leftarrow> new_inner_of c a (lk, node_self left) (rk, node_self right);
           s2 \<leftarrow> ref_close R (node_self left) left s1;
           s3 \<leftarrow> ref_close R (node_self right) right s2;
           s4 \<leftarrow> ref_close R a (InnerN (inner_mark n)) s3;
           Some (T\<lparr>root_ref := a, depth := depth T + 1, store := s4\<rparr>) })"

definition vt_insert ::
  "('s, 'k::linorder, 'v) node_ops \<Rightarrow> nat \<Rightarrow> 'k \<Rightarrow> 'v \<Rightarrow> 's vtree \<Rightarrow> 's vtree option" where
  "vt_insert R c k v T =
     do { (root_instance, s1) \<leftarrow> ref_get R (root_ref T) (store T);
          (root', sp, s2) \<leftarrow> node_iwss R c k v root_instance s1;
          (case sp of
             Some split \<Rightarrow> vt_grow R c split T s2
           | None \<Rightarrow> do { s3 \<leftarrow> ref_close R (root_ref T) root' s2; Some (T\<lparr>store := s3\<rparr>) }) }"

text \<open>
  When the root is left with one child, that child becomes the root.  The old root's
  size is set to 0 before its reference is removed, so that no child is removed with it.
\<close>

definition vt_delete_key ::
  "('s, 'k::linorder, 'v) node_ops \<Rightarrow> nat \<Rightarrow> 'k \<times> blk_address \<Rightarrow> 'k \<Rightarrow> 's vtree \<Rightarrow> (bool \<times> 's vtree) option" where
  "vt_delete_key R c junk k T =
     do { (root_node, s1) \<leftarrow> ref_get R (root_ref T) (store T);
          (ret, underflow, root', s2) \<leftarrow> node_delete_key R c junk k False root_node s1;
          (case root' of
             InnerN nd \<Rightarrow>
               if underflow \<and> inner_size nd = 1 then
                 do { single_child_ref \<leftarrow> get_child_rep nd 0;
                      s3 \<leftarrow> node_remove R (root_ref T) (InnerN (nd\<lparr>inner_size := 0\<rparr>)) 0 s2;
                      Some (ret, T\<lparr>root_ref := single_child_ref, depth := depth T - 1, store := s3\<rparr>) }
               else do { s3 \<leftarrow> ref_close R (root_ref T) root' s2; Some (ret, T\<lparr>store := s3\<rparr>) }
           | LeafN l \<Rightarrow> do { s3 \<leftarrow> ref_close R (root_ref T) root' s2; Some (ret, T\<lparr>store := s3\<rparr>) }) }"

definition vt_search ::
  "('s, 'k::linorder, 'v) node_ops \<Rightarrow> 'k \<Rightarrow> 's vtree \<Rightarrow> ('v option \<times> 's vtree) option" where
  "vt_search R k T =
     do { (n, s1) \<leftarrow> ref_get R (root_ref T) (store T);
          (ret, s2) \<leftarrow> node_search R k n s1;
          s3 \<leftarrow> ref_close R (root_ref T) n s2;
          Some (ret, T\<lparr>store := s3\<rparr>) }"

definition vt_close :: "('s, 'k, 'v) node_ops \<Rightarrow> 's vtree \<Rightarrow> 's option" where
  "vt_close R T =
     do { (n, s1) \<leftarrow> ref_get R (root_ref T) (store T); node_remove R (root_ref T) n 0 s1 }"

definition vt_clear :: "('s, 'k, 'v) node_ops \<Rightarrow> nat \<Rightarrow> 's vtree \<Rightarrow> 's vtree option" where
  "vt_clear R c T = vt_close R T \<bind> vt_init R c"

definition vt_toString ::
  "('s, 'k, 'v) node_ops \<Rightarrow> ('k \<Rightarrow> string) \<Rightarrow> ('v \<Rightarrow> string) \<Rightarrow> 's vtree \<Rightarrow> (string \<times> 's vtree) option" where
  "vt_toString R sk sv T =
     do { (n, s1) \<leftarrow> ref_get R (root_ref T) (store T);
          (ret, s2) \<leftarrow> node_print R sk sv n 0 [] s1;
          s3 \<leftarrow> ref_close R (root_ref T) n s2;
          Some (ret, T\<lparr>store := s3\<rparr>) }"

subsection \<open>Iterators\<close>

text \<open>\<open>key_high\<close> is \<open>None\<close> for an iterator without an upper bound.\<close>

record 'k vt_iterator =
  leaf_node_ref :: blk_address
  offset :: nat
  key_high :: "'k option"

definition vt_get_iterator ::
  "('s, 'k::linorder, 'v) node_ops \<Rightarrow> 's vtree \<Rightarrow> ('k vt_iterator \<times> 's vtree) option" where
  "vt_get_iterator R T =
     do { (n, s1) \<leftarrow> ref_get R (root_ref T) (store T);
          (leaf, s2) \<leftarrow> node_leftmost_leaf R n s1;
          s3 \<leftarrow> ref_close R (root_ref T) n s2;
          Some (\<lparr>leaf_node_ref = leaf, offset = 0, key_high = None\<rparr>, T\<lparr>store := s3\<rparr>) }"

text \<open>\<^verbatim>\<open>range_search\<close> dereferences the reference it got from \<^verbatim>\<open>locate_key\<close>.\<close>

definition vt_range_search ::
  "('s, 'k::linorder, 'v) node_ops \<Rightarrow> 'k \<Rightarrow> 'k \<Rightarrow> 's vtree \<Rightarrow> ('k vt_iterator \<times> 's vtree) option" where
  "vt_range_search R low high T =
     do { (n, s1) \<leftarrow> ref_get R (root_ref T) (store T);
          ((_, located), s2) \<leftarrow> node_locate_key R low n s1;
          (leaf, p) \<leftarrow> located;
          s3 \<leftarrow> ref_close R (root_ref T) n s2;
          Some (\<lparr>leaf_node_ref = leaf, offset = nat p, key_high = Some high\<rparr>, T\<lparr>store := s3\<rparr>) }"

text \<open>
  \<^verbatim>\<open>Iterator::next\<close>: the result, the entry assigned to the reference parameters (if any),
  the iterator and the storage.
\<close>

partial_function (option) iterator_next ::
  "('s, 'k::linorder, 'v) node_ops \<Rightarrow> 'k vt_iterator \<Rightarrow> 's \<Rightarrow> (bool \<times> ('k \<times> 'v) option \<times> 'k vt_iterator \<times> 's) option" where
  "iterator_next R it s =
     (if leaf_node_ref it = -1 then Some (False, None, it, s)
      else
        ref_get R (leaf_node_ref it) s \<bind> (\<lambda>(n, s1).
        case n of
          InnerN _ \<Rightarrow> None
        | LeafN l \<Rightarrow>
            leaf_getEntry l (offset it) \<bind> (\<lambda>e.
            case e of
              Some (k, v) \<Rightarrow>
                ref_close R (leaf_node_ref it) n s1 \<bind> (\<lambda>s2.
                Some (case key_high it of None \<Rightarrow> True | Some h \<Rightarrow> k < h \<or> k = h,
                      Some (k, v), it\<lparr>offset := offset it + 1\<rparr>, s2))
            | None \<Rightarrow>
                if right_sibling l \<noteq> -1 then
                  ref_close R (leaf_node_ref it) n s1 \<bind> (\<lambda>s2.
                  iterator_next R (it\<lparr>leaf_node_ref := right_sibling l, offset := 0\<rparr>) s2)
                else Some (False, None, it, s1))))"

text \<open>The client's loop \<^verbatim>\<open>while (it->next(k, v))\<close>, collecting the entries.\<close>

partial_function (option) iterate ::
  "('s, 'k::linorder, 'v) node_ops \<Rightarrow> 'k vt_iterator \<Rightarrow> 's \<Rightarrow> (('k \<times> 'v) list \<times> 's) option" where
  "iterate R it s =
     iterator_next R it s \<bind> (\<lambda>(ret, e, it', s1).
     if \<not> ret then Some ([], s1)
     else (case e of None \<Rightarrow> None
           | Some kv \<Rightarrow> iterate R it' s1 \<bind> (\<lambda>(rest, s2). Some (kv # rest, s2))))"

end
