(* ===== verification/Tree_Refine.thy ===== *)
theory Tree_Refine
  imports Vanilla_Tree
begin

text \<open>
  The methods of the tree over a node storage that keeps the contract of
  \<^verbatim>\<open>Node_Store\<close> implement the algorithms on trees of \<^verbatim>\<open>BT_Spec\<close>.  The proofs are made
  once for every storage, inside the locale.
\<close>

section \<open>Trees in a storage\<close>

definition child_refs :: "('k, 'v) forest \<Rightarrow> ('k \<times> blk_address) list" where
  "child_refs ts = map (\<lambda>p. (fst p, addr (snd p))) ts"

fun bt_content :: "('k, 'v) bt \<Rightarrow> ('k, 'v) blk_content" where
  "bt_content (BLeaf a xs sib) = LeafC a xs sib"
| "bt_content (BNode a ts) = InnerC a (child_refs ts)"

fun tree_in :: "(blk_address \<Rightarrow> ('k, 'v) blk_content option) \<Rightarrow> ('k, 'v) bt \<Rightarrow> bool" where
  "tree_in m (BLeaf a xs sib) = (m a = Some (LeafC a xs sib))"
| "tree_in m (BNode a ts) = (m a = Some (InnerC a (child_refs ts)) \<and> (\<forall>p\<in>set ts. tree_in m (snd p)))"

fun kids :: "('k, 'v) bt \<Rightarrow> ('k, 'v) forest" where
  "kids (BLeaf a xs sib) = []"
| "kids (BNode a ts) = ts"

abbreviation kids_in :: "(blk_address \<Rightarrow> ('k, 'v) blk_content option) \<Rightarrow> ('k, 'v) bt \<Rightarrow> bool" where
  "kids_in m t \<equiv> \<forall>p\<in>set (kids t). tree_in m (snd p)"

text \<open>The node object at the root of a tree.\<close>

definition node_is :: "nat \<Rightarrow> ('k, 'v) bt \<Rightarrow> ('k, 'v) node \<Rightarrow> bool" where
  "node_is c t n \<longleftrightarrow> node_fits c n \<and> content n = bt_content t"

lemma tree_in_root: "tree_in m t \<longleftrightarrow> m (addr t) = Some (bt_content t) \<and> kids_in m t"
  by (cases t) simp_all

lemma tree_in_cong:
  assumes "tree_in m t" "\<And>a. a \<in> set (addrs t) \<Longrightarrow> m' a = m a"
  shows "tree_in m' t"
  using assms
proof (induction t rule: kvs.induct)
  case (2 a ts)
  have "tree_in m' (snd p)" if p: "p \<in> set ts" for p
    using "2.IH" [OF p] "2.prems" p by auto
  then show ?case using "2.prems" by simp
qed simp

lemma node_isE_leaf:
  assumes "node_is c (BLeaf a xs sib) n" "sorted_keys xs"
  obtains l where "n = LeafN l" "leaf_repr c a xs sib l"
  using assms by (cases n) (auto simp: node_is_def leaf_repr_def leaf_ok_def)

lemma node_isE_node:
  assumes "node_is c (BNode a ts) n" "separated ts"
  obtains nd where "n = InnerN nd" "inner_repr c a (child_refs ts) nd"
proof (cases n)
  case (LeafN l)
  then show thesis using assms by (simp add: node_is_def)
next
  case (InnerN nd)
  have "sorted_keys (child_refs ts)"
    using separated_sorted [OF assms(2)] by (simp add: child_refs_def comp_def)
  with InnerN assms show thesis by (intro that [of nd]) (auto simp: node_is_def inner_repr_def)
qed

lemma leaf_repr_node_is: "leaf_repr c a xs sib l \<Longrightarrow> node_is c (BLeaf a xs sib) (LeafN l)"
  by (auto simp: node_is_def leaf_repr_def leaf_ok_def)

lemma inner_repr_node_is: "inner_repr c a (child_refs ts) n \<Longrightarrow> node_is c (BNode a ts) (InnerN n)"
  by (auto simp: node_is_def inner_repr_def)

lemma node_is_self: "node_is c t n \<Longrightarrow> node_self n = addr t"
  by (cases t; cases n) (auto simp: node_is_def)

lemma child_refs_simps [simp]:
  "length (child_refs ts) = length ts" "keys (child_refs ts) = keys ts"
  "i < length ts \<Longrightarrow> child_refs ts ! i = (fst (ts ! i), addr (snd (ts ! i)))"
  "child_index k (child_refs ts) = child_index k ts" "rank k (child_refs ts) = rank k ts"
  by (auto simp: child_refs_def image_image child_index_def rank_def filter_map comp_def)

lemma addr_in_addrs [simp]: "addr t \<in> set (addrs t)"
  by (cases t) simp_all

lemma linked_sibs: "linked L r \<Longrightarrow> l \<in> set L \<Longrightarrow> snd (snd l) = r \<or> snd (snd l) \<in> fst ` set L"
proof (induction L r rule: linked.induct)
  case (2 a xs sib ls r)
  then show ?case by (cases ls) (auto simp: first_leaf_def)
qed simp

lemma leafseq_addrs: "fst ` set (leafseq t) \<subseteq> set (addrs t)"
proof (induction t rule: kvs.induct)
  case (2 a ts)
  then show ?case by (simp add: image_UN) blast
qed simp

section \<open>Reading\<close>

context node_store
begin

definition quiet :: "'s \<Rightarrow> 's \<Rightarrow> bool" where
  "quiet s s' \<longleftrightarrow> inv s' \<and> room s' = room s \<and> blocks s' = blocks s \<and> owned s' = owned s"

lemma quiet_trans: "quiet s s' \<Longrightarrow> quiet s' s'' \<Longrightarrow> quiet s s''"
  by (simp add: quiet_def)

lemma get_node:
  assumes "inv s" "tree_in (blocks s) t"
  obtains n s' where "ref_get R (addr t) s = Some (n, s')" "quiet s s'" "node_is cap t n"
  using get [OF assms(1), of "addr t" "bt_content t"] assms(2) tree_in_root [of "blocks s" t]
  by (auto simp: quiet_def node_is_def)

lemma close_same:
  assumes "inv s" "tree_in (blocks s) t" "node_is cap t n"
  obtains s' where "ref_close R (addr t) n s = Some s'" "quiet s s'"
proof -
  have b: "blocks s (addr t) = Some (content n)"
    using assms(2,3) tree_in_root [of "blocks s" t] by (simp add: node_is_def)
  then have "addr t \<in> owned s" using owned_blocks [OF assms(1)] by auto
  then show thesis
    using close [of s "addr t" n] assms(1,3) b that node_is_self [OF assms(3)]
    by (auto simp: quiet_def node_is_def fun_upd_idem)
qed

text \<open>Descending to the child of a key.\<close>

lemma child_ref:
  assumes ok: "bt_ok cap (BNode a ts)" and n: "inner_repr cap a (child_refs ts) nd" and k: "0 \<le> child_index k ts"
  defines "i \<equiv> nat (child_index k ts)"
  shows "i < length ts" "locate_child_index nd k = Some (child_index k ts)"
    "get_child_rep nd (child_index k ts) = Some (addr (snd (ts ! i)))" "ts ! i \<in> set ts"
proof -
  show i: "i < length ts" using child_entries(1) [OF _ k] ok by (simp add: i_def)
  then show "ts ! i \<in> set ts" by simp
  show "locate_child_index nd k = Some (child_index k ts)" using locate_child_index_spec [OF n] by simp
  show "get_child_rep nd (child_index k ts) = Some (addr (snd (ts ! i)))"
    using inner_repr_aget(2) [OF n, of i] i k by (simp add: get_child_rep_def i_def)
qed

lemma node_search_ok:
  assumes "inv s" "bt_ok cap t" "node_is cap t n" "kids_in (blocks s) t"
  shows "\<exists>s'. node_search R k n s = Some (map_of (kvs t) k, s') \<and> quiet s s'"
  using assms
proof (induction t arbitrary: n s rule: kvs.induct)
  case (1 a xs sib)
  then obtain l where l: "n = LeafN l" "leaf_repr cap a xs sib l" by (auto elim: node_isE_leaf)
  then show ?case
    using leaf_search_spec [OF l(2), of k] 1 by (subst node_search.simps) (simp add: quiet_def)
next
  case (2 a ts)
  have sep: "separated ts" using "2.prems"(2) by simp
  obtain nd where nd: "n = InnerN nd" "inner_repr cap a (child_refs ts) nd"
    using node_isE_node [OF "2.prems"(3) sep] .
  show ?case
  proof (cases "child_index k ts < 0")
    case True
    have "k \<notin> keys (forest_kvs ts)" using child_index_neg [OF sep True] keys_forest_kvs [of ts] by blast
    then have "map_of (forest_kvs ts) k = None" by (simp add: map_of_eq_None_iff)
    then show ?thesis
      using nd locate_child_index_spec [OF nd(2), of k] True "2.prems"(1)
      by (subst node_search.simps) (simp add: quiet_def)
  next
    case False
    then have k: "0 \<le> child_index k ts" by simp
    define i where "i = nat (child_index k ts)"
    note C = child_ref [OF "2.prems"(2) nd(2) k, folded i_def]
    let ?t = "snd (ts ! i)"
    have t: "tree_in (blocks s) ?t" "bt_ok cap ?t" using "2.prems"(2,4) C(4) by auto
    obtain child s1 where g: "ref_get R (addr ?t) s = Some (child, s1)" "quiet s s1" "node_is cap ?t child"
      using get_node [OF "2.prems"(1) t(1)] .
    have i1: "inv s1" "tree_in (blocks s1) ?t" using g(2) t(1) by (simp_all add: quiet_def)
    obtain s2 where r: "node_search R k child s1 = Some (map_of (kvs ?t) k, s2)" "quiet s1 s2"
      using "2.IH" [OF C(4) i1(1) t(2) g(3)] i1(2) tree_in_root by blast
    have i2: "inv s2" "tree_in (blocks s2) ?t" using r(2) i1(2) by (simp_all add: quiet_def)
    obtain s3 where c: "ref_close R (addr ?t) child s2 = Some s3" "quiet s2 s3"
      using close_same [OF i2 g(3)] .
    have "node_search R k n s = Some (map_of (kvs ?t) k, s3)"
      using nd C(2,3) g(1) r(1) c(1) False by (subst node_search.simps) simp
    moreover have "map_of (kvs ?t) k = map_of (forest_kvs ts) k"
      using child_entries(4) [OF sep k] by (simp add: i_def)
    ultimately show ?thesis using g(2) r(2) c(2) by (auto intro: quiet_trans)
  qed
qed

end

section \<open>Writing nodes back\<close>

lemma forest_content_refs:
  assumes "linked (forest_leaves F) r" "p \<in> set F"
  shows "content_refs (bt_content (snd p)) \<subseteq> insert r (set (forest_addrs F))"
proof (cases "snd p")
  case (BLeaf a xs sib)
  then have mem: "(a, xs, sib) \<in> set (forest_leaves F)" using assms(2) by force
  have "fst ` set (forest_leaves F) \<subseteq> set (forest_addrs F)" using leafseq_addrs by (simp add: image_UN) blast
  then have "sib \<in> insert r (set (forest_addrs F))" using linked_sibs [OF assms(1) mem] by auto
  moreover have "a \<in> set (forest_addrs F)" using assms(2) BLeaf by force
  ultimately show ?thesis using BLeaf by simp
next
  case (BNode a ts)
  then have "set (addrs (BNode a ts)) \<subseteq> set (forest_addrs F)" using assms(2) by force
  moreover have "addr (snd q) \<in> set (addrs (BNode a ts))" if "q \<in> set ts" for q using that by force
  then have "content_refs (bt_content (BNode a ts)) \<subseteq> set (addrs (BNode a ts))"
    unfolding bt_content.simps content_refs.simps child_refs_def set_map image_image snd_conv by auto
  ultimately show ?thesis unfolding BNode by blast
qed

lemma tree_in_upd_other: "tree_in m t \<Longrightarrow> a \<notin> set (addrs t) \<Longrightarrow> tree_in (m(a \<mapsto> b)) t"
  by (rule tree_in_cong [of m]) auto

context node_store
begin

text \<open>Closing the reference to the root object of a tree whose children are stored.\<close>

lemma close_node:
  assumes "inv s" "node_is cap t n" "addr t \<in> owned s" "kids_in (blocks s) t" "distinct (addrs t)"
    and "is_modified n \<and> (\<forall>x\<in>content_refs (bt_content t). valid_ref x) \<or> blocks s (addr t) = Some (bt_content t)"
  obtains s' where "ref_close R (addr t) n s = Some s'" "inv s'" "room s' = room s" "owned s' = owned s"
    "blocks s' = (blocks s)(addr t \<mapsto> bt_content t)" "tree_in (blocks s') t"
proof -
  have c: "content n = bt_content t" "node_fits cap n" using assms(2) by (simp_all add: node_is_def)
  obtain s' where s': "ref_close R (addr t) n s = Some s'" "inv s'" "room s' = room s" "owned s' = owned s"
    "blocks s' = (blocks s)(addr t \<mapsto> bt_content t)"
    using close [OF assms(1,3) c(2) node_is_self [OF assms(2)]] assms(6) c(1) by auto
  have "tree_in (blocks s') (snd p)" if p: "p \<in> set (kids t)" for p
  proof -
    have "addr t \<notin> set (addrs (snd p))" using assms(5) p by (cases t) auto
    then show ?thesis using assms(4) p tree_in_upd_other unfolding s'(5) by blast
  qed
  then have "tree_in (blocks s') t" unfolding tree_in_root [of _ t] using s'(5) by simp
  with s' show thesis by (rule that)
qed

definition ins_post ::
  "('k, 'v) bt \<Rightarrow> 's \<Rightarrow> ('k, 'v) node \<Rightarrow> ('k, ('k, 'v) node) split option \<Rightarrow> 's
     \<Rightarrow> blk_address list \<Rightarrow> ('k, 'v) bt \<Rightarrow> ('k \<times> ('k, 'v) bt) option \<Rightarrow> bool" where
  "ins_post t s n' sp s' us t' tsp \<longleftrightarrow>
     inv s' \<and> owned s' = owned s \<union> set us \<and> set us \<inter> owned s = {} \<and> distinct us \<and> (\<forall>a\<in>set us. valid_ref a \<and> a \<noteq> -1)
     \<and> node_is cap t' n' \<and> kids_in (blocks s') t' \<and> (is_modified n' \<or> tsp = None \<and> bt_content t' = bt_content t)
     \<and> (case tsp of None \<Rightarrow> sp = None
        | Some (b, rt) \<Rightarrow> \<exists>rn. sp = Some \<lparr>split_left = n', split_right = rn, boundary_key = b\<rparr>
            \<and> node_is cap rt rn \<and> kids_in (blocks s') rt \<and> is_modified rn)
     \<and> (\<forall>x. x \<notin> set (addrs t) \<union> set us \<longrightarrow> blocks s' x = blocks s x) \<and> blocks s' (addr t) = blocks s (addr t)"

definition tree_env :: "'s \<Rightarrow> ('k, 'v) bt \<Rightarrow> blk_address \<Rightarrow> bool" where
  "tree_env s t r \<longleftrightarrow> distinct (addrs t) \<and> set (addrs t) \<subseteq> owned s \<and> (\<forall>a\<in>set (addrs t). valid_ref a \<and> a \<noteq> -1)
     \<and> linked (leafseq t) r \<and> valid_ref r"

lemma leaf_iwss_ok:
  assumes inv: "inv s" and l: "leaf_repr cap a xs sib l" and c: "2 \<le> cap" and rm: "room s (Suc m)"
    and a: "a \<in> owned s" "valid_ref sib"
  shows "\<exists>n' sp us t' tsp s'. leaf_iwss R cap k v l s = Some (n', sp, s')
     \<and> (\<forall>rest. bt_ins cap k v (us @ rest) (BLeaf a xs sib) = (t', tsp, rest))
     \<and> room s' m \<and> ins_post (BLeaf a xs sib) s n' sp s' us t' tsp"
proof (cases "ins_split cap k v xs")
  case (Pair ys spl)
  have must: "leaf_must_split cap k l = Some (spl \<noteq> None)"
    using leaf_repr_position [OF l, of k] leaf_reprD(6) [OF l] Pair
    by (auto simp: leaf_must_split_def ins_split_def split: if_splits)
  show ?thesis
  proof (cases spl)
    case None
    obtain l' where l': "leaf_insert_with_split_support cap (-1) k v l = Some (l', None)"
      "leaf_repr cap a ys sib l'" "leaf_modified l'"
      using leaf_iwss_spec [OF l c, where k = k and v = v and rr = "-1"] Pair None by auto
    have "leaf_iwss R cap k v l s = Some (LeafN l', None, s)"
      using must l'(1) None by (simp add: leaf_iwss_def)
    moreover have "bt_ins cap k v ([] @ rest) (BLeaf a xs sib) = (BLeaf a ys sib, None, rest)" for rest
      using Pair None by simp
    moreover have "ins_post (BLeaf a xs sib) s (LeafN l') None s [] (BLeaf a ys sib) None"
      using inv l'(3) leaf_repr_node_is [OF l'(2)] by (simp add: ins_post_def)
    moreover have "room s m" using room_mono [OF rm] by simp
    ultimately show ?thesis by blast
  next
    case (Some zs)
    obtain f s1 where f: "allocate_ref R s = Some (f, s1)" "inv s1" "room s1 m" "\<forall>x. x \<noteq> f \<longrightarrow> blocks s1 x = blocks s x"
      "f \<notin> owned s" "owned s1 = insert f (owned s)" "valid_ref f" "f \<noteq> -1"
      using alloc [OF inv rm] by blast
    obtain l' r' where l': "leaf_insert_with_split_support cap f k v l
          = Some (l', Some \<lparr>split_left = l', split_right = r', boundary_key = fst (hd zs)\<rparr>)"
      "leaf_repr cap a ys f l'" "leaf_repr cap f zs sib r'" "leaf_modified l'" "leaf_modified r'"
      using leaf_iwss_spec [OF l c, where k = k and v = v and rr = f] Pair Some by auto
    have "leaf_iwss R cap k v l s = Some (LeafN l',
        Some \<lparr>split_left = LeafN l', split_right = LeafN r', boundary_key = fst (hd zs)\<rparr>, s1)"
      using must l'(1) f(1) Some by (simp add: leaf_iwss_def)
    moreover have "bt_ins cap k v ([f] @ rest) (BLeaf a xs sib)
        = (BLeaf a ys f, Some (fst (hd zs), BLeaf f zs sib), rest)" for rest
      using Pair Some by simp
    moreover have "ins_post (BLeaf a xs sib) s (LeafN l')
        (Some \<lparr>split_left = LeafN l', split_right = LeafN r', boundary_key = fst (hd zs)\<rparr>) s1 [f]
        (BLeaf a ys f) (Some (fst (hd zs), BLeaf f zs sib))"
      using f a(1) l'(4,5) leaf_repr_node_is [OF l'(2)] leaf_repr_node_is [OF l'(3)] by (auto simp: ins_post_def)
    ultimately show ?thesis using f(3) by blast
  qed
qed

end

section \<open>Insertion\<close>

lemma child_refs_append [simp]: "child_refs (xs @ ys) = child_refs xs @ child_refs ys"
  and child_refs_Cons [simp]: "child_refs (p # xs) = (fst p, addr (snd p)) # child_refs xs"
  and child_refs_take: "child_refs (take n xs) = take n (child_refs xs)"
  and child_refs_drop: "child_refs (drop n xs) = drop n (child_refs xs)"
  by (simp_all add: child_refs_def take_map drop_map)

lemma child_refs_kv_put: "kv_put b (addr r) (child_refs xs) = child_refs (kv_put b r xs)"
  by (simp add: kv_put_def child_refs_def filter_map comp_def)

lemma ins_child_refs:
  "ins_child c b (addr r) (child_refs xs) = map_prod child_refs (map_option child_refs) (ins_child c b r xs)"
  unfolding ins_child_def child_refs_take [symmetric] child_refs_drop [symmetric] child_refs_kv_put by simp

context node_store
begin

lemma close_pair:
  assumes inv: "inv s" and n: "node_is cap t1 n1" "node_is cap t2 n2" "is_modified n1" "is_modified n2"
    and kids: "kids_in (blocks s) t1" "kids_in (blocks s) t2"
    and d: "distinct (addrs t1 @ addrs t2)" "set (addrs t1 @ addrs t2) \<subseteq> owned s"
    and valid: "\<forall>x\<in>content_refs (bt_content t1) \<union> content_refs (bt_content t2). valid_ref x"
  obtains s1 s2 where "ref_close R (addr t1) n1 s = Some s1" "ref_close R (addr t2) n2 s1 = Some s2" "inv s2"
    "room s2 = room s" "owned s2 = owned s" "tree_in (blocks s2) t1" "tree_in (blocks s2) t2"
    "blocks s2 = (blocks s)(addr t1 \<mapsto> bt_content t1, addr t2 \<mapsto> bt_content t2)"
proof -
  have o: "addr t1 \<in> owned s" "addr t2 \<in> owned s" using d(2) addr_in_addrs [of t1] addr_in_addrs [of t2] by auto
  have disj: "addr t1 \<notin> set (addrs t2)" "addr t2 \<notin> set (addrs t1)"
    using d(1) addr_in_addrs [of t1] addr_in_addrs [of t2] unfolding distinct_append by blast+
  obtain s1 where s1: "ref_close R (addr t1) n1 s = Some s1" "inv s1" "room s1 = room s" "owned s1 = owned s"
    "blocks s1 = (blocks s)(addr t1 \<mapsto> bt_content t1)" "tree_in (blocks s1) t1"
    using close_node [OF inv n(1) o(1) kids(1)] d(1) n(3) valid by auto
  have "kids_in (blocks s1) t2"
  proof
    fix p assume p: "p \<in> set (kids t2)"
    then have "addr t1 \<notin> set (addrs (snd p))" using disj(1) by (cases t2) auto
    then show "tree_in (blocks s1) (snd p)" using kids(2) p tree_in_upd_other unfolding s1(5) by blast
  qed
  then obtain s2 where s2: "ref_close R (addr t2) n2 s1 = Some s2" "inv s2" "room s2 = room s1" "owned s2 = owned s1"
    "blocks s2 = (blocks s1)(addr t2 \<mapsto> bt_content t2)" "tree_in (blocks s2) t2"
    using close_node [OF s1(2) n(2)] d(1) n(4) valid o(2) s1(4) by auto
  have "tree_in (blocks s2) t1" using tree_in_upd_other [OF s1(6) disj(2)] unfolding s2(5) .
  with s1 s2 show thesis by (intro that [of s1 s2]) simp_all
qed

lemma kids_other:
  assumes "kids_in m t" "f \<notin> set (addrs t)" "\<forall>x. x \<noteq> f \<longrightarrow> m' x = m x"
  shows "kids_in m' t"
proof
  fix p assume p: "p \<in> set (kids t)"
  then have "set (addrs (snd p)) \<subseteq> set (addrs t)" by (cases t) auto
  then show "tree_in m' (snd p)" using assms p by (intro tree_in_cong [of m "snd p" m']) auto
qed

lemma inner_iwss_split_ok:
  assumes inv: "inv s" and rm: "room s (Suc m)" and c: "2 \<le> cap"
    and nd: "inner_repr cap a (child_refs (ls @ (x, t1) # rs)) nd"
    and sep: "separated (ls @ (x, t1) # (b, t2) # rs)"
    and n: "node_is cap t1 n1" "node_is cap t2 n2" "is_modified n1" "is_modified n2"
    and kids: "kids_in (blocks s) t1" "kids_in (blocks s) t2"
    and d: "distinct (addrs t1 @ addrs t2)" "set (addrs t1 @ addrs t2) \<subseteq> owned s"
    and valid: "\<forall>x\<in>content_refs (bt_content t1) \<union> content_refs (bt_content t2). valid_ref x"
    and sp: "sp = \<lparr>split_left = n1, split_right = n2, boundary_key = b\<rparr>" and i: "i = length ls"
  shows "\<exists>nd' sp' s' us. inner_iwss_split R cap (int i) sp nd s = Some (InnerN nd', sp', s')
     \<and> inv s' \<and> room s' m \<and> owned s' = owned s \<union> set us \<and> tree_in (blocks s') t1 \<and> tree_in (blocks s') t2
     \<and> (\<forall>x. x \<notin> insert (addr t1) (insert (addr t2) (set us)) \<longrightarrow> blocks s' x = blocks s x) \<and> inner_modified nd'
     \<and> set us \<inter> owned s = {}
     \<and> (case ins_child cap b t2 (ls @ (x, t1) # rs) of
          (fs, None) \<Rightarrow> us = [] \<and> sp' = None \<and> inner_repr cap a (child_refs fs) nd'
        | (fs, Some ws) \<Rightarrow> \<exists>f rd. us = [f] \<and> f \<notin> owned s \<and> valid_ref f \<and> f \<noteq> -1 \<and> ws \<noteq> []
            \<and> sp' = Some \<lparr>split_left = InnerN nd', split_right = InnerN rd, boundary_key = fst (hd ws)\<rparr>
            \<and> inner_repr cap a (child_refs fs) nd' \<and> inner_repr cap f (child_refs ws) rd \<and> inner_modified rd)"
proof -
  let ?xs = "ls @ (x, t1) # rs"
  note here = kv_put_here [OF sep]
  have b: "b \<notin> keys (child_refs ?xs)" "rank b (child_refs ?xs) = Suc i"
    using here(2,3) i unfolding child_refs_simps by simp_all
  note spec = inner_take_split_spec [OF nd c b, where ch = "addr t2", unfolded ins_child_refs]
  have sz: "inner_size nd = length ?xs" using inner_reprD(4) [OF nd] by simp
  have self: "node_self n1 = addr t1" "node_self n2 = addr t2" using n(1,2) by (simp_all add: node_is_self)
  show ?thesis
  proof (cases "length ?xs < cap")
    case True
    then obtain fs where fs: "ins_child cap b t2 ?xs = (fs, None)" by (simp add: ins_child_def)
    obtain nd' where nd': "inner_take_split cap (-1) (int i) b (addr t2) nd = Some (nd', None)"
      "inner_repr cap a (child_refs fs) nd'" "inner_modified nd'"
      using spec [of "-1"] fs by auto
    obtain s1 s2 where s: "ref_close R (addr t1) n1 s = Some s1" "ref_close R (addr t2) n2 s1 = Some s2" "inv s2"
      "room s2 = room s" "owned s2 = owned s" "tree_in (blocks s2) t1" "tree_in (blocks s2) t2"
      "blocks s2 = (blocks s)(addr t1 \<mapsto> bt_content t1, addr t2 \<mapsto> bt_content t2)"
      by (rule close_pair [OF inv n kids d valid])
    have "inner_iwss_split R cap (int i) sp nd s = Some (InnerN nd', None, s2)"
      using True sz nd'(1) s(1,2) self sp by (simp add: inner_iwss_split_def)
    moreover have "room s2 m" using room_mono [OF rm] s(4) by simp
    ultimately show ?thesis using s nd' fs
      by (intro exI [of _ nd'] exI [of _ None] exI [of _ s2] exI [of _ "[]"]) simp
  next
    case False
    then obtain fs ws where fs: "ins_child cap b t2 ?xs = (fs, Some ws)"
      by (cases "rank b ?xs \<le> cap div 2") (auto simp: ins_child_def)
    obtain f s0 where f: "allocate_ref R s = Some (f, s0)" "inv s0" "room s0 m" "\<forall>x. x \<noteq> f \<longrightarrow> blocks s0 x = blocks s x"
      "f \<notin> owned s" "owned s0 = insert f (owned s)" "valid_ref f" "f \<noteq> -1"
      using alloc [OF inv rm] by blast
    obtain nd' rd where nd': "inner_take_split cap f (int i) b (addr t2) nd
        = Some (nd', Some \<lparr>split_left = nd', split_right = rd, boundary_key = fst (hd (child_refs ws))\<rparr>)"
      "inner_repr cap a (child_refs fs) nd'" "inner_repr cap f (child_refs ws) rd" "child_refs ws \<noteq> []"
      "inner_modified nd'" "inner_modified rd"
      using spec [of f] fs by auto
    have ws: "ws \<noteq> []" "fst (hd (child_refs ws)) = fst (hd ws)"
      using nd'(4) by (auto simp: child_refs_def hd_map)
    have nf: "f \<notin> set (addrs t1)" "f \<notin> set (addrs t2)" using d(2) f(5) by auto
    have "kids_in (blocks s0) t1" "kids_in (blocks s0) t2"
      using kids_other [OF kids(1) nf(1) f(4)] kids_other [OF kids(2) nf(2) f(4)] by simp_all
    moreover have "set (addrs t1 @ addrs t2) \<subseteq> owned s0" using d(2) f(6) by auto
    ultimately obtain s1 s2 where s: "ref_close R (addr t1) n1 s0 = Some s1" "ref_close R (addr t2) n2 s1 = Some s2" "inv s2"
      "room s2 = room s0" "owned s2 = owned s0" "tree_in (blocks s2) t1" "tree_in (blocks s2) t2"
      "blocks s2 = (blocks s0)(addr t1 \<mapsto> bt_content t1, addr t2 \<mapsto> bt_content t2)"
      by (rule close_pair [OF f(2) n _ _ d(1) _ valid])
    let ?sp = "\<lparr>split_left = InnerN nd', split_right = InnerN rd, boundary_key = fst (hd ws)\<rparr>"
    have "inner_iwss_split R cap (int i) sp nd s = Some (InnerN nd', Some ?sp, s2)"
      using False sz nd'(1) s(1,2) f(1) self sp ws by (simp add: inner_iwss_split_def)
    then show ?thesis using s nd' fs f ws
      by (intro exI [of _ nd'] exI [of _ "Some ?sp"] exI [of _ s2] exI [of _ "[f]"]) simp
  qed
qed

end

context node_store
begin

lemma ins_forest:
  assumes env: "tree_env s t r" and ok: "bt_ok cap t" "2 \<le> cap"
    and ins: "\<forall>rest. bt_ins cap k v (us @ rest) t = (t', tsp, rest)"
    and P: "owned s' = owned s \<union> set us" "set us \<inter> owned s = {}" "distinct us" "\<forall>a\<in>set us. valid_ref a \<and> a \<noteq> -1"
    and G_def: "G = grown x t' tsp"
  shows "distinct (forest_addrs G)" "set (forest_addrs G) = set (addrs t) \<union> set us"
    "set (forest_addrs G) \<subseteq> owned s'" "\<forall>y\<in>set (forest_addrs G). valid_ref y \<and> y \<noteq> -1"
    "\<forall>p\<in>set G. \<forall>y\<in>content_refs (bt_content (snd p)). valid_ref y"
    "linked (forest_leaves G) r" "addr t' = addr t"
proof -
  have E: "distinct (addrs t)" "set (addrs t) \<subseteq> owned s" "\<forall>a\<in>set (addrs t). valid_ref a \<and> a \<noteq> -1"
    "linked (leafseq t) r" "valid_ref r" using env unfolding tree_env_def by blast+
  have eq: "bt_ins cap k v (us @ [0]) t = (t', tsp, [0])" using ins by blast
  obtain us' where "us @ [0] = us' @ [0]" "mset (forest_addrs G) = mset (addrs t) + mset us'"
    using bt_ins_addrs [OF ok eq, of x] unfolding G_def by auto
  then have m: "mset (forest_addrs G) = mset (addrs t @ us)" by simp
  show set: "set (forest_addrs G) = set (addrs t) \<union> set us" using mset_eq_setD [OF m] by simp
  show "distinct (forest_addrs G)" using mset_eq_imp_distinct_iff [OF m] E(1,2) P(2,3) by auto
  show own: "set (forest_addrs G) \<subseteq> owned s'" using set E(2) P(1) by blast
  show v: "\<forall>y\<in>set (forest_addrs G). valid_ref y \<and> y \<noteq> -1" unfolding set using E(3) P(4) by blast
  show l: "linked (forest_leaves G) r" using bt_ins_linked [OF ok E(4) eq] unfolding G_def by blast
  show "\<forall>p\<in>set G. \<forall>y\<in>content_refs (bt_content (snd p)). valid_ref y"
    using forest_content_refs [OF l] v E(5) by blast
  show "addr t' = addr t" using bt_ins_addr [OF eq] .
qed

lemma ins_post_forest:
  assumes env: "tree_env s t r" and ok: "bt_ok cap t" "2 \<le> cap"
    and ins: "\<forall>rest. bt_ins cap k v (us @ rest) t = (t', tsp, rest)"
    and post: "ins_post t s n' sp s' us t' tsp"
    and G_def: "G = grown x t' tsp"
  shows "distinct (forest_addrs G)" "set (forest_addrs G) = set (addrs t) \<union> set us"
    "set (forest_addrs G) \<subseteq> owned s'" "\<forall>y\<in>set (forest_addrs G). valid_ref y \<and> y \<noteq> -1"
    "\<forall>p\<in>set G. \<forall>y\<in>content_refs (bt_content (snd p)). valid_ref y"
    "linked (forest_leaves G) r" "addr t' = addr t"
proof -
  have "owned s' = owned s \<union> set us" "set us \<inter> owned s = {}" "distinct us" "\<forall>a\<in>set us. valid_ref a \<and> a \<noteq> -1"
    using post unfolding ins_post_def by blast+
  note F = ins_forest [OF env ok ins this G_def]
  show "distinct (forest_addrs G)" "set (forest_addrs G) = set (addrs t) \<union> set us"
    "set (forest_addrs G) \<subseteq> owned s'" "\<forall>y\<in>set (forest_addrs G). valid_ref y \<and> y \<noteq> -1"
    "\<forall>p\<in>set G. \<forall>y\<in>content_refs (bt_content (snd p)). valid_ref y"
    "linked (forest_leaves G) r" "addr t' = addr t" by (fact F)+
qed

text \<open>The siblings of a child and the block of their parent are not affected by changes below the child.\<close>

lemma child_frame:
  assumes env: "tree_env s (BNode a ts) r" and kids: "\<forall>p\<in>set ts. tree_in m (snd p)" and i: "i < length ts"
    and us: "set us \<inter> owned s = {}"
    and frame: "\<forall>x. x \<notin> set (addrs (snd (ts ! i))) \<union> set us \<longrightarrow> m' x = m x"
  shows "\<forall>p\<in>set (take i ts) \<union> set (drop (Suc i) ts). tree_in m' (snd p)" "m' a = m a"
    "\<forall>x. x \<notin> set (addrs (BNode a ts)) \<union> set us \<longrightarrow> m' x = m x"
    "tree_env s (snd (ts ! i)) (first_leaf (forest_leaves (drop (Suc i) ts)) r)"
proof -
  let ?t = "snd (ts ! i)"
  have E: "distinct (addrs (BNode a ts))" "set (addrs (BNode a ts)) \<subseteq> owned s"
    "\<forall>a\<in>set (addrs (BNode a ts)). valid_ref a \<and> a \<noteq> -1" "linked (forest_leaves ts) r" "valid_ref r"
    using env unfolding tree_env_def by simp_all
  have split: "forest_addrs ts = forest_addrs (take i ts) @ addrs ?t @ forest_addrs (drop (Suc i) ts)"
    using i by (rule concat_map_nth)
  have dist: "a \<notin> set (forest_addrs ts)" "distinct (forest_addrs (take i ts) @ addrs ?t @ forest_addrs (drop (Suc i) ts))"
    using E(1) split by auto
  have sub: "set (addrs ?t) \<subseteq> set (forest_addrs ts)" unfolding split by auto
  show "\<forall>p\<in>set (take i ts) \<union> set (drop (Suc i) ts). tree_in m' (snd p)"
  proof
    fix p assume p: "p \<in> set (take i ts) \<union> set (drop (Suc i) ts)"
    have mem: "p \<in> set ts" using p set_take_subset [of i ts] set_drop_subset [of "Suc i" ts] by blast
    have "set (addrs (snd p)) \<subseteq> set (forest_addrs (take i ts)) \<union> set (forest_addrs (drop (Suc i) ts))"
      using p by auto
    then have "set (addrs (snd p)) \<inter> set (addrs ?t) = {}" using dist(2) unfolding distinct_append set_append by blast
    moreover have "set (addrs (snd p)) \<inter> set us = {}" using mem E(2) us by fastforce
    ultimately have "m' x = m x" if "x \<in> set (addrs (snd p))" for x using frame that by blast
    then show "tree_in m' (snd p)" using kids mem tree_in_cong by blast
  qed
  have "a \<notin> set us" using E(2) us by auto
  then show "m' a = m a" using frame dist(1) sub by blast
  show "\<forall>x. x \<notin> set (addrs (BNode a ts)) \<union> set us \<longrightarrow> m' x = m x" using frame sub by auto
  let ?r = "first_leaf (forest_leaves (drop (Suc i) ts)) r"
  have "linked (leafseq ?t) ?r"
    using E(4) concat_map_nth [OF i, of "\<lambda>p. leafseq (snd p)"] by (simp add: linked_append first_leaf_append)
  moreover have "valid_ref ?r"
  proof (cases "forest_leaves (drop (Suc i) ts)")
    case (Cons l ls)
    then have "fst l \<in> fst ` set (forest_leaves (drop (Suc i) ts))" by simp
    also have "\<dots> \<subseteq> set (forest_addrs (drop (Suc i) ts))" using leafseq_addrs by (simp add: image_UN) blast
    finally have "fst l \<in> set (addrs (BNode a ts))" using split by auto
    then have "valid_ref (fst l)" using E(3) by blast
    then show ?thesis using Cons by (simp add: first_leaf_def)
  next
    case Nil
    show ?thesis using E(5) unfolding first_leaf_def Nil by simp
  qed
  ultimately show "tree_env s ?t ?r"
    using E dist(2) split unfolding tree_env_def by auto
qed

end

lemma ins_child_set:
  assumes "ins_child c b r xs = (us, wo)"
  shows "set us \<union> (case wo of None \<Rightarrow> {} | Some ws \<Rightarrow> set ws) \<subseteq> insert (b, r) (set xs)"
  using assms set_take_subset [of "c div 2" xs] set_drop_subset [of "c div 2" xs]
  by (auto simp: ins_child_def kv_put_def split: if_splits)

context node_store
begin

lemma first_key_ok:
  assumes ok: "bt_ok cap (BNode a ts)" and nd: "inner_repr cap a (child_refs ts) nd"
    and i: "i = nat (child_index k ts)" and x: "x = (if child_index k ts < 0 then k else fst (ts ! i))"
  shows "\<exists>nd1. (if child_index k ts < 0 then inner_set_first_key k nd else Some nd) = Some nd1
     \<and> inner_repr cap a (child_refs (ts[i := (x, snd (ts ! i))])) nd1
     \<and> (inner_modified nd1 \<or> nd1 = nd \<and> ts[i := (x, snd (ts ! i))] = ts)"
proof (cases "child_index k ts < 0")
  case True
  obtain p ps where ts: "ts = p # ps" using ok by (cases ts) auto
  have "filter (\<lambda>e. fst e \<le> k) ts = []" using True by (simp add: child_index_def)
  then have "k < fst p" using ts by (simp add: not_le split: if_splits)
  moreover have "inner_repr cap a ((fst p, addr (snd p)) # child_refs ps) nd" using nd ts by simp
  ultimately obtain nd1 where "inner_set_first_key k nd = Some nd1"
    "inner_repr cap a ((k, addr (snd p)) # child_refs ps) nd1" "inner_modified nd1"
    using inner_set_first_key_spec by blast
  then show ?thesis using True i x ts by simp
next
  case False
  then show ?thesis using nd x by simp
qed

lemma node_iwss_ok:
  assumes "inv s" "bt_ok cap t" "2 \<le> cap" "bt_height h t" "room s (Suc h + m)"
    and "node_is cap t n" "kids_in (blocks s) t" "tree_env s t r"
  shows "\<exists>n' sp us t' tsp s'. node_iwss R cap k v n s = Some (n', sp, s')
     \<and> (\<forall>rest. bt_ins cap k v (us @ rest) t = (t', tsp, rest)) \<and> room s' m \<and> ins_post t s n' sp s' us t' tsp"
  using assms
proof (induction t arbitrary: n s h m r rule: kvs.induct)
  case (1 a xs sib)
  then have h: "h = 0" and s: "sorted_keys xs" by simp_all
  obtain l where l: "n = LeafN l" "leaf_repr cap a xs sib l" using node_isE_leaf [OF "1.prems"(6) s] .
  have "a \<in> owned s" "valid_ref sib" using "1.prems"(8) by (auto simp: tree_env_def first_leaf_def)
  then show ?case
    using leaf_iwss_ok [OF "1.prems"(1) l(2) "1.prems"(3), of m] "1.prems"(5) h l(1)
    by (subst node_iwss.simps) simp
next
  case (2 a ts)
  have sep: "separated ts" "ts \<noteq> []" using "2.prems"(2) by simp_all
  obtain nd where nd: "n = InnerN nd" "inner_repr cap a (child_refs ts) nd"
    using node_isE_node [OF "2.prems"(6) sep(1)] .
  define i where "i = nat (child_index k ts)"
  define x where "x = (if child_index k ts < 0 then k else fst (ts ! i))"
  note D = descend [OF sep, of k, folded i_def, folded x_def]
  let ?t = "snd (ts ! i)"
  have mem: "ts ! i \<in> set ts" using D(1) by simp
  obtain d where h: "h = Suc d" "bt_height d ?t" using "2.prems"(4) mem by auto
  have t: "tree_in (blocks s) ?t" "bt_ok cap ?t" using "2.prems"(2,7) mem by auto
  obtain nd1 where nd1: "(if child_index k ts < 0 then inner_set_first_key k nd else Some nd) = Some nd1"
    "inner_repr cap a (child_refs (ts[i := (x, ?t)])) nd1" "inner_modified nd1 \<or> nd1 = nd \<and> ts[i := (x, ?t)] = ts"
    using first_key_ok [OF "2.prems"(2) nd(2) i_def x_def] by blast
  have mx: "max 0 (child_index k ts) = int i" by (simp add: i_def)
  have child: "get_child_rep nd1 (int i) = Some (addr ?t)"
    using inner_repr_aget(2) [OF nd1(2), of i] D(1) by (simp add: get_child_rep_def)
  obtain c0 s1 where g: "ref_get R (addr ?t) s = Some (c0, s1)" "quiet s s1" "node_is cap ?t c0"
    using get_node [OF "2.prems"(1) t(1)] .
  have q: "inv s1" "room s1 = room s" "blocks s1 = blocks s" "owned s1 = owned s" using g(2) by (simp_all add: quiet_def)
  have env1: "tree_env s1 (BNode a ts) r" using "2.prems"(8) q by (simp add: tree_env_def)
  let ?r = "first_leaf (forest_leaves (drop (Suc i) ts)) r"
  have env: "tree_env s1 ?t ?r"
    using child_frame(4) [OF env1, of "blocks s" i "[]" "blocks s"] "2.prems"(7) D(1) by simp
  have "kids_in (blocks s1) ?t" using t(1) q(3) tree_in_root by metis
  moreover have "room s1 (Suc d + Suc m)" using "2.prems"(5) h(1) q(2) by simp
  ultimately obtain n1 sp1 us1 t1 tsp1 s2 where IH: "node_iwss R cap k v c0 s1 = Some (n1, sp1, s2)"
    "\<forall>rest. bt_ins cap k v (us1 @ rest) ?t = (t1, tsp1, rest)" "room s2 (Suc m)" "ins_post ?t s1 n1 sp1 s2 us1 t1 tsp1"
    using "2.IH" [OF mem q(1) t(2) "2.prems"(3) h(2) _ g(3) _ env, of "Suc m"] by blast
  define G where "G = grown x t1 tsp1"
  note F = ins_post_forest [OF env t(2) "2.prems"(3) IH(2,4) G_def]
  have P: "inv s2" "owned s2 = owned s \<union> set us1" "set us1 \<inter> owned s1 = {}" "distinct us1"
    "\<forall>a\<in>set us1. valid_ref a \<and> a \<noteq> -1" "node_is cap t1 n1" "kids_in (blocks s2) t1"
    "is_modified n1 \<or> tsp1 = None \<and> bt_content t1 = bt_content ?t"
    "\<forall>x. x \<notin> set (addrs ?t) \<union> set us1 \<longrightarrow> blocks s2 x = blocks s x" "blocks s2 (addr ?t) = blocks s (addr ?t)"
    using IH(4) q unfolding ins_post_def by simp_all
  define xs where "xs = take i ts @ (x, t1) # drop (Suc i) ts"
  have xs: "ts[i := (x, t1)] = xs" using D(1) by (simp add: xs_def upd_conv_take_nth_drop)
  have refs: "child_refs xs = child_refs (ts[i := (x, ?t)])"
    using F(7) D(1) by (simp add: xs_def upd_conv_take_nth_drop)
  have nd1': "inner_repr cap a (child_refs xs) nd1" using nd1(2) refs by simp
  have pure: "bt_ins cap k v (us1 @ rest) (BNode a ts) = (case tsp1 of None \<Rightarrow> (BNode a xs, None, rest)
      | Some (b, r) \<Rightarrow> (case ins_child cap b r xs of (us, None) \<Rightarrow> (BNode a us, None, rest)
        | (us, Some ws) \<Rightarrow> (BNode a us, Some (fst (hd ws), BNode (hd rest) ws), tl rest)))" for rest
    using bt_ins_unfold [OF D(1) i_def x_def spec [OF IH(2)], of rest a] unfolding xs .
  have kids: "\<forall>p\<in>set ts. tree_in (blocks s) (snd p)" using "2.prems"(7) by simp
  have addr1: "addr ?t \<in> set (addrs ?t)" "addr t1 = addr ?t" using F(7) by simp_all
  show ?case
  proof (cases tsp1)
    case None
    have sp1: "sp1 = None" using IH(4) None by (simp add: ins_post_def)
    have own: "addr t1 \<in> owned s2" "distinct (addrs t1)" using F(1,3) None addr_in_addrs [of t1] by (auto simp: G_def grown_def)
    have wr: "is_modified n1 \<and> (\<forall>x\<in>content_refs (bt_content t1). valid_ref x) \<or> blocks s2 (addr t1) = Some (bt_content t1)"
      using P(8,10) F(5) t(1) addr1(2) tree_in_root [of "blocks s" ?t] by (auto simp: G_def grown_def)
    obtain s3 where s3: "ref_close R (addr t1) n1 s2 = Some s3" "inv s3" "room s3 = room s2" "owned s3 = owned s2"
      "blocks s3 = (blocks s2)(addr t1 \<mapsto> bt_content t1)" "tree_in (blocks s3) t1"
      using close_node [OF P(1,6) own(1) P(7) own(2) wr] by blast
    have frame: "\<forall>x. x \<notin> set (addrs ?t) \<union> set us1 \<longrightarrow> blocks s3 x = blocks s x"
      using P(9) s3(5) addr1 by auto
    note C = child_frame [OF env1 kids D(1) P(3) frame]
    have "\<forall>p\<in>set xs. tree_in (blocks s3) (snd p)" using C(1) s3(6) by (simp add: xs_def ball_Un)
    moreover have "inner_modified nd1 \<or> child_refs xs = child_refs ts" using nd1(3) refs by auto
    ultimately have post: "ins_post (BNode a ts) s (InnerN nd1) None s3 us1 (BNode a xs) None"
      using s3(2,4) P(2-5) q(4) C(2,3) inner_repr_node_is [OF nd1'] by (simp add: ins_post_def)
    have run: "node_iwss R cap k v n s = Some (InnerN nd1, None, s3)"
      using nd locate_child_index_spec [OF nd(2), of k] nd1(1) mx child g(1) IH(1) sp1 s3(1) addr1(2)
      by (subst node_iwss.simps) simp
    have "\<forall>rest. bt_ins cap k v (us1 @ rest) (BNode a ts) = (BNode a xs, None, rest)" using pure None by simp
    moreover have "room s3 m" using room_mono [OF IH(3)] s3(3) by simp
    ultimately show ?thesis using run post by blast
  next
    case (Some p)
    obtain b t2 where p: "p = (b, t2)" by fastforce
    obtain n2 where n2: "sp1 = Some \<lparr>split_left = n1, split_right = n2, boundary_key = b\<rparr>"
      "node_is cap t2 n2" "kids_in (blocks s2) t2" "is_modified n2" "is_modified n1"
      using IH(4) Some p P(8) by (auto simp: ins_post_def)
    have G: "G = [(x, t1), (b, t2)]" using Some p by (simp add: G_def grown_def)
    have "separated (take i ts @ grown x t1 tsp1 @ drop (Suc i) ts)"
      using bt_ins_child_ok(2) [OF "2.prems"(2,3) i_def x_def spec [OF IH(2), of "[]"] refl] by blast
    then have sepF: "separated (take i ts @ (x, t1) # (b, t2) # drop (Suc i) ts)"
      using Some p by (simp add: grown_def)
    have d: "distinct (addrs t1 @ addrs t2)" "set (addrs t1 @ addrs t2) \<subseteq> owned s2" using F(1,3) G by simp_all
    have len: "i = length (take i ts)" using D(1) by simp
    have valid: "\<forall>x\<in>content_refs (bt_content t1) \<union> content_refs (bt_content t2). valid_ref x" using F(5) G by auto
    obtain nd' sp' s3 us2 where S: "inner_iwss_split R cap (int i) \<lparr>split_left = n1, split_right = n2, boundary_key = b\<rparr> nd1 s2
        = Some (InnerN nd', sp', s3)" "inv s3" "room s3 m" "owned s3 = owned s2 \<union> set us2" "tree_in (blocks s3) t1"
      "tree_in (blocks s3) t2" "\<forall>x. x \<notin> insert (addr t1) (insert (addr t2) (set us2)) \<longrightarrow> blocks s3 x = blocks s2 x"
      "inner_modified nd'" "set us2 \<inter> owned s2 = {}"
      and cs: "case ins_child cap b t2 xs of
          (fs, None) \<Rightarrow> us2 = [] \<and> sp' = None \<and> inner_repr cap a (child_refs fs) nd'
        | (fs, Some ws) \<Rightarrow> \<exists>f rd. us2 = [f] \<and> f \<notin> owned s2 \<and> valid_ref f \<and> f \<noteq> -1 \<and> ws \<noteq> []
            \<and> sp' = Some \<lparr>split_left = InnerN nd', split_right = InnerN rd, boundary_key = fst (hd ws)\<rparr>
            \<and> inner_repr cap a (child_refs fs) nd' \<and> inner_repr cap f (child_refs ws) rd \<and> inner_modified rd"
      using inner_iwss_split_ok [OF P(1) IH(3) "2.prems"(3) nd1' [unfolded xs_def] sepF P(6) n2(2,5,4) P(7) n2(3) d valid refl len,
          folded xs_def] by (elim exE conjE) (rule that)
    have "set (addrs t1) \<union> set (addrs t2) = set (addrs ?t) \<union> set us1" using F(2) G by simp
    then have "addr t1 \<in> set (addrs ?t) \<union> set us1" "addr t2 \<in> set (addrs ?t) \<union> set us1"
      using addr_in_addrs [of t1] addr_in_addrs [of t2] by blast+
    then have "x \<notin> insert (addr t1) (insert (addr t2) (set us2)) \<and> x \<notin> set (addrs ?t) \<union> set us1"
      if "x \<notin> set (addrs ?t) \<union> set (us1 @ us2)" for x using that by auto
    then have frame: "\<forall>x. x \<notin> set (addrs ?t) \<union> set (us1 @ us2) \<longrightarrow> blocks s3 x = blocks s x"
      using P(9) S(7) by simp
    have "set (us1 @ us2) \<inter> owned s1 = {}" using P(2,3) S(9) q(4) by auto
    note C = child_frame [OF env1 kids D(1) this frame]
    have stored: "\<forall>p\<in>insert (b, t2) (set xs). tree_in (blocks s3) (snd p)" using C(1) S(5,6) by (simp add: xs_def ball_Un)
    have run: "node_iwss R cap k v n s = Some (InnerN nd', sp', s3)"
      using nd locate_child_index_spec [OF nd(2), of k] nd1(1) mx child g(1) IH(1) n2(1) S(1)
      by (subst node_iwss.simps) simp
    obtain fs wo where ic: "ins_child cap b t2 xs = (fs, wo)" by fastforce
    have "\<exists>t' tsp. (\<forall>rest. bt_ins cap k v ((us1 @ us2) @ rest) (BNode a ts) = (t', tsp, rest))
        \<and> ins_post (BNode a ts) s (InnerN nd') sp' s3 (us1 @ us2) t' tsp"
    proof (cases wo)
      case None
      have "\<forall>p\<in>set fs. tree_in (blocks s3) (snd p)" using stored ins_child_set [OF ic] by blast
      moreover have "us2 = []" "sp' = None" "inner_repr cap a (child_refs fs) nd'" using cs ic None by simp_all
      moreover have "node_is cap (BNode a fs) (InnerN nd')" using inner_repr_node_is calculation(4) .
      ultimately have "ins_post (BNode a ts) s (InnerN nd') sp' s3 (us1 @ us2) (BNode a fs) None"
        using S(2,4,8) P(2-5) q(4) C(2,3) by (simp add: ins_post_def)
      then show ?thesis using pure Some p ic None cs by auto
    next
      case (Some ws)
      then obtain f rd where f: "us2 = [f]" "f \<notin> owned s2" "valid_ref f" "f \<noteq> -1"
        "sp' = Some \<lparr>split_left = InnerN nd', split_right = InnerN rd, boundary_key = fst (hd ws)\<rparr>"
        "inner_repr cap a (child_refs fs) nd'" "inner_repr cap f (child_refs ws) rd" "inner_modified rd"
        using cs ic by auto
      have "\<forall>p\<in>set fs \<union> set ws. tree_in (blocks s3) (snd p)" using stored ins_child_set [OF ic] Some by auto
      then have "ins_post (BNode a ts) s (InnerN nd') sp' s3 (us1 @ us2) (BNode a fs) (Some (fst (hd ws), BNode f ws))"
        using f(1-5,8) S(2,4,8) P(2-5) q(4) C(2,3) inner_repr_node_is [OF f(6)] inner_repr_node_is [OF f(7)]
        by (simp add: ins_post_def ball_Un)
      then show ?thesis using pure \<open>tsp1 = Some p\<close> p ic Some f(1) by auto
    qed
    then show ?thesis using run S(3) by blast
  qed
qed

end

section \<open>Deletion\<close>

lemma child_refs_fun: "child_refs = map (\<lambda>p. (fst p, addr (snd p)))"
  by (rule ext) (simp add: child_refs_def)

lemma redistribute_map:
  "redistribute c (map f xs) (map f ys) = map_prod (map f) (map_option (map f)) (redistribute c xs ys)"
proof -
  have "map f xs @ [hd (map f ys)] = map f (xs @ [hd ys])" if "ys \<noteq> []" using that by (simp add: hd_map)
  moreover have "last (map f xs) # map f ys = map f (last xs # ys)" if "xs \<noteq> []" using that by (simp add: last_map)
  ultimately show ?thesis
    by (cases "xs = []"; cases "ys = []") (auto simp: redistribute_def map_tl map_butlast)
qed

lemma redistribute_set:
  assumes "redistribute c xs ys = (us, wo)" "length xs < UNDERFLOW_BOUND c \<or> length ys < UNDERFLOW_BOUND c"
  shows "set us \<union> (case wo of None \<Rightarrow> {} | Some ws \<Rightarrow> set ws) \<subseteq> set xs \<union> set ys"
proof -
  have "hd ys \<in> set ys" if "UNDERFLOW_BOUND c < length ys" using that by (cases ys) auto
  moreover have "last xs \<in> set xs" if "UNDERFLOW_BOUND c < length xs" using that by (cases xs) auto
  moreover have "set (tl ys) \<subseteq> set ys" by (cases ys) auto
  ultimately show ?thesis
    using assms(1) by (auto simp: redistribute_def dest: in_set_butlastD split: if_splits)
qed

lemma node_balance_ok:
  assumes ok: "forest_ok c [(s, x), (b, y)]" and c: "2 \<le> c" and h: "bt_height h x" "bt_height h y"
    and under: "bt_len x < UNDERFLOW_BOUND c \<or> bt_len y < UNDERFLOW_BOUND c"
    and n: "node_is c x nx" "node_is c y ny"
  shows "case bt_balance c x y of
       (x', Some (b', y')) \<Rightarrow> \<exists>nx' ny'. node_balance c junk nx ny = Some (nx', ny', Some b') \<and> node_is c x' nx'
          \<and> node_is c y' ny' \<and> is_modified nx' \<and> is_modified ny' \<and> addr x' = addr x \<and> addr y' = addr y
          \<and> set (kids x') \<union> set (kids y') \<subseteq> set (kids x) \<union> set (kids y)
     | (x', None) \<Rightarrow> \<exists>nx' ny'. node_balance c junk nx ny = Some (nx', ny', None) \<and> node_is c x' nx' \<and> is_modified nx'
          \<and> addr x' = addr x \<and> set (kids x') \<subseteq> set (kids x) \<union> set (kids y)"
proof (cases x)
  case (BLeaf a xs sib)
  with h obtain f ys sib' where y: "y = BLeaf f ys sib'" by (cases y) auto
  have sx: "sorted_keys xs" "sorted_keys ys" using ok BLeaf y by simp_all
  obtain l where l: "nx = LeafN l" "leaf_repr c a xs sib l" using node_isE_leaf [OF n(1) [unfolded BLeaf] sx(1)] .
  obtain r where r: "ny = LeafN r" "leaf_repr c f ys sib' r" using node_isE_leaf [OF n(2) [unfolded y] sx(2)] .
  have sorted: "sorted_keys (xs @ ys)"
    using ok BLeaf y by (auto simp: separated_Cons sorted_wrt_append intro: less_le_trans)
  have "length xs < UNDERFLOW_BOUND c \<or> length ys < UNDERFLOW_BOUND c" using under BLeaf y by (simp add: bt_len_def)
  note spec = leaf_balance_spec [OF l(2) r(2) sorted this]
  obtain us wo where re: "redistribute c xs ys = (us, wo)" by fastforce
  show ?thesis
    using spec l(1) r(1) leaf_repr_node_is by (cases wo) (fastforce simp: BLeaf y re)+
next
  case (BNode a xs)
  with h obtain f ys where y: "y = BNode f ys" by (cases y) auto
  have sx: "separated xs" "separated ys" using ok BNode y by simp_all
  obtain l where l: "nx = InnerN l" "inner_repr c a (child_refs xs) l" using node_isE_node [OF n(1) [unfolded BNode] sx(1)] .
  obtain r where r: "ny = InnerN r" "inner_repr c f (child_refs ys) r" using node_isE_node [OF n(2) [unfolded y] sx(2)] .
  have "s < b" "\<forall>z\<in>forest_keys xs. z < b" "\<forall>z\<in>forest_keys ys. b \<le> z" using ok BNode y by (simp_all add: separated_Cons)
  then have "\<forall>z\<in>keys xs. \<forall>w\<in>keys ys. z < w" using less_le_trans by blast
  then have sorted: "sorted_keys (child_refs xs @ child_refs ys)"
    using inner_reprD(6) [OF l(2)] inner_reprD(6) [OF r(2)] unfolding sorted_keys_append child_refs_simps by blast
  have "length (child_refs xs) < UNDERFLOW_BOUND c \<or> length (child_refs ys) < UNDERFLOW_BOUND c"
    using under BNode y by (simp add: bt_len_def)
  note spec = inner_balance_spec [OF l(2) r(2) sorted this c, where junk = junk]
  obtain us wo where re: "redistribute c xs ys = (us, wo)" by fastforce
  have re': "redistribute c (child_refs xs) (child_refs ys) = (child_refs us, map_option child_refs wo)"
    using redistribute_map [of c "\<lambda>p. (fst p, addr (snd p))" xs ys] re unfolding child_refs_fun by simp
  have hd: "fst (hd (child_refs ws)) = fst (hd ws)" if "child_refs ws \<noteq> []" for ws :: "('a, 'b) forest"
    using that by (cases ws) (simp_all add: child_refs_def)
  have sub: "set us \<union> (case wo of None \<Rightarrow> {} | Some ws \<Rightarrow> set ws) \<subseteq> set xs \<union> set ys"
    using redistribute_set [OF re] under BNode y by (simp add: bt_len_def)
  show ?thesis
    using spec l(1) r(1) inner_repr_node_is sub hd by (cases wo) (fastforce simp: BNode y re re')+
qed

context node_store
begin

text \<open>The two objects that \<^verbatim>\<open>balance\<close> is called on.\<close>

lemma balance_objects:
  assumes inv: "inv s" and i: "i < length us" "2 \<le> length us" and nd: "inner_repr cap a (child_refs us) nd"
    and n1: "node_is cap (snd (us ! i)) n1" "kids_in (blocks s) (snd (us ! i))"
    and others: "\<forall>j<length us. j \<noteq> i \<longrightarrow> tree_in (blocks s) (snd (us ! j))"
    and l: "l = i - 1" and x: "x = snd (us ! l)" and y: "y = snd (us ! Suc l)"
  obtains nx ny s1 s2 where
    "get_child_rep nd (int l) = Some (addr x)" "get_child_rep nd (int (Suc l)) = Some (addr y)"
    "(if int l = int i then Some (n1, s) else ref_get R (addr x) s) = Some (nx, s1)"
    "(if int (Suc l) = int i then Some (n1, s1) else ref_get R (addr y) s1) = Some (ny, s2)"
    "quiet s s2" "node_is cap x nx" "node_is cap y ny" "kids_in (blocks s) x" "kids_in (blocks s) y"
proof -
  have len: "l < length us" "Suc l < length us" using i l by auto
  have refs: "get_child_rep nd (int l) = Some (addr x)" "get_child_rep nd (int (Suc l)) = Some (addr y)"
    using inner_repr_aget(2) [OF nd, of l] inner_repr_aget(2) [OF nd, of "Suc l"] len x y
    unfolding get_child_rep_def by simp_all
  have q: "quiet s s" using inv by (simp add: quiet_def)
  show thesis
  proof (cases "i = 0")
    case True
    then have t: "tree_in (blocks s) y" using others len(2) l y by simp
    obtain ny s2 where g: "ref_get R (addr y) s = Some (ny, s2)" "quiet s s2" "node_is cap y ny"
      using get_node [OF inv t] .
    show thesis
      by (rule that [OF refs, of n1 s ny s2])
        (use True l x n1 g t tree_in_root [of "blocks s" y] in simp_all)
  next
    case False
    then have t: "tree_in (blocks s) x" using others len(1) l x by simp
    obtain nx s1 where g: "ref_get R (addr x) s = Some (nx, s1)" "quiet s s1" "node_is cap x nx"
      using get_node [OF inv t] .
    have li: "int l \<noteq> int i" "int (Suc l) = int i" "y = snd (us ! i)" using False l y by auto
    show thesis
      by (rule that [OF refs, of nx s1 n1 s1])
        (use li n1 g t tree_in_root [of "blocks s" x] in \<open>simp_all del: of_nat_Suc\<close>)
  qed
qed

lemma trees_in_other:
  assumes "\<forall>p\<in>set ts. tree_in m (snd p)" "\<forall>x\<in>set (forest_addrs ts). m' x = m x"
  shows "\<forall>p\<in>set ts. tree_in m' (snd p)"
proof
  fix p assume p: "p \<in> set ts"
  show "tree_in m' (snd p)"
    using assms p by (intro tree_in_cong [of m "snd p" m']) auto
qed

definition fix_post :: "('k, 'v) forest \<Rightarrow> 's \<Rightarrow> 's \<Rightarrow> ('k, 'v) forest \<Rightarrow> blk_address list \<Rightarrow> bool" where
  "fix_post us s s' ws fs \<longleftrightarrow> inv s' \<and> (\<forall>m. room s m \<longrightarrow> room s' m) \<and> owned s' \<subseteq> owned s \<and> owned s - set fs \<subseteq> owned s'
     \<and> (\<forall>p\<in>set ws. tree_in (blocks s') (snd p)) \<and> (\<forall>x. x \<notin> set (forest_addrs us) \<longrightarrow> blocks s' x = blocks s x)
     \<and> (\<forall>f\<in>set fs. blocks s' f = None)"

lemma store_redistributed:
  assumes inv: "inv s" and us: "us = A @ [(k1, x), (k2, y)] @ B" and ws: "ws = A @ [(k1, x'), (b, y')] @ B"
    and dist: "distinct (forest_addrs ws)" and set: "set (forest_addrs ws) \<subseteq> set (forest_addrs us)"
    and own: "set (forest_addrs ws) \<subseteq> owned s" and AB: "\<forall>p\<in>set A \<union> set B. tree_in (blocks s) (snd p)"
    and n: "node_is cap x' nx" "node_is cap y' ny" "is_modified nx" "is_modified ny"
    and kids: "kids_in (blocks s) x'" "kids_in (blocks s) y'"
    and valid: "\<forall>p\<in>set ws. \<forall>z\<in>content_refs (bt_content (snd p)). valid_ref z"
  shows "\<exists>s1 s2. ref_close R (addr x') nx s = Some s1 \<and> ref_close R (addr y') ny s1 = Some s2 \<and> fix_post us s s2 ws []"
proof -
  have d: "distinct (addrs x' @ addrs y')" "set (addrs x' @ addrs y') \<subseteq> owned s" using dist own unfolding ws by auto
  have v: "\<forall>z\<in>content_refs (bt_content x') \<union> content_refs (bt_content y'). valid_ref z" using valid unfolding ws by auto
  obtain s1 s2 where s: "ref_close R (addr x') nx s = Some s1" "ref_close R (addr y') ny s1 = Some s2" "inv s2"
    "room s2 = room s" "owned s2 = owned s" "tree_in (blocks s2) x'" "tree_in (blocks s2) y'"
    "blocks s2 = (blocks s)(addr x' \<mapsto> bt_content x', addr y' \<mapsto> bt_content y')"
    by (rule close_pair [OF inv n kids d v])
  have in_ws: "addr x' \<in> set (forest_addrs ws)" "addr y' \<in> set (forest_addrs ws)" unfolding ws by simp_all
  have fa: "forest_addrs ws = forest_addrs A @ addrs x' @ addrs y' @ forest_addrs B"
    "forest_addrs (A @ B) = forest_addrs A @ forest_addrs B" by (simp_all add: ws)
  have "addr x' \<notin> set (forest_addrs (A @ B))" "addr y' \<notin> set (forest_addrs (A @ B))"
    using dist addr_in_addrs [of x'] addr_in_addrs [of y'] unfolding fa distinct_append set_append by blast+
  then have "\<forall>z\<in>set (forest_addrs (A @ B)). blocks s2 z = blocks s z" using s(8) by auto
  then have "\<forall>p\<in>set (A @ B). tree_in (blocks s2) (snd p)"
    using AB trees_in_other [of "A @ B" "blocks s"] by (simp only: set_append)
  then have "\<forall>p\<in>set ws. tree_in (blocks s2) (snd p)" using s(6,7) unfolding ws by auto
  moreover have "\<forall>z. z \<notin> set (forest_addrs us) \<longrightarrow> blocks s2 z = blocks s z" using s(8) in_ws set by auto
  ultimately show ?thesis using s by (auto simp: fix_post_def)
qed

lemma store_merged:
  assumes inv: "inv s" and us: "us = A @ [(k1, x), (k2, y)] @ B" and ws: "ws = A @ [(k1, x')] @ B"
    and dist: "distinct (forest_addrs ws)" "addr y \<notin> set (forest_addrs ws)"
    and set: "set (forest_addrs ws) \<subseteq> set (forest_addrs us)"
    and own: "set (forest_addrs us) \<subseteq> owned s" and AB: "\<forall>p\<in>set A \<union> set B. tree_in (blocks s) (snd p)"
    and n: "node_is cap x' nx" "is_modified nx" and kids: "kids_in (blocks s) x'"
    and valid: "\<forall>p\<in>set ws. \<forall>z\<in>content_refs (bt_content (snd p)). valid_ref z"
  shows "\<exists>s1 s2. ref_close R (addr x') nx s = Some s1 \<and> ref_remove R (addr y) s1 = Some s2 \<and> fix_post us s s2 ws [addr y]"
proof -
  have fa: "forest_addrs ws = forest_addrs A @ addrs x' @ forest_addrs B"
    "forest_addrs (A @ B) = forest_addrs A @ forest_addrs B" by (simp_all add: ws)
  have d: "distinct (addrs x')" "addr x' \<in> owned s"
    using dist own set addr_in_addrs [of x'] unfolding fa distinct_append set_append by blast+
  have v: "\<forall>z\<in>content_refs (bt_content x'). valid_ref z" using valid unfolding ws by auto
  obtain s1 where s1: "ref_close R (addr x') nx s = Some s1" "inv s1" "room s1 = room s" "owned s1 = owned s"
    "blocks s1 = (blocks s)(addr x' \<mapsto> bt_content x')" "tree_in (blocks s1) x'"
    using close_node [OF inv n(1) d(2) kids d(1)] n(2) v by blast
  have "addr y \<in> owned s1" using own s1(4) addr_in_addrs [of y] unfolding us by auto
  then obtain s2 where s2: "ref_remove R (addr y) s1 = Some s2" "inv s2" "\<forall>n. room s1 n \<longrightarrow> room s2 n"
    "blocks s2 = (blocks s1)(addr y := None)" "owned s2 \<subseteq> owned s1" "owned s1 - {addr y} \<subseteq> owned s2"
    using remove [OF s1(2)] by blast
  have nx: "addr x' \<notin> set (forest_addrs (A @ B))"
    using dist(1) addr_in_addrs [of x'] unfolding fa distinct_append set_append by blast
  have ny: "addr y \<notin> set (forest_addrs (A @ B))" "addr y \<notin> set (addrs x')"
    using dist(2) unfolding fa set_append by blast+
  have "\<forall>z\<in>set (forest_addrs (A @ B)). blocks s2 z = blocks s z" using nx ny(1) s2(4) s1(5) by auto
  then have "\<forall>p\<in>set (A @ B). tree_in (blocks s2) (snd p)"
    using AB trees_in_other [of "A @ B" "blocks s"] by (simp only: set_append)
  moreover have "tree_in (blocks s2) x'"
    using ny(2) s2(4) by (intro tree_in_cong [OF s1(6)]) auto
  ultimately have "\<forall>p\<in>set ws. tree_in (blocks s2) (snd p)" unfolding ws by auto
  moreover have "addr x' \<in> set (forest_addrs ws)" "addr y \<in> set (forest_addrs us)" unfolding ws us by simp_all
  then have "addr x' \<in> set (forest_addrs us)" "addr y \<in> set (forest_addrs us)" using set by blast+
  then have "\<forall>z. z \<notin> set (forest_addrs us) \<longrightarrow> blocks s2 z = blocks s z" using s2(4) s1(5) by auto
  ultimately show ?thesis using s1 s2 by (auto simp: fix_post_def)
qed

end

context node_store
begin

lemma around_nth:
  assumes "Suc l < length us" and "p \<in> set (take l us) \<union> set (drop (Suc (Suc l)) us)"
  shows "\<exists>j<length us. us ! j = p \<and> (j < l \<or> Suc l < j)"
proof -
  consider (left) "p \<in> set (take l us)" | (right) "p \<in> set (drop (Suc (Suc l)) us)" using assms by blast
  then show ?thesis
  proof cases
    case left
    then obtain j where "j < l" "take l us ! j = p" using assms(1) by (auto simp: in_set_conv_nth)
    then show ?thesis using assms(1) by (intro exI [of _ j]) simp
  next
    case right
    then obtain j where "j < length us - Suc (Suc l)" "drop (Suc (Suc l)) us ! j = p" by (auto simp: in_set_conv_nth)
    then show ?thesis using assms(1) by (intro exI [of _ "Suc (Suc l) + j"]) simp
  qed
qed

lemma inner_fix_underflow_ok:
  assumes inv: "inv s" and c: "2 \<le> cap" and ok: "forest_ok cap us" and h: "\<forall>p\<in>set us. bt_height h (snd p)"
    and i: "i < length us" "2 \<le> length us" and nd: "inner_repr cap a (child_refs us) nd"
    and n1: "node_is cap (snd (us ! i)) n1" "kids_in (blocks s) (snd (us ! i))"
    and others: "\<forall>j<length us. j \<noteq> i \<longrightarrow> tree_in (blocks s) (snd (us ! j))"
    and under: "bt_len (snd (us ! i)) < UNDERFLOW_BOUND cap"
    and env: "tree_env s (BNode a us) r"
    and fixc: "bt_fix_children cap (i - 1) us = (ws, w, fs)"
  shows "\<exists>nd' s'. inner_fix_underflow R cap junk (int i) n1 nd s = Some (w, nd', s')
     \<and> inner_repr cap a (child_refs ws) nd' \<and> inner_modified nd' \<and> fix_post us s s' ws fs"
proof -
  define l where "l = i - 1"
  obtain k1 x k2 y where px: "us ! l = (k1, x)" and py: "us ! Suc l = (k2, y)" by fastforce
  have len: "Suc l < length us" using i by (auto simp: l_def)
  obtain nx ny s1 s2 where B: "get_child_rep nd (int l) = Some (addr x)" "get_child_rep nd (int (Suc l)) = Some (addr y)"
    "(if int l = int i then Some (n1, s) else ref_get R (addr x) s) = Some (nx, s1)"
    "(if int (Suc l) = int i then Some (n1, s1) else ref_get R (addr y) s1) = Some (ny, s2)"
    "quiet s s2" "node_is cap x nx" "node_is cap y ny" "kids_in (blocks s) x" "kids_in (blocks s) y"
    by (rule balance_objects [OF inv i nd n1 others l_def, of x y]) (use px py in simp_all)
  have q: "inv s2" "room s2 = room s" "blocks s2 = blocks s" "owned s2 = owned s" using B(5) by (simp_all add: quiet_def)
  let ?A = "take l us" and ?C = "drop (Suc (Suc l)) us"
  have "us = ?A @ us ! l # drop (Suc l) us" using len by (intro id_take_nth_drop) simp
  moreover have "drop (Suc l) us = us ! Suc l # ?C" using len by (simp add: Cons_nth_drop_Suc)
  ultimately have split: "us = ?A @ [(k1, x), (k2, y)] @ ?C" using px py by simp
  have okM: "forest_ok cap [(k1, x), (k2, y)]"
    using ok forest_ok_split [of ?A "[(k1, x), (k2, y)] @ ?C" cap] forest_ok_split [of "[(k1, x), (k2, y)]" ?C cap] split
    by metis
  have mem: "(k1, x) \<in> set us" "(k2, y) \<in> set us" using len px py nth_mem [of l us] nth_mem [of "Suc l" us] by auto
  have hM: "bt_height h x" "bt_height h y" using bspec [OF h mem(1)] bspec [OF h mem(2)] by simp_all
  have "us ! i = us ! l \<or> us ! i = us ! Suc l" by (cases i) (simp_all add: l_def)
  then have un: "bt_len x < UNDERFLOW_BOUND cap \<or> bt_len y < UNDERFLOW_BOUND cap" using under px py by auto
  have un': "bt_len (snd (us ! l)) < UNDERFLOW_BOUND cap \<or> bt_len (snd (us ! Suc l)) < UNDERFLOW_BOUND cap"
    using un px py by simp
  note fixc' = fixc [folded l_def]
  note F = bt_fix_children_ok [OF ok len h c un' fixc']
  have W: "forest_ok cap ws" "leaves_keep (forest_leaves us) (forest_leaves ws)"
    "mset (forest_addrs us) = mset (forest_addrs ws @ fs)" using F(1) by (simp_all add: balanced_to_def)
  have E: "distinct (forest_addrs us)" "set (forest_addrs us) \<subseteq> owned s" "linked (forest_leaves us) r" "valid_ref r"
    "\<forall>z\<in>set (forest_addrs us). valid_ref z" using env by (simp_all add: tree_env_def)
  have d: "distinct (forest_addrs ws @ fs)" "set (forest_addrs ws @ fs) = set (forest_addrs us)"
    using mset_eq_imp_distinct_iff [OF W(3)] mset_eq_setD [OF W(3)] E(1) by simp_all
  then have dw: "distinct (forest_addrs ws)" "set (forest_addrs ws) \<subseteq> set (forest_addrs us)"
    "set fs \<inter> set (forest_addrs ws) = {}" by auto
  have "linked (forest_leaves ws) r" using W(2) E(3) by (simp add: leaves_keep_def)
  then have valid: "\<forall>p\<in>set ws. \<forall>z\<in>content_refs (bt_content (snd p)). valid_ref z"
    using forest_content_refs dw(2) E(4,5) by blast
  have AC: "\<forall>p\<in>set ?A \<union> set ?C. tree_in (blocks s2) (snd p)"
  proof
    fix p assume "p \<in> set ?A \<union> set ?C"
    then obtain j where "j < length us" "us ! j = p" "j < l \<or> Suc l < j" using around_nth [OF len] by blast
    moreover from this have "j \<noteq> i" by (auto simp: l_def)
    ultimately show "tree_in (blocks s2) (snd p)" using others q(3) by auto
  qed
  have idx: "(if int i \<ge> 1 then int i - 1 else int i) = int l" "(if int i \<ge> 1 then int i else int i + 1) = int (Suc l)"
    by (auto simp: l_def)
  obtain x' sp where bal: "bt_balance cap x y = (x', sp)" by fastforce
  note nb = node_balance_ok [OF okM c hM un B(6,7), where junk = junk, unfolded bal]
  have kids: "\<forall>p\<in>set (kids x) \<union> set (kids y). tree_in (blocks s2) (snd p)" using B(8,9) q(3) by auto
  have own2: "set (forest_addrs us) \<subseteq> owned s2" using E(2) q(4) by simp
  have fp: "fix_post us s2 s' ws fs \<Longrightarrow> fix_post us s s' ws fs" for s' using q by (simp add: fix_post_def)
  show ?thesis
  proof (cases sp)
    case (Some p)
    obtain b y' where p: "p = (b, y')" by fastforce
    obtain nx' ny' where N: "node_balance cap junk nx ny = Some (nx', ny', Some b)" "node_is cap x' nx'" "node_is cap y' ny'"
      "is_modified nx'" "is_modified ny'" "addr x' = addr x" "addr y' = addr y"
      "set (kids x') \<union> set (kids y') \<subseteq> set (kids x) \<union> set (kids y)"
      using nb Some p by auto
    have ws: "ws = ?A @ [(k1, x'), (b, y')] @ ?C" "w = False" "fs = []"
    proof -
      have "ws = us[l := (k1, x'), Suc l := (b, y')]" "w = False" "fs = []"
        using fixc' bal Some p unfolding bt_fix_children_def px py by simp_all
      moreover have "us[l := (k1, x'), Suc l := (b, y')] = ?A @ [(k1, x'), (b, y')] @ ?C"
        using len by (subst (1) split) (simp add: update_pair)
      ultimately show "ws = ?A @ [(k1, x'), (b, y')] @ ?C" "w = False" "fs = []" by simp_all
    qed
    have refs: "(child_refs us)[Suc l := (b, snd (child_refs us ! Suc l))] = child_refs ws"
    proof -
      have "child_refs us ! Suc l = (k2, addr y)" using len py by simp
      then have "(child_refs us)[Suc l := (b, snd (child_refs us ! Suc l))]
          = (child_refs ?A @ [(k1, addr x)] @ (k2, addr y) # child_refs ?C)[Suc l := (b, addr y)]"
        by (subst (1) split) simp
      then show ?thesis using len N(6,7) unfolding ws(1) by (simp add: list_update_append)
    qed
    have "sorted_keys (child_refs ws)" using separated_sorted [OF conjunct1 [OF W(1)]] by (simp add: child_refs_def comp_def)
    then obtain nd' where nd': "inner_set_boundary (int (Suc l)) b nd = Some nd'"
      "inner_repr cap a (child_refs ws) nd'" "inner_modified nd'"
      using inner_set_boundary_spec [OF nd, of "Suc l" b] len unfolding refs by auto
    have "kids_in (blocks s2) x'" "kids_in (blocks s2) y'" using kids N(8) by blast+
    then obtain s3 s4 where s4: "ref_close R (addr x') nx' s2 = Some s3" "ref_close R (addr y') ny' s3 = Some s4"
      "fix_post us s2 s4 ws []"
      using store_redistributed [OF q(1) split ws(1) dw(1,2) subset_trans [OF dw(2) own2] AC N(2-5) _ _ valid] by blast
    have "inner_fix_underflow R cap junk (int i) n1 nd s = Some (w, nd', s4)"
      using B(1-4) N(1,6,7) nd'(1) s4(1,2) ws(2) unfolding inner_fix_underflow_def idx Let_def
      by (simp del: of_nat_Suc)
    then show ?thesis using nd' fp s4(3) ws(3) by blast
  next
    case None
    obtain nx' ny' where N: "node_balance cap junk nx ny = Some (nx', ny', None)" "node_is cap x' nx'"
      "is_modified nx'" "addr x' = addr x" "set (kids x') \<subseteq> set (kids x) \<union> set (kids y)"
      using nb None by auto
    have ws: "ws = ?A @ [(k1, x')] @ ?C" "w = (length us - 1 < UNDERFLOW_BOUND cap)" "fs = [addr y]"
      using fixc' bal None unfolding bt_fix_children_def px py by simp_all
    have refs: "take (Suc l) (child_refs us) @ drop (Suc (Suc l)) (child_refs us) = child_refs ws"
      using len N(4) px unfolding ws(1) child_refs_take [symmetric] child_refs_drop [symmetric]
      by (simp add: take_Suc_conv_app_nth child_refs_def)
    obtain nd' where nd': "inner_remove_child (int (Suc l)) nd = Some nd'"
      "inner_repr cap a (child_refs ws) nd'" "inner_modified nd'"
      using inner_remove_child_spec [OF nd, of "Suc l"] len unfolding refs by auto
    have sz: "inner_size nd' = length us - 1"
      using inner_reprD(4) [OF nd'(2)] len unfolding ws(1) by simp
    have "kids_in (blocks s2) x'" using kids N(5) by blast
    moreover have "addr y \<notin> set (forest_addrs ws)" using dw(3) ws(3) by simp
    ultimately obtain s3 s4 where s4: "ref_close R (addr x') nx' s2 = Some s3" "ref_remove R (addr y) s3 = Some s4"
      "fix_post us s2 s4 ws [addr y]"
      using store_merged [OF q(1) split ws(1) dw(1) _ dw(2) own2 AC N(2,3) _ valid] by blast
    have "inner_fix_underflow R cap junk (int i) n1 nd s = Some (w, nd', s4)"
      using B(1-4) N(1,4) nd'(1) s4(1,2) ws(2) sz unfolding inner_fix_underflow_def idx Let_def
      by (simp del: of_nat_Suc)
    then show ?thesis using nd' fp s4(3) ws(3) by blast
  qed
qed

end

section \<open>Deletion\<close>

lemma bt_del_addr: "bt_del c k u t = (t', d, u', fs) \<Longrightarrow> addr t' = addr t"
  by (cases t) (auto simp: bt_del.simps Let_def split: if_splits prod.splits bool.splits)

context node_store
begin

definition del_post ::
  "('k, 'v) bt \<Rightarrow> 's \<Rightarrow> ('k, 'v) node \<Rightarrow> 's \<Rightarrow> ('k, 'v) bt \<Rightarrow> blk_address list \<Rightarrow> bool" where
  "del_post t s n' s' t' fs \<longleftrightarrow> inv s' \<and> (\<forall>m. room s m \<longrightarrow> room s' m)
     \<and> owned s' \<subseteq> owned s \<and> owned s - set fs \<subseteq> owned s'
     \<and> node_is cap t' n' \<and> kids_in (blocks s') t' \<and> (is_modified n' \<or> bt_content t' = bt_content t)
     \<and> (\<forall>x. x \<notin> set (addrs t) \<longrightarrow> blocks s' x = blocks s x) \<and> blocks s' (addr t) = blocks s (addr t)
     \<and> (\<forall>f\<in>set fs. blocks s' f = None)"

lemma tree_env_refs: "tree_env s t r \<Longrightarrow> \<forall>z\<in>content_refs (bt_content t). valid_ref z"
  using forest_content_refs [of "[(undefined, t)]" r "(undefined, t)"] by (auto simp: tree_env_def)

lemma deleted_env:
  assumes env: "tree_env s t r" and del: "deleted_to c k h t t' fs" and own: "owned s - set fs \<subseteq> owned s'"
  shows "tree_env s' t' r" "set (addrs t') \<subseteq> set (addrs t)" "set fs \<subseteq> set (addrs t)"
    "set fs \<inter> set (addrs t') = {}" "distinct fs"
    "\<forall>z\<in>content_refs (bt_content t'). valid_ref z"
proof -
  have E: "distinct (addrs t)" "set (addrs t) \<subseteq> owned s" "\<forall>a\<in>set (addrs t). valid_ref a \<and> a \<noteq> -1"
    "linked (leafseq t) r" "valid_ref r" using env unfolding tree_env_def by blast+
  have m: "mset (addrs t) = mset (addrs t' @ fs)" and L: "leaves_keep (leafseq t) (leafseq t')"
    using del by (simp_all add: deleted_to_def)
  have d: "distinct (addrs t' @ fs)" "set (addrs t) = set (addrs t' @ fs)"
    using mset_eq_imp_distinct_iff [OF m] mset_eq_setD [OF m] E(1) by simp_all
  then show s: "set (addrs t') \<subseteq> set (addrs t)" "set fs \<subseteq> set (addrs t)" "set fs \<inter> set (addrs t') = {}" "distinct fs" by auto
  have "linked (leafseq t') r" using L E(4) by (simp add: leaves_keep_def)
  moreover have "set (addrs t') \<subseteq> owned s'" using E(2) own s by blast
  ultimately show env': "tree_env s' t' r" using d E s(1) unfolding tree_env_def by auto
  then show "\<forall>z\<in>content_refs (bt_content t'). valid_ref z" by (rule tree_env_refs)
qed

text \<open>Writing the changed child back.\<close>

lemma del_close_child:
  assumes post: "del_post t s n' s' t' fs" and env: "tree_env s' t' r" and t: "tree_in (blocks s) t" "addr t' = addr t"
    and v: "\<forall>z\<in>content_refs (bt_content t'). valid_ref z" and sub: "set fs \<inter> set (addrs t') = {}"
  obtains s3 where "ref_close R (addr t) n' s' = Some s3" "inv s3" "room s3 = room s'" "owned s3 = owned s'"
    "tree_in (blocks s3) t'" "\<forall>x. x \<notin> set (addrs t) \<longrightarrow> blocks s3 x = blocks s x" "\<forall>f\<in>set fs. blocks s3 f = None"
proof -
  have P: "inv s'" "node_is cap t' n'" "kids_in (blocks s') t'" "is_modified n' \<or> bt_content t' = bt_content t"
    "\<forall>x. x \<notin> set (addrs t) \<longrightarrow> blocks s' x = blocks s x" "blocks s' (addr t) = blocks s (addr t)"
    "\<forall>f\<in>set fs. blocks s' f = None" using post unfolding del_post_def by blast+
  have E: "addr t' \<in> owned s'" "distinct (addrs t')" using env addr_in_addrs [of t'] unfolding tree_env_def by blast+
  have w: "is_modified n' \<and> (\<forall>x\<in>content_refs (bt_content t'). valid_ref x) \<or> blocks s' (addr t') = Some (bt_content t')"
    using P(4,6) v t tree_in_root [of "blocks s" t] by auto
  obtain s3 where s3: "ref_close R (addr t') n' s' = Some s3" "inv s3" "room s3 = room s'" "owned s3 = owned s'"
    "blocks s3 = (blocks s')(addr t' \<mapsto> bt_content t')" "tree_in (blocks s3) t'"
    using close_node [OF P(1,2) E(1) P(3) E(2) w] by blast
  have "addr t' \<notin> set fs" using sub addr_in_addrs [of t'] by blast
  then have "\<forall>f\<in>set fs. blocks s3 f = None" using P(7) s3(5) by auto
  moreover have "\<forall>x. x \<notin> set (addrs t) \<longrightarrow> blocks s3 x = blocks s x"
    using P(5) s3(5) t(2) addr_in_addrs [of t] by auto
  ultimately show thesis using that s3 t(2) by simp
qed

lemma trees_except:
  assumes "i < length ts" "\<forall>p\<in>set (take i ts) \<union> set (drop (Suc i) ts). tree_in m (snd p)"
  shows "\<forall>j<length ts. j \<noteq> i \<longrightarrow> tree_in m (snd (ts[i := x] ! j))"
proof (intro allI impI)
  fix j assume j: "j < length ts" "j \<noteq> i"
  have "ts ! j \<in> set (take i ts) \<union> set (drop (Suc i) ts)"
  proof (cases "j < i")
    case True
    then have "take i ts ! j \<in> set (take i ts)" using j by (intro nth_mem) simp
    then show ?thesis using True by simp
  next
    case False
    then have "drop (Suc i) ts ! (j - Suc i) \<in> set (drop (Suc i) ts)" using j by (intro nth_mem) simp
    then show ?thesis using False j by simp
  qed
  then show "tree_in m (snd (ts[i := x] ! j))" using assms(2) j by simp
qed

lemma node_delete_ok:
  assumes "inv s" "bt_ok cap t" "3 \<le> cap" "bt_height h t"
    and "node_is cap t n" "kids_in (blocks s) t" "tree_env s t r" "bt_del cap k u t = (t', d, u', fs)"
  shows "\<exists>n' s'. node_delete_key R cap junk k u n s = Some (d, u', n', s') \<and> del_post t s n' s' t' fs"
  using assms
proof (induction t arbitrary: n s h r t' d u' fs rule: kvs.induct)
  case (1 a xs sib)
  have s: "sorted_keys xs" using "1.prems"(2) by simp
  obtain l where l: "n = LeafN l" "leaf_repr cap a xs sib l" using node_isE_leaf [OF "1.prems"(5) s] .
  obtain l' where l': "leaf_delete_key cap k u l
       = Some (k \<in> keys xs, if k \<in> keys xs then length (kv_del k xs) < UNDERFLOW_BOUND cap else u, l')"
    "leaf_repr cap a (kv_del k xs) sib l'" "if k \<in> keys xs then leaf_modified l' else l' = l"
    using leaf_delete_key_spec [OF l(2)] by blast
  have "node_is cap t' (LeafN l')"
    using "1.prems"(8) leaf_repr_node_is [OF l'(2)] leaf_repr_node_is [OF l(2)] l'(3) by (auto split: if_splits)
  then have "del_post (BLeaf a xs sib) s (LeafN l') s t' fs"
    using "1.prems"(1,8) l'(3) by (auto simp: del_post_def split: if_splits)
  then show ?case using "1.prems"(8) l(1) l'(1) by (subst node_delete_key.simps) (auto split: if_splits)
next
  case (2 a ts)
  have sep: "separated ts" and kids: "\<forall>p\<in>set ts. tree_in (blocks s) (snd p)" using "2.prems"(2,6) by simp_all
  obtain nd where nd: "n = InnerN nd" "inner_repr cap a (child_refs ts) nd" using node_isE_node [OF "2.prems"(5) sep] .
  obtain h' where h: "h = Suc h'" "\<forall>p\<in>set ts. bt_height h' (snd p)" using "2.prems"(4) by auto
  show ?case
  proof (cases "child_index k ts < 0")
    case True
    have e: "t' = BNode a ts" "d = False" "u' = u" "fs = []" using True "2.prems"(8) by (auto simp: bt_del.simps(2) Let_def)
    have "locate_child_index nd k = Some (child_index k ts)" using locate_child_index_spec [OF nd(2)] by simp
    moreover have "del_post (BNode a ts) s n s t' fs" using "2.prems"(1,5,6) e by (simp add: del_post_def)
    ultimately show ?thesis using True e nd(1) by (subst node_delete_key.simps) simp
  next
    case False
    define i where "i = nat (child_index k ts)"
    let ?t = "snd (ts ! i)"
    have k: "0 \<le> child_index k ts" using False by simp
    note C = child_ref [OF "2.prems"(2) nd(2) k, folded i_def]
    have idx: "child_index k ts = int i" using k by (simp add: i_def)
    have t: "tree_in (blocks s) ?t" "bt_ok cap ?t" "bt_height h' ?t" using kids "2.prems"(2) h(2) C(4) by auto
    obtain c0 s1 where g: "ref_get R (addr ?t) s = Some (c0, s1)" "quiet s s1" "node_is cap ?t c0"
      using get_node [OF "2.prems"(1) t(1)] .
    have q: "inv s1" "room s1 = room s" "blocks s1 = blocks s" "owned s1 = owned s" using g(2) by (simp_all add: quiet_def)
    have env1: "tree_env s1 (BNode a ts) r" using "2.prems"(7) q by (simp add: tree_env_def)
    let ?r = "first_leaf (forest_leaves (drop (Suc i) ts)) r"
    have env: "tree_env s1 ?t ?r" using child_frame(4) [OF env1, of "blocks s" i "[]" "blocks s"] kids C(1) by simp
    obtain t1 d1 u1 f1 where child: "bt_del cap k u ?t = (t1, d1, u1, f1)" by (cases "bt_del cap k u ?t")
    have "kids_in (blocks s1) ?t" using t(1) q(3) tree_in_root by metis
    then obtain n1 s2 where IH: "node_delete_key R cap junk k u c0 s1 = Some (d1, u1, n1, s2)" "del_post ?t s1 n1 s2 t1 f1"
      using "2.IH" [OF C(4) q(1) t(2) "2.prems"(3) t(3) g(3) _ env child] by blast
    have D: "d1 \<Longrightarrow> deleted_to cap k h' ?t t1 f1" "d1 \<Longrightarrow> u1 \<Longrightarrow> bt_len t1 < UNDERFLOW_BOUND cap"
      "\<not> d1 \<Longrightarrow> t1 = ?t \<and> f1 = []"
      using bt_del_ok [OF t(2,3) "2.prems"(3) child] by (simp_all split: if_splits)
    define us where "us = ts[i := (fst (ts ! i), t1)]"
    have addr1: "addr t1 = addr ?t" by (rule bt_del_addr [OF child])
    have P: "\<forall>m. room s m \<longrightarrow> room s2 m" "owned s2 \<subseteq> owned s" "owned s - set f1 \<subseteq> owned s2" "inv s2"
      using IH(2) q unfolding del_post_def by simp_all
    have run: "node_delete_key R cap junk k u n s =
      (if \<not> d1 then ref_close R (addr ?t) n1 s2 \<bind> (\<lambda>s3. Some (False, u1, InnerN nd, s3))
       else if \<not> u1 \<or> length ts < 2 then ref_close R (addr ?t) n1 s2 \<bind> (\<lambda>s3. Some (True, u1, InnerN nd, s3))
       else inner_fix_underflow R cap junk (int i) n1 nd s2 \<bind> (\<lambda>(u', nd', s3). Some (True, u', InnerN nd', s3)))"
      using C(2,3) g(1) IH(1) nd inner_reprD(4) [OF nd(2)] idx by (subst node_delete_key.simps) simp
    have eq: "bt_del cap k u (BNode a ts) = (if \<not> d1 then (BNode a ts, False, u1, f1)
        else if \<not> u1 \<or> length ts < 2 then (BNode a us, True, u1, f1)
        else (case bt_fix_children cap (i - 1) us of (ws, u'', fs') \<Rightarrow> (BNode a ws, True, u'', f1 @ fs')))"
      using C(1) False child by (simp add: bt_del.simps(2) Let_def i_def [symmetric] us_def split: bool.split)
    have refs: "child_refs us = child_refs ts"
      using C(1) addr1 by (intro nth_equalityI) (auto simp: us_def nth_list_update)
    have T1: "tree_env s2 t1 ?r" "set f1 \<inter> set (addrs t1) = {}" "set f1 \<subseteq> set (addrs ?t)"
      "\<forall>z\<in>content_refs (bt_content t1). valid_ref z"
    proof -
      have "tree_env s2 t1 ?r \<and> set f1 \<inter> set (addrs t1) = {} \<and> set f1 \<subseteq> set (addrs ?t)"
      proof (cases d1)
        case True
        then show ?thesis using deleted_env [OF env D(1) P(3) [folded q(4)]] by simp
      next
        case False
        then show ?thesis using D(3) env P(2,3) q(4) unfolding tree_env_def by auto
      qed
      then show "tree_env s2 t1 ?r" "set f1 \<inter> set (addrs t1) = {}" "set f1 \<subseteq> set (addrs ?t)"
        "\<forall>z\<in>content_refs (bt_content t1). valid_ref z" using tree_env_refs by blast+
    qed
    have kids1: "\<forall>p\<in>set ts. tree_in (blocks s1) (snd p)" using kids q(3) by simp
    have us: "us = take i ts @ (fst (ts ! i), t1) # drop (Suc i) ts" using C(1) by (simp add: us_def upd_conv_take_nth_drop)
    show ?thesis
    proof (cases "d1 \<and> u1 \<and> 2 \<le> length ts")
      case False
      obtain s3 where s3: "ref_close R (addr ?t) n1 s2 = Some s3" "inv s3" "room s3 = room s2" "owned s3 = owned s2"
        "tree_in (blocks s3) t1" "\<forall>x. x \<notin> set (addrs ?t) \<longrightarrow> blocks s3 x = blocks s1 x" "\<forall>f\<in>set f1. blocks s3 f = None"
        using del_close_child [OF IH(2) T1(1) _ addr1 T1(4,2)] t(1) q(3) by metis
      have "\<forall>x. x \<notin> set (addrs ?t) \<union> set [] \<longrightarrow> blocks s3 x = blocks s1 x" using s3(6) by simp
      note F = child_frame [OF env1 kids1 C(1) _ this, simplified]
      have "\<forall>p\<in>set us. tree_in (blocks s3) (snd p)" using F(1) s3(5) unfolding us by (simp add: ball_Un)
      then have "del_post (BNode a ts) s (InnerN nd) s3 (BNode a us) f1"
        using F(2,3) s3 P q refs inner_repr_node_is [of cap a us nd] nd(2) unfolding del_post_def by simp
      moreover have "\<not> d1 \<longrightarrow> us = ts" using D(3) C(1) by (simp add: us_def)
      ultimately show ?thesis using run eq "2.prems"(8) s3(1) False by (auto split: if_splits)
    next
      case True
      obtain ws w fs' where fixed: "bt_fix_children cap (i - 1) us = (ws, w, fs')" by (cases "bt_fix_children cap (i - 1) us")
      have del: "deleted_to cap k h (BNode a ts) (BNode a us) f1"
        using forest_delete_child [OF "2.prems"(2) h(2) k i_def D(1) us_def] True h(1) by simp
      have okU: "forest_ok cap us" "\<forall>p\<in>set us. bt_height h' (snd p)" using del h(1) by (simp_all add: deleted_to_def)
      note E2 = deleted_env [OF "2.prems"(7) del P(3)]
      have nd2: "inner_repr cap a (child_refs us) nd" using nd(2) refs by simp
      have Q: "node_is cap t1 n1" "kids_in (blocks s2) t1" "\<forall>f\<in>set f1. blocks s2 f = None"
        "\<forall>x. x \<notin> set (addrs ?t) \<union> set [] \<longrightarrow> blocks s2 x = blocks s1 x" using IH(2) unfolding del_post_def by simp_all
      note F = child_frame [OF env1 kids1 C(1) _ Q(4), simplified]
      have lu: "i < length us" "2 \<le> length us" "us ! i = (fst (ts ! i), t1)" using True C(1) by (simp_all add: us_def)
      have others: "\<forall>j<length us. j \<noteq> i \<longrightarrow> tree_in (blocks s2) (snd (us ! j))"
        using trees_except [OF C(1) F(1)] by (simp add: us_def)
      have pr: "node_is cap (snd (us ! i)) n1" "kids_in (blocks s2) (snd (us ! i))"
        "bt_len (snd (us ! i)) < UNDERFLOW_BOUND cap" "2 \<le> cap" using lu(3) Q(1,2) D(2) True "2.prems"(3) by simp_all
      obtain nd' s' where X: "inner_fix_underflow R cap junk (int i) n1 nd s2 = Some (w, nd', s')"
        "inner_repr cap a (child_refs ws) nd'" "inner_modified nd'" "fix_post us s2 s' ws fs'"
        using inner_fix_underflow_ok [OF P(4) pr(4) okU lu(1,2) nd2 pr(1,2) others pr(3) E2(1) fixed] by blast
      have "del_post (BNode a ts) s (InnerN nd') s' (BNode a ws) (f1 @ fs')"
        unfolding del_post_def
      proof (intro conjI)
        have sub: "set (forest_addrs us) \<subseteq> set (addrs (BNode a ts))" "a \<notin> set (forest_addrs us)"
          "set f1 \<inter> set (forest_addrs us) = {}" using E2(1,2,4) by (auto simp: tree_env_def)
        have Y: "inv s'" "\<forall>m. room s2 m \<longrightarrow> room s' m" "owned s' \<subseteq> owned s2" "owned s2 - set fs' \<subseteq> owned s'"
          "\<forall>p\<in>set ws. tree_in (blocks s') (snd p)" "\<forall>x. x \<notin> set (forest_addrs us) \<longrightarrow> blocks s' x = blocks s2 x"
          "\<forall>f\<in>set fs'. blocks s' f = None" using X(4) unfolding fix_post_def by blast+
        show "inv s'" by (rule Y(1))
        show "\<forall>m. room s m \<longrightarrow> room s' m" "owned s' \<subseteq> owned s" using P(1,2) Y(2,3) by blast+
        show "owned s - set (f1 @ fs') \<subseteq> owned s'" using P(3) Y(4) by auto
        show "node_is cap (BNode a ws) (InnerN nd')" using inner_repr_node_is X(2) by blast
        show "kids_in (blocks s') (BNode a ws)" using Y(5) by simp
        show "is_modified (InnerN nd') \<or> bt_content (BNode a ws) = bt_content (BNode a ts)" using X(3) by simp
        show "\<forall>x. x \<notin> set (addrs (BNode a ts)) \<longrightarrow> blocks s' x = blocks s x"
        proof (intro allI impI)
          fix x assume x: "x \<notin> set (addrs (BNode a ts))"
          then have "blocks s' x = blocks s2 x" using Y(6) sub(1) by blast
          then show "blocks s' x = blocks s x" using F(3) x q(3) by simp
        qed
        show "blocks s' (addr (BNode a ts)) = blocks s (addr (BNode a ts))" using F(2) Y(6) sub(2) q(3) by simp
        have "\<forall>f\<in>set f1. blocks s' f = blocks s2 f" using Y(6) sub(3) by blast
        then show "\<forall>f\<in>set (f1 @ fs'). blocks s' f = None" using Y(7) Q(3) by auto
      qed
      then show ?thesis using run eq "2.prems"(8) True X(1) fixed by auto
    qed
  qed
qed

end

end
