(* ===== verification/Vanilla_Correct.thy ===== *)
theory Vanilla_Correct
  imports Tree_Refine
begin

text \<open>
  The methods of \<^verbatim>\<open>VanillaBPlusTree\<close> over every storage with the contract of
  \<^verbatim>\<open>Node_Store\<close>: each returns, keeps the invariant of the tree and acts on its sorted
  list of entries as \<open>kv_put\<close>, \<open>kv_del\<close> and \<open>map_of\<close> do.
\<close>

section \<open>Splitting the root\<close>

fun bt_first_key :: "('k, 'v) bt \<Rightarrow> 'k" where
  "bt_first_key (BLeaf a xs sib) = fst (hd xs)"
| "bt_first_key (BNode a ts) = fst (hd ts)"

lemma finite_bt_keys: "finite (bt_keys t)"
  by (induction t rule: kvs.induct) auto

lemma separated_first: "separated ts \<Longrightarrow> p \<in> set ts \<Longrightarrow> fst (hd ts) \<le> fst p"
  by (cases ts) (auto simp: separated_Cons)

lemma bt_first_key_least:
  assumes "bt_ok c t" "0 < bt_len t"
  shows "bt_first_key t \<in> bt_keys t" "\<forall>x\<in>bt_keys t. bt_first_key t \<le> x"
proof -
  show "bt_first_key t \<in> bt_keys t"
  proof (cases t)
    case (BLeaf a xs sib)
    then show ?thesis using assms by (cases xs) (auto simp: bt_len_def)
  next
    case (BNode a ts)
    then show ?thesis using assms by (cases ts) auto
  qed
  show "\<forall>x\<in>bt_keys t. bt_first_key t \<le> x"
  proof (cases t)
    case (BLeaf a xs sib)
    then show ?thesis using assms by (cases xs) (auto simp: bt_len_def)
  next
    case (BNode a ts)
    have sep: "separated ts" using assms(1) BNode by simp
    show ?thesis
    proof
      fix x assume "x \<in> bt_keys t"
      then obtain p where p: "p \<in> set ts" "x = fst p \<or> x \<in> bt_keys (snd p)" using BNode by auto
      then have "fst p \<le> x" using sep by (auto simp: separated_def)
      then show "bt_first_key t \<le> x" using separated_first [OF sep p(1)] BNode by simp
    qed
  qed
qed

lemma bt_ins_split_len:
  assumes "bt_ok c t" "2 \<le> c" "bt_ins c k v fs t = (t', Some (b, r), fs')"
  shows "0 < bt_len t'" "0 < bt_len r"
proof -
  have "0 < bt_len t' \<and> 0 < bt_len r"
  proof (cases t)
    case (BLeaf a xs sib)
    have xs: "sorted_keys xs" "length xs \<le> c" using assms(1) BLeaf by simp_all
    from xs assms(2) show ?thesis
      by (cases rule: ins_split_cases [where k = k and v = v]) (use assms(3) BLeaf in \<open>auto simp: bt_len_def\<close>)
  next
    case (BNode a ts)
    from assms(1) [unfolded BNode] assms(2) show ?thesis
      by (cases rule: bt_ins_node [where k = k and v = v and fs = fs]) (use assms(3) BNode in \<open>auto simp: bt_len_def\<close>)
  qed
  then show "0 < bt_len t'" "0 < bt_len r" by simp_all
qed

lemma bt_ins_root:
  assumes ok: "bt_ok c t" and c: "2 \<le> c" and ins: "bt_ins c k v fs t = (t', sp, fs')"
  shows "bt_ok c t'" "sp = None \<Longrightarrow> kvs t' = kv_put k v (kvs t)"
    "sp = Some (b, r) \<Longrightarrow> bt_ok c (BNode a [(bt_first_key t', t'), (bt_first_key r, r)])
       \<and> kvs (BNode a [(bt_first_key t', t'), (bt_first_key r, r)]) = kv_put k v (kvs t)
       \<and> bt_first_key t' < bt_first_key r"
proof -
  define s where "s = Min (insert k (bt_keys t))"
  have "s \<le> k" "\<forall>x\<in>bt_keys t. s \<le> x" using finite_bt_keys [of t] by (simp_all add: s_def)
  from bt_ins_ok [OF ok c this ins]
  have G: "forest_ok c (grown s t' sp)" "forest_kvs (grown s t' sp) = kv_put k v (kvs t)" by simp_all
  show "bt_ok c t'" "sp = None \<Longrightarrow> kvs t' = kv_put k v (kvs t)" using G by (auto simp: grown_def)
  assume sp: "sp = Some (b, r)"
  have len: "0 < bt_len t'" "0 < bt_len r" using bt_ins_split_len [OF ok c ins [unfolded sp]] by simp_all
  have ok2: "bt_ok c t'" "bt_ok c r" "\<forall>x\<in>bt_keys t'. x < b" "\<forall>x\<in>bt_keys r. b \<le> x"
    using G(1) sp by (auto simp: grown_def separated_Cons)
  note F = bt_first_key_least [OF ok2(1) len(1)] bt_first_key_least [OF ok2(2) len(2)]
  have "x < bt_first_key r" if "x \<in> bt_keys t'" for x using ok2(3,4) F(3) that by (meson less_le_trans)
  then have "separated [(bt_first_key t', t'), (bt_first_key r, r)]" "bt_first_key t' < bt_first_key r"
    using F by (simp_all add: separated_def)
  then show "bt_ok c (BNode a [(bt_first_key t', t'), (bt_first_key r, r)])
       \<and> kvs (BNode a [(bt_first_key t', t'), (bt_first_key r, r)]) = kv_put k v (kvs t)
       \<and> bt_first_key t' < bt_first_key r"
    using G(2) sp ok2(1,2) c by (simp add: grown_def)
qed

lemma node_leftmost_key_ok:
  assumes "node_is c t n" "bt_ok c t" "0 < bt_len t"
  shows "node_leftmost_key n = Some (bt_first_key t)"
proof (cases t)
  case (BLeaf a xs sib)
  then obtain l where l: "n = LeafN l" "leaf_repr c a xs sib l" using assms node_isE_leaf [of c a xs sib n] by auto
  then show ?thesis
    using leaf_repr_aget(1) [OF l(2), of 0] assms(3) BLeaf by (cases xs) (simp_all add: leaf_get_leftmost_key_def bt_len_def)
next
  case (BNode a ts)
  then obtain nd where nd: "n = InnerN nd" "inner_repr c a (child_refs ts) nd" using assms node_isE_node [of c a ts n] by auto
  then show ?thesis
    using inner_repr_aget(1) [OF nd(2), of 0] assms(3) BNode by (cases ts) (simp_all add: inner_get_leftmost_key_def bt_len_def)
qed

section \<open>The invariant of the tree\<close>

context node_store
begin

definition tree_is :: "'s vtree \<Rightarrow> ('k, 'v) bt \<Rightarrow> bool" where
  "tree_is T t \<longleftrightarrow> inv (store T) \<and> tree_in (blocks (store T)) t \<and> bt_ok cap t \<and> 1 \<le> depth T
     \<and> bt_height (nat (depth T) - 1) t \<and> tree_env (store T) t (-1) \<and> root_ref T = addr t"

lemma tree_isD:
  assumes "tree_is T t"
  shows "inv (store T)" "tree_in (blocks (store T)) t" "bt_ok cap t" "1 \<le> depth T"
    "bt_height (nat (depth T) - 1) t" "tree_env (store T) t (-1)" "root_ref T = addr t"
  using assms by (simp_all add: tree_is_def)

lemma tree_is_quiet: "tree_is T t \<Longrightarrow> quiet (store T) s \<Longrightarrow> tree_is (T\<lparr>store := s\<rparr>) t"
  by (simp add: tree_is_def quiet_def tree_env_def)

lemma tree_get:
  assumes "tree_is T t"
  obtains n s where "ref_get R (root_ref T) (store T) = Some (n, s)" "quiet (store T) s" "node_is cap t n"
    "inv s" "tree_in (blocks s) t" "kids_in (blocks s) t" "tree_env s t (-1)" "room s = room (store T)"
proof -
  note T = tree_isD [OF assms]
  obtain n s where n: "ref_get R (addr t) (store T) = Some (n, s)" "quiet (store T) s" "node_is cap t n"
    using get_node [OF T(1,2)] .
  have q: "inv s" "tree_in (blocks s) t" "tree_env s t (-1)" "room s = room (store T)"
    using n(2) T(2,6) by (simp_all add: quiet_def tree_env_def)
  then show thesis using that n T(7) tree_in_root [of "blocks s" t] by metis
qed

lemma vt_init_ok:
  assumes "inv s" "room s (Suc m)"
  shows "\<exists>T. vt_init R cap s = Some T \<and> tree_is T (BLeaf (root_ref T) [] (-1)) \<and> room (store T) m
     \<and> blocks (store T) = (blocks s)(root_ref T \<mapsto> LeafC (root_ref T) [] (-1)) \<and> root_ref T \<notin> owned s"
proof -
  obtain a s1 where a: "allocate_ref R s = Some (a, s1)" "inv s1" "room s1 m" "\<forall>x. x \<noteq> a \<longrightarrow> blocks s1 x = blocks s x" "a \<notin> owned s"
    "owned s1 = insert a (owned s)" "valid_ref a" "a \<noteq> -1" using alloc [OF assms] by blast
  let ?n = "LeafN (leaf_mark (new_leaf cap a)) :: ('k, 'v) node"
  have n: "node_is cap (BLeaf a [] (-1)) ?n"
    by (rule leaf_repr_node_is) (use new_leaf_repr [of cap a] in \<open>simp add: leaf_repr_def leaf_ok_def leaf_list_def\<close>)
  obtain s2 where s2: "ref_close R (addr (BLeaf a [] (-1))) ?n s1 = Some s2" "inv s2" "room s2 = room s1" "owned s2 = owned s1"
    "blocks s2 = (blocks s1)(addr (BLeaf a [] (-1)) \<mapsto> bt_content (BLeaf a [] (-1)))" "tree_in (blocks s2) (BLeaf a [] (-1))"
    by (rule close_node [OF a(2) n]) (use a(6,7) valid_null in \<open>auto simp: leaf_mark_def\<close>)
  let ?T = "\<lparr>root_ref = a, depth = 1, store = s2\<rparr>"
  have "vt_init R cap s = Some ?T" using a(1) s2(1) by (simp add: vt_init_def)
  moreover have "tree_is ?T (BLeaf a [] (-1))"
    using s2 a valid_null by (simp add: tree_is_def tree_env_def first_leaf_def)
  moreover have "blocks s2 = (blocks s)(a \<mapsto> LeafC a [] (-1))" using s2(5) a(4) by (auto simp: fun_eq_iff)
  ultimately show ?thesis using s2(3) a(3,5) by simp
qed

lemma vt_search_ok:
  assumes "tree_is T t"
  shows "\<exists>T'. vt_search R k T = Some (map_of (kvs t) k, T') \<and> tree_is T' t \<and> depth T' = depth T
     \<and> room (store T') = room (store T) \<and> blocks (store T') = blocks (store T)"
proof -
  obtain n s1 where g: "ref_get R (root_ref T) (store T) = Some (n, s1)" "quiet (store T) s1" "node_is cap t n"
    "inv s1" "tree_in (blocks s1) t" "kids_in (blocks s1) t" "tree_env s1 t (-1)" "room s1 = room (store T)"
    using tree_get [OF assms] .
  obtain s2 where s2: "node_search R k n s1 = Some (map_of (kvs t) k, s2)" "quiet s1 s2"
    using node_search_ok [OF g(4) tree_isD(3) [OF assms] g(3,6)] by blast
  have "inv s2" "tree_in (blocks s2) t" using s2(2) g(5) by (simp_all add: quiet_def)
  then obtain s3 where s3: "ref_close R (addr t) n s2 = Some s3" "quiet s2 s3" by (rule close_same [OF _ _ g(3)])
  have q: "quiet (store T) s3" using g(2) s2(2) s3(2) by (blast intro: quiet_trans)
  have "vt_search R k T = Some (map_of (kvs t) k, T\<lparr>store := s3\<rparr>)"
    using g(1) s2(1) s3(1) tree_isD(7) [OF assms] by (simp add: vt_search_def)
  then show ?thesis using tree_is_quiet [OF assms q] q by (simp add: quiet_def)
qed

subsection \<open>Insertion\<close>

lemma vt_grow_ok:
  assumes s: "inv s" "room s (Suc m)" and c: "2 \<le> cap"
    and n: "node_is cap t1 n1" "node_is cap t2 n2" "is_modified n1" "is_modified n2" "kids_in (blocks s) t1" "kids_in (blocks s) t2"
    and len: "0 < bt_len t1" "0 < bt_len t2" and h: "bt_height h t1" "bt_height h t2" "h = nat (depth T) - 1" "1 \<le> depth T"
    and ok: "\<And>a. bt_ok cap (BNode a [(bt_first_key t1, t1), (bt_first_key t2, t2)])" "bt_first_key t1 < bt_first_key t2"
    and A: "distinct (addrs t1 @ addrs t2)" "set (addrs t1 @ addrs t2) \<subseteq> owned s"
      "\<forall>x\<in>set (addrs t1 @ addrs t2). valid_ref x \<and> x \<noteq> -1" "linked (leafseq t1 @ leafseq t2) (-1)"
    and valid: "\<forall>x\<in>content_refs (bt_content t1) \<union> content_refs (bt_content t2). valid_ref x"
  shows "\<exists>a T'. vt_grow R cap \<lparr>split_left = n1, split_right = n2, boundary_key = b\<rparr> T s = Some T' \<and> room (store T') m
     \<and> tree_is T' (BNode a [(bt_first_key t1, t1), (bt_first_key t2, t2)]) \<and> depth T' = depth T + 1"
proof -
  obtain a s1 where a: "allocate_ref R s = Some (a, s1)" "inv s1" "room s1 m" "\<forall>x. x \<noteq> a \<longrightarrow> blocks s1 x = blocks s x" "a \<notin> owned s"
    "owned s1 = insert a (owned s)" "valid_ref a" "a \<noteq> -1" using alloc [OF s] by blast
  let ?ts = "[(bt_first_key t1, t1), (bt_first_key t2, t2)]"
  have ok2: "bt_ok cap t1" "bt_ok cap t2" using ok(1) [of 0] by simp_all
  note lk = node_leftmost_key_ok [OF n(1) ok2(1) len(1)] node_leftmost_key_ok [OF n(2) ok2(2) len(2)]
  have self: "node_self n1 = addr t1" "node_self n2 = addr t2" using n(1,2) node_is_self by blast+
  have nz: "addr t1 \<noteq> -1" "addr t2 \<noteq> -1" using A(3) addr_in_addrs [of t1] addr_in_addrs [of t2] by auto
  obtain nd where nd: "new_inner_of cap a (bt_first_key t1, addr t1) (bt_first_key t2, addr t2) = Some nd"
    "inner_repr cap a (child_refs ?ts) nd"
    using new_inner_of_spec [OF c, of "(bt_first_key t1, addr t1)" "(bt_first_key t2, addr t2)" a] ok(2) nz
    by (auto simp: child_refs_def)
  have na: "a \<notin> set (addrs t1)" "a \<notin> set (addrs t2)" using A(2) a(5) by auto
  obtain s2 s3 where s3: "ref_close R (addr t1) n1 s1 = Some s2" "ref_close R (addr t2) n2 s2 = Some s3" "inv s3"
    "room s3 = room s1" "owned s3 = owned s1" "tree_in (blocks s3) t1" "tree_in (blocks s3) t2"
    "blocks s3 = (blocks s1)(addr t1 \<mapsto> bt_content t1, addr t2 \<mapsto> bt_content t2)"
    by (rule close_pair [OF a(2) n(1-4) kids_other [OF n(5) na(1) a(4)] kids_other [OF n(6) na(2) a(4)]])
      (use a(6) A valid in auto)
  have m: "inner_repr cap a (child_refs ?ts) (inner_mark nd)" using nd(2) by (simp add: inner_repr_def inner_list_def)
  have an: "a \<notin> set (addrs t1 @ addrs t2)" using A(2) a(5) by blast
  have env: "tree_env s3 (BNode a ?ts) (-1)" using A an s3(5) a(6-8) valid_null by (auto simp: tree_env_def)
  have mod: "is_modified (InnerN (inner_mark nd))" by (simp add: inner_mark_def)
  obtain s4 where s4: "ref_close R (addr (BNode a ?ts)) (InnerN (inner_mark nd)) s3 = Some s4" "inv s4" "room s4 = room s3"
    "owned s4 = owned s3" "tree_in (blocks s4) (BNode a ?ts)"
    by (rule close_node [OF s3(3) inner_repr_node_is [OF m]])
      (use mod s3(6,7) env tree_env_refs [OF env] in \<open>auto simp: tree_env_def\<close>)
  let ?T = "T\<lparr>root_ref := a, depth := depth T + 1, store := s4\<rparr>"
  have "vt_grow R cap \<lparr>split_left = n1, split_right = n2, boundary_key = b\<rparr> T s = Some ?T"
    using a(1) lk self nd(1) s3(1,2) s4(1) by (simp add: vt_grow_def)
  moreover have "bt_height (nat (depth T + 1) - 1) (BNode a ?ts)" using h by (auto intro!: exI [of _ h])
  ultimately show ?thesis using s4 env ok(1) h(4) s3(4,5) a(3) by (auto simp: tree_is_def tree_env_def)
qed

lemma vt_insert_ok:
  assumes T: "tree_is T t" and c: "2 \<le> cap" and r: "room (store T) (nat (depth T) + 1 + m)"
  shows "\<exists>T' t'. vt_insert R cap k v T = Some T' \<and> tree_is T' t' \<and> kvs t' = kv_put k v (kvs t) \<and> room (store T') m
     \<and> (depth T' = depth T \<or> depth T' = depth T + 1)"
proof -
  note D = tree_isD [OF T]
  obtain n s1 where g: "ref_get R (root_ref T) (store T) = Some (n, s1)" "quiet (store T) s1" "node_is cap t n"
    "inv s1" "tree_in (blocks s1) t" "kids_in (blocks s1) t" "tree_env s1 t (-1)" "room s1 = room (store T)"
    using tree_get [OF T] .
  have "Suc (nat (depth T) - 1) + Suc m = nat (depth T) + 1 + m" using D(4) by simp
  then have rm: "room s1 (Suc (nat (depth T) - 1) + Suc m)" using r g(8) by simp
  obtain n' sp us t' tsp s2 where I: "node_iwss R cap k v n s1 = Some (n', sp, s2)"
    "\<forall>rest. bt_ins cap k v (us @ rest) t = (t', tsp, rest)" "room s2 (Suc m)" "ins_post t s1 n' sp s2 us t' tsp"
    using node_iwss_ok [OF g(4) D(3) c D(5) rm g(3,6,7)] by blast
  have ins: "bt_ins cap k v (us @ [0]) t = (t', tsp, [0])" using I(2) by blast
  note F = ins_post_forest [OF g(7) D(3) c I(2,4), where x = undefined, OF refl]
  have P: "inv s2" "node_is cap t' n'" "kids_in (blocks s2) t'" "is_modified n' \<or> tsp = None \<and> bt_content t' = bt_content t"
    "blocks s2 (addr t) = blocks s1 (addr t)" using I(4) unfolding ins_post_def by blast+
  note H = bt_ins_height [OF D(3) c D(5) ins, of undefined]
  note B = bt_ins_root [OF D(3) c ins]
  show ?thesis
  proof (cases tsp)
    case None
    have sp: "sp = None" using I(4) None by (simp add: ins_post_def)
    have own: "addr t' \<in> owned s2" "distinct (addrs t')" using F(1,3) None addr_in_addrs [of t'] by (auto simp: grown_def)
    have w: "is_modified n' \<and> (\<forall>x\<in>content_refs (bt_content t'). valid_ref x) \<or> blocks s2 (addr t') = Some (bt_content t')"
      using P(4,5) F(5,7) None g(5) tree_in_root [of "blocks s1" t] by (auto simp: grown_def)
    obtain s3 where s3: "ref_close R (addr t') n' s2 = Some s3" "inv s3" "room s3 = room s2" "owned s3 = owned s2"
      "tree_in (blocks s3) t'" using close_node [OF P(1,2) own(1) P(3) own(2) w] by blast
    have "vt_insert R cap k v T = Some (T\<lparr>store := s3\<rparr>)"
      using g(1) I(1) sp s3(1) F(7) D(7) by (simp add: vt_insert_def)
    moreover have "tree_is (T\<lparr>store := s3\<rparr>) t'"
      using s3 B(1) H F None D valid_null by (auto simp: tree_is_def tree_env_def grown_def)
    moreover have "room s3 m" using s3(3) I(3) room_mono [of s2 "Suc m" m] by simp
    ultimately show ?thesis using B(2) None by auto
  next
    case (Some p)
    then obtain b rt where p: "tsp = Some (b, rt)" by (cases p) simp
    obtain rn where rn: "sp = Some \<lparr>split_left = n', split_right = rn, boundary_key = b\<rparr>" "node_is cap rt rn"
      "kids_in (blocks s2) rt" "is_modified rn" using I(4) p by (auto simp: ins_post_def)
    have mod: "is_modified n'" using P(4) p by simp
    have G: "distinct (addrs t' @ addrs rt)" "set (addrs t' @ addrs rt) \<subseteq> owned s2"
      "\<forall>x\<in>set (addrs t' @ addrs rt). valid_ref x \<and> x \<noteq> -1" "linked (leafseq t' @ leafseq rt) (-1)"
      "\<forall>x\<in>content_refs (bt_content t') \<union> content_refs (bt_content rt). valid_ref x"
      using F(1,3,4,5,6) p by (auto simp: grown_def)
    have h: "bt_height (nat (depth T) - 1) t'" "bt_height (nat (depth T) - 1) rt" using H p by (simp_all add: grown_def)
    have ok: "\<And>a. bt_ok cap (BNode a [(bt_first_key t', t'), (bt_first_key rt, rt)])" "bt_first_key t' < bt_first_key rt"
      and kv: "\<And>a. kvs (BNode a [(bt_first_key t', t'), (bt_first_key rt, rt)]) = kv_put k v (kvs t)"
      using B(3) [OF p] by blast+
    obtain a T' where T': "vt_grow R cap \<lparr>split_left = n', split_right = rn, boundary_key = b\<rparr> T s2 = Some T'" "room (store T') m"
      "tree_is T' (BNode a [(bt_first_key t', t'), (bt_first_key rt, rt)])" "depth T' = depth T + 1"
      using vt_grow_ok [OF P(1) I(3) c P(2) rn(2) mod rn(4) P(3) rn(3) bt_ins_split_len [OF D(3) c ins [unfolded p]]
          h refl D(4) ok G] by blast
    moreover have "vt_insert R cap k v T = Some T'" using g(1) I(1) rn(1) T'(1) by (simp add: vt_insert_def)
    ultimately show ?thesis using kv by blast
  qed
qed

subsection \<open>Deletion\<close>

lemma bt_del_root:
  assumes env: "tree_env s t r" and t: "bt_ok cap t" "bt_height h t" and c: "3 \<le> cap" and del: "bt_del cap k False t = (t', d, u', fs)"
    and own: "owned s' \<subseteq> owned s" "owned s - set fs \<subseteq> owned s'"
  shows "d = (k \<in> keys (kvs t))" "bt_ok cap t'" "bt_height h t'" "kvs t' = kv_del k (kvs t)" "tree_env s' t' r"
    "set fs \<inter> set (addrs t') = {}"
proof -
  note D = bt_del_ok [OF t c del]
  have "bt_ok cap t' \<and> bt_height h t' \<and> kvs t' = kv_del k (kvs t) \<and> tree_env s' t' r \<and> set fs \<inter> set (addrs t') = {}"
  proof (cases d)
    case True
    then have del: "deleted_to cap k h t t' fs" using D by simp
    then show ?thesis using deleted_env [OF env del own(2)] by (simp add: deleted_to_def)
  next
    case False
    then show ?thesis using D env t own kv_del_absent [of k "kvs t"] by (auto simp: tree_env_def)
  qed
  then show "bt_ok cap t'" "bt_height h t'" "kvs t' = kv_del k (kvs t)" "tree_env s' t' r" "set fs \<inter> set (addrs t') = {}" by simp_all
  show "d = (k \<in> keys (kvs t))" using D by simp
qed

text \<open>The root with a single child is removed.\<close>

lemma vt_shrink_ok:
  assumes inv: "inv s" and n: "node_is cap (BNode a [(x, t)]) (InnerN nd)" and t: "tree_in (blocks s) t" "bt_ok cap t" "bt_height h t"
    and env: "tree_env s (BNode a [(x, t)]) (-1)" and T: "root_ref T = a" "h = nat (depth T) - 2" "2 \<le> depth T"
  shows "\<exists>s'. get_child_rep nd 0 = Some (addr t) \<and> node_remove R (root_ref T) (InnerN (nd\<lparr>inner_size := 0\<rparr>)) 0 s = Some s'
     \<and> tree_is (T\<lparr>root_ref := addr t, depth := depth T - 1, store := s'\<rparr>) t \<and> (\<forall>m. room s m \<longrightarrow> room s' m)"
proof -
  have E: "a \<in> owned s" "a \<notin> set (addrs t)" "set (addrs t) \<subseteq> owned s" using env by (auto simp: tree_env_def)
  obtain s' where s': "ref_remove R a s = Some s'" "inv s'" "\<forall>m. room s m \<longrightarrow> room s' m" "blocks s' = (blocks s)(a := None)"
    "owned s - {a} \<subseteq> owned s'" using remove [OF inv E(1)] by blast
  have "tree_in (blocks s') t" by (rule tree_in_cong [OF t(1)]) (use E(2) s'(4) in auto)
  moreover have "tree_env s' t (-1)" using env E s'(5) by (auto simp: tree_env_def)
  moreover have "nat (depth T) - 2 = nat (depth T - 1) - 1" by linarith
  ultimately have "tree_is (T\<lparr>root_ref := addr t, depth := depth T - 1, store := s'\<rparr>) t"
    using s'(2) t T by (simp add: tree_is_def)
  moreover have "get_child_rep nd 0 = Some (addr t)"
  proof -
    have "inner_list nd = [(x, addr t)]" "length (child_rep nd) = cap" "length (key nd) = cap" "inner_size nd \<le> cap"
      using n by (auto simp: node_is_def child_refs_def)
    then have "0 < cap" "child_rep nd ! 0 = addr t" unfolding inner_list_def by (cases "inner_size nd"; cases "key nd"; cases "child_rep nd"; simp)+
    then show ?thesis using n by (simp add: get_child_rep_def aget_def node_is_def)
  qed
  ultimately show ?thesis using s'(1,3) T(1) by (subst node_remove.simps) simp
qed

lemma vt_delete_key_ok:
  assumes T: "tree_is T t" and c: "3 \<le> cap"
  shows "\<exists>T' t'. vt_delete_key R cap junk k T = Some (k \<in> keys (kvs t), T') \<and> tree_is T' t' \<and> kvs t' = kv_del k (kvs t)
     \<and> (\<forall>m. room (store T) m \<longrightarrow> room (store T') m) \<and> depth T' \<le> depth T"
proof -
  note D = tree_isD [OF T]
  obtain n s1 where g: "ref_get R (root_ref T) (store T) = Some (n, s1)" "quiet (store T) s1" "node_is cap t n"
    "inv s1" "tree_in (blocks s1) t" "kids_in (blocks s1) t" "tree_env s1 t (-1)" "room s1 = room (store T)"
    using tree_get [OF T] .
  obtain t' d u' fs where del: "bt_del cap k False t = (t', d, u', fs)" by (cases "bt_del cap k False t")
  obtain n' s2 where N: "node_delete_key R cap junk k False n s1 = Some (d, u', n', s2)" "del_post t s1 n' s2 t' fs"
    using node_delete_ok [OF g(4) D(3) c D(5) g(3,6,7) del] by blast
  have P: "inv s2" "\<forall>m. room s1 m \<longrightarrow> room s2 m" "owned s2 \<subseteq> owned s1" "owned s1 - set fs \<subseteq> owned s2" "node_is cap t' n'" "kids_in (blocks s2) t'"
    using N(2) unfolding del_post_def by blast+
  have ok: "d = (k \<in> keys (kvs t))" "bt_ok cap t'" "bt_height (nat (depth T) - 1) t'" "kvs t' = kv_del k (kvs t)"
    "tree_env s2 t' (-1)" "set fs \<inter> set (addrs t') = {}"
    using bt_del_root [OF g(7) D(3,5) c del P(3,4)] by simp_all
  have addr: "addr t' = addr t" by (rule bt_del_addr [OF del])
  have v: "\<forall>z\<in>content_refs (bt_content t'). valid_ref z" by (rule tree_env_refs [OF ok(5)])
  obtain s3 where s3: "ref_close R (addr t) n' s2 = Some s3" "inv s3" "room s3 = room s2" "owned s3 = owned s2" "tree_in (blocks s3) t'"
    using del_close_child [OF N(2) ok(5) g(5) addr v ok(6)] .
  have keep: "tree_is (T\<lparr>store := s3\<rparr>) t'" using s3 ok D addr by (simp add: tree_is_def tree_env_def)
  show ?thesis
  proof (cases "\<exists>nd. n' = InnerN nd \<and> u' \<and> inner_size nd = 1")
    case True
    then obtain nd where nd: "n' = InnerN nd" "u'" "inner_size nd = 1" by blast
    obtain a ts where ts: "t' = BNode a ts" using P(5) nd(1) by (cases t') (auto simp: node_is_def)
    have rep: "inner_repr cap a (child_refs ts) nd" using node_isE_node [of cap a ts n'] P(5) ok(2) ts nd(1) by auto
    obtain x t1 where t1: "ts = [(x, t1)]" using inner_reprD(4) [OF rep] nd(3) by (cases ts) auto
    have h: "bt_height (nat (depth T) - 2) t1" "2 \<le> depth T" 
    proof -
      obtain e where e: "nat (depth T) - 1 = Suc e" "bt_height e t1" using ok(3) ts t1 by auto
      then have "nat (depth T) - 2 = e" by linarith
      then show "bt_height (nat (depth T) - 2) t1" "2 \<le> depth T" using e by auto
    qed
    obtain s4 where s4: "get_child_rep nd 0 = Some (addr t1)" "node_remove R (root_ref T) (InnerN (nd\<lparr>inner_size := 0\<rparr>)) 0 s2 = Some s4"
      "tree_is (T\<lparr>root_ref := addr t1, depth := depth T - 1, store := s4\<rparr>) t1" "\<forall>m. room s2 m \<longrightarrow> room s4 m"
    proof -
      have "node_is cap (BNode a [(x, t1)]) (InnerN nd)" "tree_in (blocks s2) t1" "bt_ok cap t1"
        "tree_env s2 (BNode a [(x, t1)]) (-1)" "root_ref T = a" using P(5,6) ok(2,5) ts t1 nd(1) addr D(7) by simp_all
      from vt_shrink_ok [OF P(1) this(1-3) h(1) this(4,5) refl h(2)] show thesis by (elim exE conjE) (rule that)
    qed
    have "vt_delete_key R cap junk k T = Some (d, T\<lparr>root_ref := addr t1, depth := depth T - 1, store := s4\<rparr>)"
      using g(1) N(1) nd s4(1,2) by (simp add: vt_delete_key_def)
    then show ?thesis using s4(3,4) ok(1,4) ts t1 P(2) g(8) by auto
  next
    case False
    have "vt_delete_key R cap junk k T = Some (d, T\<lparr>store := s3\<rparr>)"
      using g(1) N(1) False s3(1) D(7) by (cases n') (auto simp: vt_delete_key_def)
    then show ?thesis using keep ok(1,4) s3(3) P(2) g(8) by auto
  qed
qed

subsection \<open>Removing the whole tree\<close>

definition gone :: "'s \<Rightarrow> 's \<Rightarrow> blk_address set \<Rightarrow> bool" where
  "gone s s' A \<longleftrightarrow> inv s' \<and> (\<forall>m. room s m \<longrightarrow> room s' m) \<and> owned s' \<subseteq> owned s \<and> owned s - A \<subseteq> owned s'
     \<and> (\<forall>x. blocks s' x = (if x \<in> A then None else blocks s x))"

lemma gone_trans: "gone s s' A \<Longrightarrow> gone s' s'' B \<Longrightarrow> gone s s'' (A \<union> B)"
  unfolding gone_def by (intro conjI) (auto simp del: split_paired_All)

lemma gone_tree: "gone s s' A \<Longrightarrow> tree_in (blocks s) t \<Longrightarrow> set (addrs t) \<inter> A = {} \<Longrightarrow> tree_in (blocks s') t"
  by (erule tree_in_cong) (auto simp: gone_def)

lemma ref_remove_gone: "inv s \<Longrightarrow> a \<in> owned s \<Longrightarrow> \<exists>s'. ref_remove R a s = Some s' \<and> gone s s' {a}"
  using remove [of s a] by (fastforce simp: gone_def)

lemma node_remove_children:
  assumes rep: "inner_repr cap a (child_refs ts) nd"
    and IH: "\<And>p s. p \<in> set ts \<Longrightarrow> inv s \<Longrightarrow> tree_in (blocks s) (snd p) \<Longrightarrow> set (addrs (snd p)) \<subseteq> owned s
      \<Longrightarrow> \<exists>n s1 s2. ref_get R (addr (snd p)) s = Some (n, s1) \<and> node_remove R (addr (snd p)) n 0 s1 = Some s2
        \<and> gone s s2 (set (addrs (snd p)))"
  shows "inv s \<Longrightarrow> i \<le> length ts \<Longrightarrow> \<forall>p\<in>set (drop i ts). tree_in (blocks s) (snd p) \<Longrightarrow>
     distinct (a # forest_addrs (drop i ts)) \<Longrightarrow> set (a # forest_addrs (drop i ts)) \<subseteq> owned s \<Longrightarrow>
     \<exists>s'. node_remove R a (InnerN nd) i s = Some s' \<and> gone s s' (set (a # forest_addrs (drop i ts)))"
proof (induction "length ts - i" arbitrary: i s)
  case 0
  then have i: "i = length ts" by simp
  then show ?case
    using ref_remove_gone [OF "0.prems"(1), of a] "0.prems"(5) inner_reprD(4) [OF rep]
    by (subst node_remove.simps) simp
next
  case (Suc d)
  then have i: "i < length ts" by simp
  let ?p = "ts ! i"
  have dr: "drop i ts = ?p # drop (Suc i) ts" using i by (simp add: Cons_nth_drop_Suc)
  have own: "set (addrs (snd ?p)) \<subseteq> owned s" "a \<in> owned s" "set (forest_addrs (drop (Suc i) ts)) \<subseteq> owned s"
    and dist: "set (addrs (snd ?p)) \<inter> set (a # forest_addrs (drop (Suc i) ts)) = {}" "distinct (a # forest_addrs (drop (Suc i) ts))"
    and t: "tree_in (blocks s) (snd ?p)" "\<forall>p\<in>set (drop (Suc i) ts). tree_in (blocks s) (snd p)"
    using Suc.prems unfolding dr by auto
  obtain n s1 s2 where r: "ref_get R (addr (snd ?p)) s = Some (n, s1)" "node_remove R (addr (snd ?p)) n 0 s1 = Some s2"
    "gone s s2 (set (addrs (snd ?p)))" using IH [of ?p s] i Suc.prems(1) t(1) own(1) by auto
  have "\<forall>p\<in>set (drop (Suc i) ts). tree_in (blocks s2) (snd p)"
  proof
    fix p assume p: "p \<in> set (drop (Suc i) ts)"
    then have "set (addrs (snd p)) \<subseteq> set (forest_addrs (drop (Suc i) ts))" by auto
    then have "set (addrs (snd p)) \<inter> set (addrs (snd ?p)) = {}" using dist(1) by auto
    then show "tree_in (blocks s2) (snd p)" using gone_tree [OF r(3)] t(2) p by blast
  qed
  moreover have "set (a # forest_addrs (drop (Suc i) ts)) \<subseteq> owned s2"
  proof -
    have "owned s - set (addrs (snd ?p)) \<subseteq> owned s2" using r(3) by (simp add: gone_def)
    moreover have "set (a # forest_addrs (drop (Suc i) ts)) \<subseteq> owned s" using own by simp
    ultimately show ?thesis using dist(1) by blast
  qed
  moreover have "inv s2" using r(3) by (simp add: gone_def)
  moreover have "d = length ts - Suc i" "Suc i \<le> length ts" using Suc.hyps(2) i by simp_all
  ultimately obtain s3 where s3: "node_remove R a (InnerN nd) (Suc i) s2 = Some s3"
    "gone s2 s3 (set (a # forest_addrs (drop (Suc i) ts)))"
    using Suc.hyps(1) [of "Suc i" s2] dist(2) by blast
  have "get_child_rep nd (int i) = Some (addr (snd ?p))"
    using inner_repr_aget(2) [OF rep, of i] i by (simp add: get_child_rep_def)
  then have "node_remove R a (InnerN nd) i s = Some s3"
    using r(1,2) s3(1) i inner_reprD(4) [OF rep] by (subst node_remove.simps) simp
  moreover have "set (addrs (snd ?p)) \<union> set (a # forest_addrs (drop (Suc i) ts)) = set (a # forest_addrs (drop i ts))"
    unfolding dr by auto
  ultimately show ?case using gone_trans [OF r(3) s3(2)] by auto
qed

lemma node_remove_ok:
  assumes "inv s" "bt_ok cap t" "tree_in (blocks s) t" "distinct (addrs t)" "set (addrs t) \<subseteq> owned s"
  shows "\<exists>n s1 s2. ref_get R (addr t) s = Some (n, s1) \<and> node_remove R (addr t) n 0 s1 = Some s2 \<and> gone s s2 (set (addrs t))"
  using assms
proof (induction t arbitrary: s rule: kvs.induct)
  case (1 a xs sib)
  obtain n s1 where g: "ref_get R (addr (BLeaf a xs sib)) s = Some (n, s1)" "quiet s s1" "node_is cap (BLeaf a xs sib) n"
    using get_node [OF "1.prems"(1,3)] .
  obtain l where l: "n = LeafN l" using node_isE_leaf [OF g(3)] "1.prems"(2) by auto
  obtain s2 where "ref_remove R a s1 = Some s2" "gone s1 s2 {a}"
    using ref_remove_gone [of s1 a] g(2) "1.prems"(5) by (auto simp: quiet_def)
  then show ?case using g l by (auto simp: node_remove.simps quiet_def gone_def)
next
  case (2 a ts)
  obtain n s1 where g: "ref_get R (addr (BNode a ts)) s = Some (n, s1)" "quiet s s1" "node_is cap (BNode a ts) n"
    using get_node [OF "2.prems"(1,3)] .
  obtain nd where nd: "n = InnerN nd" "inner_repr cap a (child_refs ts) nd" using node_isE_node [OF g(3)] "2.prems"(2) by auto
  have q: "inv s1" "blocks s1 = blocks s" "owned s1 = owned s" "room s1 = room s" using g(2) by (simp_all add: quiet_def)
  have IH: "\<exists>n s1 s2. ref_get R (addr (snd p)) s = Some (n, s1) \<and> node_remove R (addr (snd p)) n 0 s1 = Some s2
      \<and> gone s s2 (set (addrs (snd p)))"
    if "p \<in> set ts" "inv s" "tree_in (blocks s) (snd p)" "set (addrs (snd p)) \<subseteq> owned s" for p s
  proof (rule "2.IH" [OF that(1,2) _ that(3) _ that(4)])
    show "bt_ok cap (snd p)" using "2.prems"(2) that(1) by simp
    show "distinct (addrs (snd p))" using "2.prems"(4) that(1) by (auto simp: distinct_concat_iff)
  qed
  obtain s2 where "node_remove R a (InnerN nd) 0 s1 = Some s2" "gone s1 s2 (set (a # forest_addrs (drop 0 ts)))"
    using node_remove_children [OF nd(2) IH, of s1 0] q "2.prems"(3-5) by auto
  then show ?case using g(1) nd(1) q by (auto simp: gone_def)
qed

lemma vt_close_ok:
  assumes "tree_is T t"
  shows "\<exists>s. vt_close R T = Some s \<and> gone (store T) s (set (addrs t))"
  using node_remove_ok [of "store T" t] tree_isD [OF assms] by (auto simp: vt_close_def tree_env_def)

lemma vt_clear_ok:
  assumes "tree_is T t" "room (store T) (Suc m)"
  shows "\<exists>T'. vt_clear R cap T = Some T' \<and> tree_is T' (BLeaf (root_ref T') [] (-1)) \<and> room (store T') m"
proof -
  obtain s where s: "vt_close R T = Some s" "gone (store T) s (set (addrs t))" using vt_close_ok [OF assms(1)] by blast
  then have "inv s" "room s (Suc m)" using assms(2) by (simp_all add: gone_def)
  then show ?thesis using vt_init_ok [of s m] s(1) by (auto simp: vt_clear_def)
qed

end

section \<open>Sequences of operations\<close>

datatype ('k, 'v) tree_op = Insert 'k 'v | Delete 'k | Search 'k | Clear

datatype 'v tree_result = Done | Deleted bool | Found "'v option"

fun vt_exec ::
  "('s, 'k::linorder, 'v) node_ops \<Rightarrow> nat \<Rightarrow> 'k \<times> blk_address \<Rightarrow> ('k, 'v) tree_op \<Rightarrow> 's vtree
     \<Rightarrow> ('v tree_result \<times> 's vtree) option" where
  "vt_exec R c junk (Insert k v) T = map_option (Pair Done) (vt_insert R c k v T)"
| "vt_exec R c junk (Delete k) T = map_option (\<lambda>(r, T'). (Deleted r, T')) (vt_delete_key R c junk k T)"
| "vt_exec R c junk (Search k) T = map_option (\<lambda>(r, T'). (Found r, T')) (vt_search R k T)"
| "vt_exec R c junk Clear T = map_option (Pair Done) (vt_clear R c T)"

text \<open>Running a sequence of operations, each by \<open>exec\<close>, and collecting the results.\<close>

fun op_run :: "('op \<Rightarrow> 't \<Rightarrow> ('r \<times> 't) option) \<Rightarrow> 'op list \<Rightarrow> 't \<Rightarrow> ('r list \<times> 't) option" where
  "op_run exec [] T = Some ([], T)"
| "op_run exec (x # xs) T = exec x T \<bind> (\<lambda>(r, T1). op_run exec xs T1 \<bind> (\<lambda>(rs, T2). Some (r # rs, T2)))"

definition vt_run ::
  "('s, 'k::linorder, 'v) node_ops \<Rightarrow> nat \<Rightarrow> 'k \<times> blk_address \<Rightarrow> ('k, 'v) tree_op list \<Rightarrow> 's vtree
     \<Rightarrow> ('v tree_result list \<times> 's vtree) option" where
  "vt_run R c junk = op_run (vt_exec R c junk)"

text \<open>What the operations mean: a finite map.\<close>

fun map_exec :: "('k, 'v) tree_op \<Rightarrow> ('k \<rightharpoonup> 'v) \<Rightarrow> 'v tree_result \<times> ('k \<rightharpoonup> 'v)" where
  "map_exec (Insert k v) m = (Done, m(k \<mapsto> v))"
| "map_exec (Delete k) m = (Deleted (k \<in> dom m), m(k := None))"
| "map_exec (Search k) m = (Found (m k), m)"
| "map_exec Clear m = (Done, Map.empty)"

fun map_run :: "('k, 'v) tree_op list \<Rightarrow> ('k \<rightharpoonup> 'v) \<Rightarrow> 'v tree_result list \<times> ('k \<rightharpoonup> 'v)" where
  "map_run [] m = ([], m)"
| "map_run (x # xs) m = (case map_exec x m of (r, m1) \<Rightarrow> (case map_run xs m1 of (rs, m2) \<Rightarrow> (r # rs, m2)))"

text \<open>
  Operations that each do what the map does, as long as \<open>I n\<close> says that \<open>n\<close> more of them can
  be run, do what the map does as a sequence.
\<close>

lemma op_run_refines:
  assumes step: "\<And>x n T m. I (Suc n) T m \<Longrightarrow> \<exists>T'. exec x T = Some (fst (map_exec x m), T') \<and> I n T' (snd (map_exec x m))"
    and I: "I (length xs) T m"
  shows "\<exists>T'. op_run exec xs T = Some (fst (map_run xs m), T') \<and> I 0 T' (snd (map_run xs m))"
  using I
proof (induction xs arbitrary: T m)
  case (Cons x xs)
  obtain T1 where 1: "exec x T = Some (fst (map_exec x m), T1)" "I (length xs) T1 (snd (map_exec x m))"
    using step [of "length xs" T m x] Cons.prems by auto
  from Cons.IH [OF 1(2)] 1(1) show ?case by (auto simp: case_prod_unfold)
qed simp

text \<open>
  An upper bound of the nodes that \<open>n\<close> operations allocate in a tree of depth \<open>d\<close>: an
  insertion splits at most one node on each level and may add a root.
\<close>

fun node_budget :: "nat \<Rightarrow> nat \<Rightarrow> nat" where
  "node_budget 0 d = 0"
| "node_budget (Suc n) d = d + 1 + node_budget n (Suc d)"

lemma node_budget_mono: "d \<le> e \<Longrightarrow> node_budget n d \<le> node_budget n e"
  by (induction n arbitrary: d e) (auto intro: add_mono)

context node_store
begin

lemma vt_exec_ok:
  assumes T: "tree_is T t" and c: "3 \<le> cap" and r: "room (store T) (nat (depth T) + 1 + m)"
  shows "\<exists>T' t'. vt_exec R cap junk x T = Some (fst (map_exec x (map_of (kvs t))), T') \<and> tree_is T' t'
     \<and> map_of (kvs t') = snd (map_exec x (map_of (kvs t))) \<and> room (store T') m \<and> nat (depth T') \<le> Suc (nat (depth T))"
proof (cases x)
  case (Insert k v)
  have "2 \<le> cap" using c by simp
  from vt_insert_ok [OF T this r, of k v] obtain T' t' where I: "vt_insert R cap k v T = Some T'" "tree_is T' t'"
    "kvs t' = kv_put k v (kvs t)" "room (store T') m" "depth T' = depth T \<or> depth T' = depth T + 1" by blast
  then have "nat (depth T') \<le> Suc (nat (depth T))" by linarith
  moreover have "map_of (kvs t') = snd (map_exec x (map_of (kvs t)))" using I(3) Insert by (simp add: map_of_kv_put)
  ultimately show ?thesis using I(1,2,4) Insert by (intro exI [of _ T'] exI [of _ t']) simp
next
  case (Delete k)
  have "room (store T) m" using r by (rule room_mono) simp
  moreover from vt_delete_key_ok [OF T c, of junk k] obtain T' t' where I: "vt_delete_key R cap junk k T = Some (k \<in> keys (kvs t), T')"
    "tree_is T' t'" "kvs t' = kv_del k (kvs t)" "\<forall>m. room (store T) m \<longrightarrow> room (store T') m" "depth T' \<le> depth T" by blast
  moreover have "map_of (kvs t') = snd (map_exec x (map_of (kvs t)))" using I(3) Delete by (simp add: map_of_kv_del)
  ultimately show ?thesis
    using Delete by (intro exI [of _ T'] exI [of _ t']) (simp add: dom_map_of_conv_image_fst)
next
  case (Search k)
  have "room (store T) m" using r by (rule room_mono) simp
  then show ?thesis using vt_search_ok [OF T, of k] Search by auto
next
  case Clear
  have "room (store T) (Suc m)" using r by (rule room_mono) (use tree_isD(4) [OF T] in simp)
  from vt_clear_ok [OF T this] obtain T' where T': "vt_clear R cap T = Some T'" "tree_is T' (BLeaf (root_ref T') [] (-1))" "room (store T') m"
    by blast
  moreover have "nat (depth T') \<le> 1" using tree_isD(4,5) [OF T'(2)] by simp
  ultimately show ?thesis using Clear by fastforce
qed

lemma vt_run_ok:
  assumes T: "tree_is T t" and c: "3 \<le> cap" and r: "room (store T) (node_budget (length xs) (nat (depth T)) + m)"
  shows "\<exists>T' t'. vt_run R cap junk xs T = Some (fst (map_run xs (map_of (kvs t))), T') \<and> tree_is T' t'
     \<and> map_of (kvs t') = snd (map_run xs (map_of (kvs t))) \<and> room (store T') m"
proof -
  let ?I = "\<lambda>n T f. \<exists>t. tree_is T t \<and> map_of (kvs t) = f \<and> room (store T) (node_budget n (nat (depth T)) + m)"
  have "\<exists>T'. vt_exec R cap junk x T = Some (fst (map_exec x f), T') \<and> ?I n T' (snd (map_exec x f))" if I: "?I (Suc n) T f" for x n T f
  proof -
    obtain t where t: "tree_is T t" "map_of (kvs t) = f" "room (store T) (nat (depth T) + 1 + (node_budget n (Suc (nat (depth T))) + m))"
      using I by (auto simp: add.assoc)
    from vt_exec_ok [OF t(1) c t(3), of junk x] obtain T1 t1 where 1: "vt_exec R cap junk x T = Some (fst (map_exec x f), T1)" "tree_is T1 t1"
      "map_of (kvs t1) = snd (map_exec x f)" "room (store T1) (node_budget n (Suc (nat (depth T))) + m)" "nat (depth T1) \<le> Suc (nat (depth T))"
      unfolding t(2) by blast
    have "room (store T1) (node_budget n (nat (depth T1)) + m)"
      by (rule room_mono [OF 1(4)]) (use node_budget_mono [OF 1(5)] in simp)
    with 1 show ?thesis by blast
  qed
  from op_run_refines [where I = ?I and exec = "vt_exec R cap junk" and xs = xs and T = T and m = "map_of (kvs t)", OF this] T r
  show ?thesis unfolding vt_run_def by auto
qed

theorem tree_refines_map:
  assumes "inv s" "3 \<le> cap" "room s (Suc (node_budget (length xs) 1))"
  shows "\<exists>T0 T t. vt_init R cap s = Some T0 \<and> vt_run R cap junk xs T0 = Some (fst (map_run xs Map.empty), T) \<and> tree_is T t
     \<and> map_of (kvs t) = snd (map_run xs Map.empty)"
proof -
  obtain T0 where T0: "vt_init R cap s = Some T0" "tree_is T0 (BLeaf (root_ref T0) [] (-1))" "room (store T0) (node_budget (length xs) 1)"
    using vt_init_ok [OF assms(1,3)] by blast
  have d: "nat (depth T0) = 1" using tree_isD(4,5) [OF T0(2)] by simp
  from vt_run_ok [OF T0(2) assms(2), of xs 0 junk] T0 d show ?thesis by fastforce
qed

end

end
