(* ===== verification/File_Store.thy ===== *)
theory File_Store
  imports Blk_Cache Vanilla_Correct
begin

text \<open>
  The storage of the disk tree: the synchronous part of \<^verbatim>\<open>src/src/blk/file_blk_accessor.h\<close> and the
  references of \<^verbatim>\<open>src/src/tree/blk_node_reference.h\<close>.  The operating system's file is a list of
  bytes.  Which freed address \<^verbatim>\<open>begin()\<close> of the hash set finds and what a fresh buffer of
  \<^verbatim>\<open>malloc\<close> holds are parameters.
\<close>

section \<open>Files\<close>

text \<open>
  \<^verbatim>\<open>pread\<close> and \<^verbatim>\<open>pwrite\<close> at a byte offset: a read stops at the end of the file, a write past the end
  fills the gap with zeros, and a closed descriptor or a negative offset is an error (\<open>None\<close>).
\<close>

definition pread :: "int \<Rightarrow> nat \<Rightarrow> int \<Rightarrow> byte list \<Rightarrow> byte list option" where
  "pread fd n off f = (if fd < 0 \<or> off < 0 then None else Some (take n (drop (nat off) f)))"

definition pwrite :: "int \<Rightarrow> byte list \<Rightarrow> int \<Rightarrow> byte list \<Rightarrow> byte list option" where
  "pwrite fd bs off f =
     (if fd < 0 \<or> off < 0 then None
      else Some (take (nat off) f @ replicate (nat off - length f) 0 @ bs @ drop (nat off + length bs) f))"

section \<open>The accessor\<close>

record file_blk_accessor =
  fa_block_size :: nat
  fa_fd :: int
  fa_file :: "byte list"
  freed_blk_addresses :: "blk_address list"
  fa_cursor :: "32 word"
  fa_cache :: blk_cache
  fa_reads :: nat

text \<open>The constructor; the size of the cache, 100000 in the source, is a parameter here.\<close>

definition file_new_with :: "nat \<Rightarrow> nat \<Rightarrow> file_blk_accessor" where
  "file_new_with n bs = \<lparr>fa_block_size = bs, fa_fd = 0, fa_file = [], freed_blk_addresses = [], fa_cursor = 0,
     fa_cache = cache_new bs n, fa_reads = 0\<rparr>"

definition file_new :: "nat \<Rightarrow> file_blk_accessor" where
  "file_new bs = file_new_with 100000 bs"

text \<open>\<open>fd\<close> and \<open>err\<close> are the results of the system call, which truncates the file when it succeeds.\<close>

definition file_open :: "int \<Rightarrow> int \<Rightarrow> file_blk_accessor \<Rightarrow> int \<times> file_blk_accessor" where
  "file_open fd err s =
     (if fd \<noteq> 0 then 0 else err, s\<lparr>fa_fd := fd, fa_file := if fd < 0 then fa_file s else []\<rparr>)"

definition is_address_valid :: "blk_address \<Rightarrow> file_blk_accessor \<Rightarrow> bool" where
  "is_address_valid a s \<longleftrightarrow> a < uint (fa_cursor s) \<and> a \<notin> set (freed_blk_addresses s)"

definition file_allocate :: "(blk_address list \<Rightarrow> blk_address) \<Rightarrow> file_blk_accessor \<Rightarrow> blk_address \<times> file_blk_accessor" where
  "file_allocate pick s =
     (if freed_blk_addresses s \<noteq> [] then
        let a = pick (freed_blk_addresses s) in (a, s\<lparr>freed_blk_addresses := removeAll a (freed_blk_addresses s)\<rparr>)
      else (uint (fa_cursor s), s\<lparr>fa_cursor := fa_cursor s + 1\<rparr>))"

definition file_deallocate :: "blk_address \<Rightarrow> file_blk_accessor \<Rightarrow> file_blk_accessor" where
  "file_deallocate a s =
     (if uint (fa_cursor s) = a - 1 then s\<lparr>fa_cursor := fa_cursor s - 1\<rparr>
      else s\<lparr>freed_blk_addresses := List.insert a (freed_blk_addresses s)\<rparr>)"

text \<open>
  An evicted unit is written to the file; an error is only printed.  \<^verbatim>\<open>read\<close> does it for every
  evicted unit, \<^verbatim>\<open>write\<close> for the dirty ones.
\<close>

definition file_flush_unit :: "cache_unit \<Rightarrow> file_blk_accessor \<Rightarrow> file_blk_accessor" where
  "file_flush_unit u s =
     (case pwrite (fa_fd s) (c_mem (fa_cache s) (data u)) (unit_id u * int (fa_block_size s)) (fa_file s) of
        None \<Rightarrow> s
      | Some f \<Rightarrow> s\<lparr>fa_file := f\<rparr>)"

definition file_free_unit :: "cache_unit \<Rightarrow> file_blk_accessor \<Rightarrow> file_blk_accessor" where
  "file_free_unit u s = s\<lparr>fa_cache := free_block (data u) (fa_cache s)\<rparr>"

text \<open>The result, the buffer after the call and the state; a failed \<^verbatim>\<open>pread\<close> stops the program.\<close>

definition file_read :: "blk_address \<Rightarrow> byte list \<Rightarrow> file_blk_accessor \<Rightarrow> (nat \<times> byte list \<times> file_blk_accessor) option" where
  "file_read a buffer s =
     (if \<not> is_address_valid a s then Some (0, buffer, s)
      else do {
        (hit, c1) \<leftarrow> cache_read a (fa_cache s);
        let s1 = s\<lparr>fa_cache := c1, fa_reads := fa_reads s + 1\<rparr>;
        case hit of
          Some bs \<Rightarrow> Some (fa_block_size s, bs @ drop (length bs) buffer, s1)
        | None \<Rightarrow> do {
            bs \<leftarrow> pread (fa_fd s) (fa_block_size s) (a * int (fa_block_size s)) (fa_file s);
            let buffer' = bs @ drop (length bs) buffer;
            (e, c2) \<leftarrow> cache_write a buffer' False c1;
            let s2 = s1\<lparr>fa_cache := c2\<rparr>;
            Some (length bs, buffer', case e of None \<Rightarrow> s2 | Some u \<Rightarrow> file_free_unit u (file_flush_unit u s2)) } })"

definition file_write :: "blk_address \<Rightarrow> byte list \<Rightarrow> file_blk_accessor \<Rightarrow> (nat \<times> file_blk_accessor) option" where
  "file_write a buffer s =
     (if \<not> is_address_valid a s then Some (0, s)
      else do {
        (e, c1) \<leftarrow> cache_write a buffer True (fa_cache s);
        let s1 = s\<lparr>fa_cache := c1\<rparr>;
        Some (fa_block_size s,
          case e of None \<Rightarrow> s1 | Some u \<Rightarrow> file_free_unit u (if dirty u then file_flush_unit u s1 else s1)) })"

definition file_close :: "file_blk_accessor \<Rightarrow> file_blk_accessor" where
  "file_close s = s\<lparr>fa_fd := -1\<rparr>"

section \<open>References\<close>

text \<open>
  A \<^verbatim>\<open>blk_node_reference\<close> is an address and a pointer to the node in memory, if it was loaded.
  \<open>buf\<close> is what \<^verbatim>\<open>malloc_buffer\<close> returns.
\<close>

record ('k, 'v) blk_node_reference =
  blk_addr :: blk_address
  instance_ptr :: "('k, 'v) node option"

definition blk_ref_new :: "blk_address \<Rightarrow> ('k, 'v) blk_node_reference" where
  "blk_ref_new a = \<lparr>blk_addr = a, instance_ptr = None\<rparr>"

definition file_allocate_ref :: "(blk_address list \<Rightarrow> blk_address) \<Rightarrow> file_blk_accessor
    \<Rightarrow> ('k, 'v) blk_node_reference \<times> file_blk_accessor" where
  "file_allocate_ref pick s = (case file_allocate pick s of (a, s') \<Rightarrow> (blk_ref_new a, s'))"

definition file_create_null_ref :: "('k, 'v) blk_node_reference" where
  "file_create_null_ref = blk_ref_new (-1)"

definition blk_ref_get :: "'k pod \<Rightarrow> ('k \<times> 'v) pod \<Rightarrow> nat \<Rightarrow> byte list \<Rightarrow> ('k, 'v) blk_node_reference \<Rightarrow> file_blk_accessor
    \<Rightarrow> (('k, 'v) node option \<times> ('k, 'v) blk_node_reference \<times> file_blk_accessor) option" where
  "blk_ref_get P E c buf r s =
     (if blk_addr r < 0 then Some (None, r, s)
      else case instance_ptr r of
        Some nd \<Rightarrow> Some (Some nd, r, s)
      | None \<Rightarrow> do {
          (_, buffer, s') \<leftarrow> file_read (blk_addr r) buf s;
          nd \<leftarrow> specific_deserialize P E c buffer;
          Some (Some nd, r\<lparr>instance_ptr := Some nd\<rparr>, s') })"

definition blk_ref_close :: "'k pod \<Rightarrow> ('k \<times> 'v) pod \<Rightarrow> byte list \<Rightarrow> ('k, 'v) blk_node_reference \<Rightarrow> file_blk_accessor
    \<Rightarrow> (('k, 'v) blk_node_reference \<times> file_blk_accessor) option" where
  "blk_ref_close P E buf r s =
     (case instance_ptr r of
        None \<Rightarrow> Some (r, s)
      | Some nd \<Rightarrow> do {
          s' \<leftarrow> (if is_modified nd
                 then do { buffer \<leftarrow> specific_serialize P E nd buf; (_, s1) \<leftarrow> file_write (blk_addr r) buffer s; Some s1 }
                 else Some s);
          Some (r\<lparr>instance_ptr := None\<rparr>, s') })"

text \<open>The call of the node's own \<^verbatim>\<open>close\<close> belongs to the tree; \<open>None\<close>: there is no node to close.\<close>

definition blk_ref_remove :: "('k, 'v) blk_node_reference \<Rightarrow> file_blk_accessor
    \<Rightarrow> (('k, 'v) blk_node_reference \<times> file_blk_accessor) option" where
  "blk_ref_remove r s =
     (if instance_ptr r = None then None else Some (r\<lparr>instance_ptr := None\<rparr>, file_deallocate (blk_addr r) s))"

definition blk_ref_copy :: "('k, 'v) blk_node_reference option \<Rightarrow> ('k, 'v) blk_node_reference \<Rightarrow> ('k, 'v) blk_node_reference" where
  "blk_ref_copy ref r =
     (case ref of
        Some r' \<Rightarrow> r\<lparr>blk_addr := blk_addr r', instance_ptr := instance_ptr r'\<rparr>
      | None \<Rightarrow> r\<lparr>blk_addr := -1, instance_ptr := None\<rparr>)"

definition blk_ref_is_null_ptr :: "('k, 'v) blk_node_reference \<Rightarrow> bool" where
  "blk_ref_is_null_ptr r \<longleftrightarrow> blk_addr r = -1"

definition blk_ref_bind :: "('k, 'v) node \<Rightarrow> ('k, 'v) blk_node_reference \<Rightarrow> ('k, 'v) blk_node_reference" where
  "blk_ref_bind nd r = r\<lparr>instance_ptr := Some nd\<rparr>"

definition get_unified_representation :: "('k, 'v) blk_node_reference \<Rightarrow> int" where
  "get_unified_representation r = blk_addr r"

definition restore_by_unified_representation :: "int \<Rightarrow> ('k, 'v) blk_node_reference \<Rightarrow> ('k, 'v) blk_node_reference" where
  "restore_by_unified_representation v r = r\<lparr>instance_ptr := None, blk_addr := v\<rparr>"

section \<open>The storage of the disk tree\<close>

text \<open>
  The tree loads a node with \<^verbatim>\<open>get\<close>, works on it and gives it back with \<^verbatim>\<open>close\<close> or \<^verbatim>\<open>remove\<close>; a null
  reference has no node.
\<close>

definition file_ops :: "'k pod \<Rightarrow> ('k \<times> 'v) pod \<Rightarrow> nat \<Rightarrow> byte list \<Rightarrow> (blk_address list \<Rightarrow> blk_address)
    \<Rightarrow> (file_blk_accessor, 'k, 'v) node_ops" where
  "file_ops P E c buf pick =
     \<lparr>allocate_ref = (\<lambda>s. case file_allocate_ref pick s of (r :: ('k, 'v) blk_node_reference, s') \<Rightarrow> Some (get_unified_representation r, s')),
      ref_get = (\<lambda>a s. do { (nd, _, s') \<leftarrow> blk_ref_get P E c buf (blk_ref_new a) s; n \<leftarrow> nd; Some (n, s') }),
      ref_close = (\<lambda>a nd s. map_option snd (blk_ref_close P E buf (blk_ref_bind nd (blk_ref_new a)) s)),
      ref_remove = (\<lambda>a s. Some (file_deallocate a s))\<rparr>"

lemma blk_ref_remove_loaded:
  "instance_ptr r = Some nd \<Longrightarrow> map_option snd (blk_ref_remove r s) = Some (file_deallocate (blk_addr r) s)"
  by (simp add: blk_ref_remove_def)

text \<open>What a block can decode to.\<close>

lemma le_int_bound: "0 \<le> le_int bs \<and> le_int bs < 256 ^ length bs"
proof (induction bs)
  case (Cons b bs)
  have "uint b < 256" "0 \<le> uint b" using uint_lt2p [of b] by simp_all
  then show ?case using Cons by auto
qed simp

lemma le_sint_ok: "length bs = 8 \<Longrightarrow> int64_ok (le_sint bs)"
  using le_int_bound [of bs] by (auto simp: le_sint_def int64_ok_def Let_def)

lemma buf_read_length: "buf_read off n buf = Some bs \<Longrightarrow> length bs = n"
  by (auto simp: buf_read_def split: if_splits)

lemma length_array_read [simp]: "length (array_read P n bs) = n"
  by (induction P n bs rule: array_read.induct) simp_all

lemma array_read_addresses:
  "n * 8 \<le> length bs \<Longrightarrow> x \<in> set (array_read blk_address_pod n bs) \<Longrightarrow> int64_ok x"
proof (induction n arbitrary: bs)
  case (Suc n)
  have "int64_ok (le_sint (take 8 bs))" using Suc.prems(1) by (intro le_sint_ok) simp
  then show ?case using Suc.prems Suc.IH [of "drop 8 bs"] by (auto simp: blk_address_pod_def)
qed simp

lemma specific_deserialize_ok:
  assumes "specific_deserialize P E c buf = Some nd"
  shows "node_fits c nd" "x \<in> content_refs (content nd) \<Longrightarrow> int64_ok x"
proof -
  have "node_fits c nd \<and> (\<forall>x\<in>content_refs (content nd). int64_ok x)"
  proof (cases nd)
    case (LeafN l)
    then obtain l0 where l: "leaf_deserialize E buf (new_leaf c (-1)) = Some l" and l0: "l0 = (new_leaf c (-1) :: ('a, 'b) leaf_node)"
      using assms by (auto simp: specific_deserialize_def bind_eq_Some_conv split: if_splits)
    then show ?thesis using LeafN
      by (auto simp: leaf_deserialize_def bind_eq_Some_conv Let_def new_leaf_def le_sint_ok dest!: buf_read_length split: if_splits)
  next
    case (InnerN n)
    then have "inner_deserialize P buf (new_inner c (-1)) = Some n"
      using assms by (auto simp: specific_deserialize_def bind_eq_Some_conv split: if_splits)
    then obtain m self ks cs where n: "buf_read 8 8 buf = Some self" "buf_read (16 + m * pod_size P) (m * 8) buf = Some cs" "m \<le> c"
      "n = (new_inner c (-1))\<lparr>inner_size := m, inner_self := le_sint self, key := array_read P m ks @ drop m (key (new_inner c (-1))),
         child_rep := array_read blk_address_pod m cs @ drop m (child_rep (new_inner c (-1)))\<rparr>"
      by (auto simp: inner_deserialize_def bind_eq_Some_conv Let_def new_inner_def split: if_splits)
    note len = buf_read_length [OF n(1)] buf_read_length [OF n(2)]
    have "int64_ok x" if "x \<in> snd ` set (inner_list n)" for x
    proof -
      have "x \<in> set (array_read blk_address_pod m cs)"
        using that n(3,4) by (auto simp: inner_list_def take_zip new_inner_def dest: set_zip_rightD)
      then show ?thesis by (rule array_read_addresses [rotated]) (simp add: len(2))
    qed
    then show ?thesis using InnerN n(3,4) len(1) by (auto simp: new_inner_def le_sint_ok)
  qed
  then show "node_fits c nd" "x \<in> content_refs (content nd) \<Longrightarrow> int64_ok x" by simp_all
qed

text \<open>
  While the accessor has handed out no more addresses than the cache has room for, nothing is
  evicted: every block is in the cache.
\<close>

definition file_owned :: "file_blk_accessor \<Rightarrow> blk_address set" where
  "file_owned s = {a. 0 \<le> a \<and> is_address_valid a s}"

definition file_blocks :: "'k pod \<Rightarrow> ('k \<times> 'v) pod \<Rightarrow> nat \<Rightarrow> file_blk_accessor \<Rightarrow> blk_address \<Rightarrow> ('k, 'v) blk_content option" where
  "file_blocks P E c s a =
     (if a \<in> file_owned s then cached (fa_cache s) a \<bind> (\<lambda>bs. map_option content (specific_deserialize P E c bs)) else None)"

definition file_room :: "file_blk_accessor \<Rightarrow> nat \<Rightarrow> bool" where
  "file_room s n \<longleftrightarrow> uint (fa_cursor s) + int n \<le> int (c_capacity (fa_cache s))"

definition file_inv :: "'k pod \<Rightarrow> ('k \<times> 'v) pod \<Rightarrow> nat \<Rightarrow> byte list \<Rightarrow> file_blk_accessor \<Rightarrow> bool" where
  "file_inv P E c buf s \<longleftrightarrow> cache_ok (fa_cache s) \<and> c_blk_size (fa_cache s) = fa_block_size s \<and> length buf = fa_block_size s
     \<and> block_fits P E c (fa_block_size s) \<and> (\<forall>a bs. cached (fa_cache s) a = Some bs \<longrightarrow> length bs = fa_block_size s)
     \<and> set (cache_ids (fa_cache s)) \<subseteq> {0..<uint (fa_cursor s)} \<and> uint (fa_cursor s) \<le> int (c_capacity (fa_cache s))
     \<and> set (freed_blk_addresses s) \<subseteq> {0..<uint (fa_cursor s)} \<and> int (c_capacity (fa_cache s)) < 2 ^ 32"

lemma file_owned_bounds: "a \<in> file_owned s \<Longrightarrow> 0 \<le> a \<and> a < uint (fa_cursor s) \<and> a < 2 ^ 32"
  using uint_lt2p [of "fa_cursor s"] by (auto simp: file_owned_def is_address_valid_def)

lemma int64_ok_uint32: "0 \<le> a \<Longrightarrow> a \<le> uint (w :: 32 word) \<Longrightarrow> int64_ok a"
proof -
  assume "0 \<le> a" "a \<le> uint w"
  moreover have "uint w < 2 ^ 32" using uint_lt2p [of w] by simp
  ultimately show "int64_ok a" by (simp add: int64_ok_def)
qed

lemma file_inv_new: "block_fits P E c bs \<Longrightarrow> length buf = bs \<Longrightarrow> file_inv P E c buf (snd (file_open fd err (file_new bs)))"
  by (simp add: file_inv_def file_new_def file_new_with_def file_open_def cache_new_def cache_ok_def cached_def find_unit_def cache_ids_def)

lemma file_read_cached:
  assumes inv: "file_inv P E c buf s" and a: "a \<in> file_owned s" and bs: "cached (fa_cache s) a = Some bs"
  shows "\<exists>s'. file_read a buf s = Some (fa_block_size s, bs, s') \<and> file_inv P E c buf s' \<and> cached (fa_cache s') = cached (fa_cache s)
     \<and> fa_cursor s' = fa_cursor s \<and> freed_blk_addresses s' = freed_blk_addresses s \<and> c_capacity (fa_cache s') = c_capacity (fa_cache s)"
proof -
  obtain c' where c': "cache_read a (fa_cache s) = Some (Some bs, c')" "cache_ok c'" "cached c' = cached (fa_cache s)"
    "c_blk_size c' = c_blk_size (fa_cache s)" "c_capacity c' = c_capacity (fa_cache s)" "set (cache_ids c') = set (cache_ids (fa_cache s))"
    using cache_read_ok [of "fa_cache s" a] inv bs unfolding file_inv_def by metis
  have "length bs = length buf" using inv bs by (simp add: file_inv_def)
  then have "file_read a buf s = Some (fa_block_size s, bs, s\<lparr>fa_cache := c', fa_reads := fa_reads s + 1\<rparr>)"
    using a c'(1) by (simp add: file_read_def file_owned_def)
  moreover have "file_inv P E c buf (s\<lparr>fa_cache := c', fa_reads := fa_reads s + 1\<rparr>)"
    using inv c' by (simp add: file_inv_def)
  ultimately show ?thesis using c' by simp
qed

lemma file_write_cached:
  assumes inv: "file_inv P E c buf s" and a: "a \<in> file_owned s" and len: "length bs = fa_block_size s"
  shows "\<exists>s'. file_write a bs s = Some (fa_block_size s, s') \<and> file_inv P E c buf s' \<and> cached (fa_cache s') = (cached (fa_cache s))(a \<mapsto> bs)
     \<and> fa_cursor s' = fa_cursor s \<and> freed_blk_addresses s' = freed_blk_addresses s \<and> c_capacity (fa_cache s') = c_capacity (fa_cache s)"
proof -
  have l: "length bs = c_blk_size (fa_cache s)" and ok: "cache_ok (fa_cache s)" using inv len by (simp_all add: file_inv_def)
  have "\<exists>c'. cache_write a bs True (fa_cache s) = Some (None, c') \<and> cache_ok c' \<and> cached c' = (cached (fa_cache s))(a \<mapsto> bs)
     \<and> c_blk_size c' = c_blk_size (fa_cache s) \<and> c_capacity c' = c_capacity (fa_cache s)
     \<and> set (cache_ids c') = insert a (set (cache_ids (fa_cache s)))"
  proof (cases "a \<in> set (cache_ids (fa_cache s))")
    case True
    then show ?thesis using cache_write_hit [OF ok True l, of True] by auto
  next
    case False
    have "insert a (set (cache_ids (fa_cache s))) \<subseteq> {0..<uint (fa_cursor s)}"
      using inv file_owned_bounds [OF a] by (auto simp: file_inv_def)
    from card_mono [OF _ this] have "Suc (card (set (cache_ids (fa_cache s)))) \<le> unat (fa_cursor s)" using False by simp
    then have "int (Suc (card (set (cache_ids (fa_cache s))))) \<le> uint (fa_cursor s)" unfolding uint_nat of_nat_le_iff .
    moreover have "distinct (cache_ids (fa_cache s))" using ok by (simp add: cache_ok_def cache_ids_def)
    ultimately have "length (cache_ids (fa_cache s)) < c_capacity (fa_cache s)"
      using inv distinct_card [of "cache_ids (fa_cache s)"] by (simp add: file_inv_def)
    then show ?thesis using cache_write_miss [OF ok False l, of True] by auto
  qed
  then obtain c' where c': "cache_write a bs True (fa_cache s) = Some (None, c')" "cache_ok c'" "cached c' = (cached (fa_cache s))(a \<mapsto> bs)"
    "c_blk_size c' = c_blk_size (fa_cache s)" "c_capacity c' = c_capacity (fa_cache s)" "set (cache_ids c') = insert a (set (cache_ids (fa_cache s)))"
    by blast
  have "file_write a bs s = Some (fa_block_size s, s\<lparr>fa_cache := c'\<rparr>)" using a c'(1) by (simp add: file_write_def file_owned_def)
  moreover have "file_inv P E c buf (s\<lparr>fa_cache := c'\<rparr>)"
    using inv c' len file_owned_bounds [OF a] by (auto simp: file_inv_def)
  ultimately show ?thesis using c' by simp
qed

section \<open>The contract\<close>

locale disk_params = node_layout P E
  for P :: "'k::linorder pod" and E :: "('k \<times> 'v) pod" +
  fixes pick :: "blk_address list \<Rightarrow> blk_address"
  assumes pick_set: "xs \<noteq> [] \<Longrightarrow> pick xs \<in> set xs"
begin

lemma disk_alloc:
  assumes inv: "file_inv P E c buf s" and room: "file_room s (Suc n)"
  shows "\<exists>a s'. allocate_ref (file_ops P E c buf pick) s = Some (a, s') \<and> file_inv P E c buf s' \<and> file_room s' n
     \<and> (\<forall>x. x \<noteq> a \<longrightarrow> file_blocks P E c s' x = file_blocks P E c s x)
     \<and> a \<notin> file_owned s \<and> file_owned s' = insert a (file_owned s) \<and> int64_ok a \<and> a \<noteq> -1"
proof (cases "freed_blk_addresses s = []")
  case True
  let ?s = "s\<lparr>fa_cursor := fa_cursor s + 1\<rparr>"
  have "uint (fa_cursor s) + 1 < 2 ^ 32" using inv room by (simp add: file_inv_def file_room_def)
  then have u: "uint (fa_cursor s + 1) = uint (fa_cursor s) + 1" by (simp add: uint_plus_simple_iff uint_word_ariths)
  have o: "file_owned ?s = insert (uint (fa_cursor s)) (file_owned s)" using True u by (auto simp: file_owned_def is_address_valid_def)
  have "\<forall>x. x \<noteq> uint (fa_cursor s) \<longrightarrow> file_blocks P E c ?s x = file_blocks P E c s x" using o by (simp add: file_blocks_def)
  moreover have "\<forall>t\<in>set (cache_ids (fa_cache s)). 0 \<le> t \<and> t \<le> uint (fa_cursor s)" using inv by (force simp: file_inv_def)
  then have "file_inv P E c buf ?s" using inv room u True unfolding file_inv_def file_room_def by (simp add: subset_iff)
  moreover have "file_room ?s n" using room u by (simp add: file_room_def)
  moreover have "allocate_ref (file_ops P E c buf pick) s = Some (uint (fa_cursor s), ?s)"
    using True by (simp add: file_ops_def file_allocate_ref_def file_allocate_def blk_ref_new_def get_unified_representation_def)
  moreover have "int64_ok (uint (fa_cursor s))" by (rule int64_ok_uint32 [where w = "fa_cursor s"]) simp_all
  moreover have "uint (fa_cursor s) \<notin> file_owned s" by (simp add: file_owned_def is_address_valid_def)
  moreover have "uint (fa_cursor s) \<noteq> -1" using uint_ge_0 [of "fa_cursor s"] by linarith
  ultimately show ?thesis using o by blast
next
  case False
  let ?a = "pick (freed_blk_addresses s)"
  let ?s = "s\<lparr>freed_blk_addresses := removeAll ?a (freed_blk_addresses s)\<rparr>"
  have a: "?a \<in> set (freed_blk_addresses s)" by (rule pick_set [OF False])
  then have b: "0 \<le> ?a" "?a < uint (fa_cursor s)" using inv by (auto simp: file_inv_def)
  have o: "file_owned ?s = insert ?a (file_owned s)" using b by (auto simp: file_owned_def is_address_valid_def)
  have "\<forall>x. x \<noteq> ?a \<longrightarrow> file_blocks P E c ?s x = file_blocks P E c s x" using o by (simp add: file_blocks_def)
  moreover have "file_inv P E c buf ?s" using inv by (auto simp: file_inv_def)
  moreover have "file_room ?s n" using room by (simp add: file_room_def)
  moreover have "allocate_ref (file_ops P E c buf pick) s = Some (?a, ?s)"
    using False by (simp add: file_ops_def file_allocate_ref_def file_allocate_def blk_ref_new_def get_unified_representation_def Let_def)
  moreover have "int64_ok ?a" by (rule int64_ok_uint32 [where w = "fa_cursor s"]) (use b in simp_all)
  moreover have "?a \<notin> file_owned s" using a by (simp add: file_owned_def is_address_valid_def)
  ultimately show ?thesis using o b by (intro exI [of _ ?a] exI [of _ ?s]) simp
qed

lemma disk_get:
  assumes inv: "file_inv P E c buf s" and b: "file_blocks P E c s a = Some b"
  shows "\<exists>nd s'. ref_get (file_ops P E c buf pick) a s = Some (nd, s') \<and> file_inv P E c buf s' \<and> file_room s' = file_room s
     \<and> file_blocks P E c s' = file_blocks P E c s \<and> file_owned s' = file_owned s \<and> content nd = b \<and> node_fits c nd"
proof -
  obtain bs nd where a: "a \<in> file_owned s" and bs: "cached (fa_cache s) a = Some bs" and nd: "specific_deserialize P E c bs = Some nd" "content nd = b"
    using b by (auto simp: file_blocks_def bind_eq_Some_conv split: if_splits)
  obtain s' where s': "file_read a buf s = Some (fa_block_size s, bs, s')" "file_inv P E c buf s'" "cached (fa_cache s') = cached (fa_cache s)"
    "fa_cursor s' = fa_cursor s" "freed_blk_addresses s' = freed_blk_addresses s" "c_capacity (fa_cache s') = c_capacity (fa_cache s)"
    using file_read_cached [OF inv a bs] by blast
  have "ref_get (file_ops P E c buf pick) a s = Some (nd, s')"
    using s'(1) nd(1) file_owned_bounds [OF a] by (simp add: file_ops_def blk_ref_get_def blk_ref_new_def)
  moreover have o: "file_owned s' = file_owned s" using s' by (simp add: file_owned_def is_address_valid_def)
  moreover have "file_blocks P E c s' = file_blocks P E c s" "file_room s' = file_room s"
    using s' o by (auto simp: file_blocks_def file_room_def fun_eq_iff)
  ultimately show ?thesis using s'(2) nd specific_deserialize_ok(1) [OF nd(1)] by blast
qed

lemma disk_close:
  assumes inv: "file_inv P E c buf s" and a: "a \<in> file_owned s" and fits: "node_fits c nd" and self: "node_self nd = a"
    and m: "is_modified nd \<and> (\<forall>x\<in>content_refs (content nd). int64_ok x) \<or> file_blocks P E c s a = Some (content nd)"
  shows "\<exists>s'. ref_close (file_ops P E c buf pick) a nd s = Some s' \<and> file_inv P E c buf s' \<and> file_room s' = file_room s
     \<and> file_blocks P E c s' = (file_blocks P E c s)(a \<mapsto> content nd) \<and> file_owned s' = file_owned s"
proof (cases "is_modified nd")
  case True
  have "\<forall>x\<in>content_refs (content nd). int64_ok x"
  proof (cases "file_blocks P E c s a = Some (content nd)")
    case True
    then obtain bs nd' where "specific_deserialize P E c bs = Some nd'" "content nd' = content nd"
      by (auto simp: file_blocks_def bind_eq_Some_conv split: if_splits)
    then show ?thesis using specific_deserialize_ok(2) by metis
  qed (use m in blast)
  moreover have "block_fits P E c (length buf)" using inv by (simp add: file_inv_def)
  ultimately obtain bs nd' where bs: "specific_serialize P E nd buf = Some bs" "length bs = length buf"
    "specific_deserialize P E c bs = Some nd'" "content nd' = content nd"
    using node_round_trip [OF fits] by blast
  have "length bs = fa_block_size s" using bs(2) inv by (simp add: file_inv_def)
  then obtain s' where s': "file_write a bs s = Some (fa_block_size s, s')" "file_inv P E c buf s'"
    "cached (fa_cache s') = (cached (fa_cache s))(a \<mapsto> bs)" "fa_cursor s' = fa_cursor s"
    "freed_blk_addresses s' = freed_blk_addresses s" "c_capacity (fa_cache s') = c_capacity (fa_cache s)"
    using file_write_cached [OF inv a] by blast
  have "ref_close (file_ops P E c buf pick) a nd s = Some s'"
    using True bs(1) s'(1) by (simp add: file_ops_def blk_ref_close_def blk_ref_bind_def blk_ref_new_def)
  moreover have o: "file_owned s' = file_owned s" using s' by (simp add: file_owned_def is_address_valid_def)
  moreover have "file_room s' = file_room s" using s' by (auto simp: file_room_def fun_eq_iff)
  moreover have "file_blocks P E c s' = (file_blocks P E c s)(a \<mapsto> content nd)"
    using s'(3) o a bs(3,4) by (auto simp: file_blocks_def fun_eq_iff)
  ultimately show ?thesis using s'(2) by blast
next
  case False
  then have "file_blocks P E c s a = Some (content nd)" using m by blast
  then have "(file_blocks P E c s)(a \<mapsto> content nd) = file_blocks P E c s" by (auto simp: fun_eq_iff)
  then show ?thesis using inv False by (simp add: file_ops_def blk_ref_close_def blk_ref_bind_def blk_ref_new_def)
qed

lemma disk_remove:
  assumes inv: "file_inv P E c buf s" and a: "a \<in> file_owned s"
  shows "\<exists>s'. ref_remove (file_ops P E c buf pick) a s = Some s' \<and> file_inv P E c buf s' \<and> (\<forall>n. file_room s n \<longrightarrow> file_room s' n)
     \<and> file_blocks P E c s' = (file_blocks P E c s)(a := None) \<and> file_owned s' \<subseteq> file_owned s \<and> file_owned s - {a} \<subseteq> file_owned s'"
proof -
  let ?s = "s\<lparr>freed_blk_addresses := List.insert a (freed_blk_addresses s)\<rparr>"
  have "uint (fa_cursor s) \<noteq> a - 1" using file_owned_bounds [OF a] by linarith
  then have "ref_remove (file_ops P E c buf pick) a s = Some ?s" by (simp add: file_ops_def file_deallocate_def)
  moreover have "file_inv P E c buf ?s" using inv file_owned_bounds [OF a] by (simp add: file_inv_def)
  moreover have o: "file_owned ?s = file_owned s - {a}" by (auto simp: file_owned_def is_address_valid_def)
  moreover have "file_blocks P E c ?s = (file_blocks P E c s)(a := None)" using o by (auto simp: file_blocks_def fun_eq_iff)
  ultimately show ?thesis by (auto simp: file_room_def)
qed

end

sublocale disk_params < disk: node_store "file_ops P E c buf pick" c "file_inv P E c buf" "file_blocks P E c" file_owned file_room int64_ok
  for c :: nat and buf :: "byte list"
proof (unfold_locales, goal_cases)
  case 1
  show ?case by (simp add: int64_ok_def)
next
  case (2 s)
  then show ?case by (auto simp: file_blocks_def split: if_splits)
next
  case (3 s n m)
  then show ?case by (simp add: file_room_def)
next
  case (4 s n)
  then show ?case by (rule disk_alloc)
next
  case (5 s a b)
  then show ?case by (rule disk_get)
next
  case (6 s a nd)
  then show ?case by (rule disk_close)
next
  case (7 s a)
  then show ?case by (rule disk_remove)
qed

text \<open>The instance of the programs in the repository, with the address freed last reused first.\<close>

interpretation int32_disk: disk_params int32_pod int32_entry_pod hd
  by (intro disk_params.intro disk_params_axioms.intro int32_nodes.node_layout_axioms) simp

section \<open>Blocks under eviction\<close>

text \<open>
  The general case: a block is in the cache or in the file.  A clean unit of the cache must agree
  with the file; a write to a clean unit breaks this, because the dirty flag is set in a copy.
\<close>

definition block_at :: "nat \<Rightarrow> byte list \<Rightarrow> nat \<Rightarrow> byte list option" where
  "block_at n f x = (if (x + 1) * n \<le> length f then Some (take n (drop (x * n) f)) else None)"

definition file_view :: "file_blk_accessor \<Rightarrow> blk_address \<Rightarrow> byte list option" where
  "file_view s a = (case cached (fa_cache s) a of Some bs \<Rightarrow> Some bs | None \<Rightarrow> block_at (fa_block_size s) (fa_file s) (nat a))"

definition file_ok :: "file_blk_accessor \<Rightarrow> bool" where
  "file_ok s \<longleftrightarrow> cache_ok (fa_cache s) \<and> c_blk_size (fa_cache s) = fa_block_size s \<and> 0 \<le> fa_fd s
     \<and> length (cache_ids (fa_cache s)) \<le> c_capacity (fa_cache s) \<and> 0 < c_capacity (fa_cache s)
     \<and> (\<forall>u\<in>set (c_key (fa_cache s)). 0 \<le> unit_id u \<and> length (c_mem (fa_cache s) (data u)) = fa_block_size s
         \<and> (\<not> dirty u \<longrightarrow> block_at (fa_block_size s) (fa_file s) (nat (unit_id u)) = Some (c_mem (fa_cache s) (data u))))"

definition writes_dirty :: "blk_address \<Rightarrow> file_blk_accessor \<Rightarrow> bool" where
  "writes_dirty a s \<longleftrightarrow> (\<forall>u\<in>set (c_key (fa_cache s)). unit_id u = a \<longrightarrow> dirty u)"

lemma pwrite_block:
  assumes "0 \<le> fd" "0 \<le> a" "length b = n"
  shows "\<exists>f'. pwrite fd b (a * int n) f = Some f' \<and> block_at n f' (nat a) = Some b
     \<and> (\<forall>x v. x \<noteq> nat a \<longrightarrow> block_at n f x = Some v \<longrightarrow> block_at n f' x = Some v)"
proof -
  define off where "off = nat a * n"
  have off: "nat (a * int n) = off" using assms(2) by (simp add: off_def nat_mult_distrib)
  define pre where "pre = take off f @ replicate (off - length f) 0"
  have pre: "length pre = off" by (simp add: pre_def)
  let ?f = "pre @ b @ drop (off + n) f"
  have "0 \<le> a * int n" using assms(2) by simp
  then have "pwrite fd b (a * int n) f = Some ?f" using assms(1,3) off by (simp add: pwrite_def pre_def)
  moreover have "block_at n ?f (nat a) = Some b" using pre assms(3) by (simp add: block_at_def off_def [symmetric])
  moreover have "block_at n ?f x = Some v" if x: "x \<noteq> nat a" "block_at n f x = Some v" for x v
  proof -
    have l: "(x + 1) * n \<le> length f" and v: "v = take n (drop (x * n) f)" using x(2) by (auto simp: block_at_def split: if_splits)
    show ?thesis
    proof (cases "x < nat a")
      case True
      then have le: "(x + 1) * n \<le> off" unfolding off_def by (intro mult_le_mono1) simp
      have "take n (drop (x * n) ?f) = take n (drop (x * n) (take off f))"
        using le l by (simp add: pre_def drop_append take_append)
      also have "\<dots> = v" using le by (simp add: v drop_take min_def)
      finally show ?thesis using le pre assms(3) by (simp add: block_at_def)
    next
      case False
      then have "(nat a + 1) * n \<le> x * n" using x(1) by (intro mult_le_mono1) simp
      then have le: "off + n \<le> x * n" by (simp add: off_def)
      then have "drop (x * n) ?f = drop (x * n) f" using pre assms(3) by simp
      then show ?thesis using le l pre assms(3) by (simp add: block_at_def v)
    qed
  qed
  ultimately show ?thesis by blast
qed

lemma file_ok_unit:
  assumes "file_ok s" "u \<in> set (c_key (fa_cache s))"
  shows "0 \<le> unit_id u" "length (c_mem (fa_cache s) (data u)) = fa_block_size s"
    "\<not> dirty u \<Longrightarrow> block_at (fa_block_size s) (fa_file s) (nat (unit_id u)) = Some (c_mem (fa_cache s) (data u))"
    "cached (fa_cache s) (unit_id u) = Some (c_mem (fa_cache s) (data u))"
  using assms cached_unit [of "fa_cache s" u] by (auto simp: file_ok_def)

text \<open>
  A new cache content, and a file that has at least the blocks of the old file, keep the
  invariant if the units are old ones with their data, or the block that was just stored.
\<close>

lemma file_ok_store:
  assumes ok: "file_ok s" and c: "cache_ok c'" "c_blk_size c' = fa_block_size s" "c_capacity c' = c_capacity (fa_cache s)"
      "length (cache_ids c') \<le> c_capacity (fa_cache s)"
    and f: "\<And>x v. x \<in> set (cache_ids c') \<Longrightarrow> x \<noteq> a \<Longrightarrow> block_at (fa_block_size s) (fa_file s) (nat x) = Some v \<Longrightarrow> block_at (fa_block_size s) f (nat x) = Some v"
    and old: "\<And>u. u \<in> set (c_key c') \<Longrightarrow> unit_id u \<noteq> a \<Longrightarrow> u \<in> set (c_key (fa_cache s)) \<and> cached c' (unit_id u) = cached (fa_cache s) (unit_id u)"
    and new: "\<And>u. u \<in> set (c_key c') \<Longrightarrow> unit_id u = a \<Longrightarrow> \<not> dirty u \<Longrightarrow> block_at (fa_block_size s) f (nat a) = Some b"
    and a: "0 \<le> a" "cached c' a = Some b" "length b = fa_block_size s"
  shows "file_ok (s\<lparr>fa_cache := c', fa_file := f\<rparr>)"
proof -
  have "0 \<le> unit_id u \<and> length (c_mem c' (data u)) = fa_block_size s
      \<and> (\<not> dirty u \<longrightarrow> block_at (fa_block_size s) f (nat (unit_id u)) = Some (c_mem c' (data u)))" if u: "u \<in> set (c_key c')" for u
  proof (cases "unit_id u = a")
    case True
    then have "c_mem c' (data u) = b" using cached_unit [OF c(1) u] a(2) by simp
    then show ?thesis using a new [OF u True] True by simp
  next
    case False
    note o = old [OF u False]
    note F = file_ok_unit [OF ok conjunct1 [OF o]]
    have m: "c_mem c' (data u) = c_mem (fa_cache s) (data u)" using cached_unit [OF c(1) u] o F(4) by simp
    have "unit_id u \<in> set (cache_ids c')" using u by (simp add: cache_ids_def)
    then show ?thesis using F m f [OF _ False] by simp
  qed
  then show ?thesis using ok c by (simp add: file_ok_def)
qed

lemma file_flush_evicted:
  assumes ok: "file_ok s" and e: "u \<in> set (c_key (fa_cache s))" and m: "c_mem c' (data u) = c_mem (fa_cache s) (data u)"
    and D: "dirty u \<Longrightarrow> D u"
  shows "\<exists>g. (if D u then file_flush_unit u (s\<lparr>fa_cache := c'\<rparr>) else s\<lparr>fa_cache := c'\<rparr>) = s\<lparr>fa_cache := c', fa_file := g\<rparr>
     \<and> block_at (fa_block_size s) g (nat (unit_id u)) = Some (c_mem (fa_cache s) (data u))
     \<and> (\<forall>x v. x \<noteq> nat (unit_id u) \<longrightarrow> block_at (fa_block_size s) (fa_file s) x = Some v \<longrightarrow> block_at (fa_block_size s) g x = Some v)"
proof (cases "D u")
  case True
  note U = file_ok_unit [OF ok e]
  have "0 \<le> fa_fd s" using ok by (simp add: file_ok_def)
  from pwrite_block [OF this U(1,2), of "fa_file s"] obtain g where
    "pwrite (fa_fd s) (c_mem (fa_cache s) (data u)) (unit_id u * int (fa_block_size s)) (fa_file s) = Some g"
    "block_at (fa_block_size s) g (nat (unit_id u)) = Some (c_mem (fa_cache s) (data u))"
    "\<forall>x v. x \<noteq> nat (unit_id u) \<longrightarrow> block_at (fa_block_size s) (fa_file s) x = Some v \<longrightarrow> block_at (fa_block_size s) g x = Some v"
    by blast
  then show ?thesis using True m by (intro exI [of _ g]) (simp add: file_flush_unit_def)
next
  case False
  then have "\<not> dirty u" using D by blast
  then show ?thesis using False file_ok_unit(3) [OF ok e] by (intro exI [of _ "fa_file s"]) simp
qed

text \<open>Storing a block that is not in the cache, with write-back of the evicted unit if \<open>D\<close> says so.\<close>

lemma file_store_miss:
  assumes ok: "file_ok s" and a: "a \<notin> set (cache_ids (fa_cache s))" "0 \<le> a" and len: "length b = fa_block_size s"
    and clean: "\<not> d \<Longrightarrow> block_at (fa_block_size s) (fa_file s) (nat a) = Some b" and D: "\<And>u. dirty u \<Longrightarrow> D u"
  shows "\<exists>e c' s'. cache_write a b d (fa_cache s) = Some (e, c')
     \<and> s' = (case e of None \<Rightarrow> s\<lparr>fa_cache := c'\<rparr>
         | Some u \<Rightarrow> file_free_unit u (if D u then file_flush_unit u (s\<lparr>fa_cache := c'\<rparr>) else s\<lparr>fa_cache := c'\<rparr>))
     \<and> file_ok s' \<and> file_view s' a = Some b \<and> (\<forall>x v. 0 \<le> x \<longrightarrow> x \<noteq> a \<longrightarrow> file_view s x = Some v \<longrightarrow> file_view s' x = Some v)
     \<and> freed_blk_addresses s' = freed_blk_addresses s \<and> fa_cursor s' = fa_cursor s \<and> fa_block_size s' = fa_block_size s"
proof -
  let ?c = "fa_cache s" and ?n = "fa_block_size s"
  have cok: "cache_ok ?c" "c_blk_size ?c = ?n" "length (cache_ids ?c) \<le> c_capacity ?c" "0 < c_capacity ?c" "0 \<le> fa_fd s"
    using ok by (simp_all add: file_ok_def)
  have l: "length b = c_blk_size ?c" using len cok by simp
  show ?thesis
  proof (cases "length (cache_ids ?c) < c_capacity ?c")
    case True
    obtain c' where c': "cache_write a b d ?c = Some (None, c')" "cache_ok c'" "cached c' = (cached ?c)(a \<mapsto> b)" "c_blk_size c' = c_blk_size ?c"
      "c_capacity c' = c_capacity ?c" "cache_ids c' = a # cache_ids ?c" "tl (c_key c') = c_key ?c" "dirty (hd (c_key c')) = d"
      using cache_write_miss [OF cok(1) a(1) l True, of d] by blast
    obtain h where h: "c_key c' = h # c_key ?c" "unit_id h = a" "dirty h = d"
      using c'(6-8) by (cases "c_key c'") (auto simp: cache_ids_def)
    have "file_ok (s\<lparr>fa_cache := c', fa_file := fa_file s\<rparr>)"
    proof (rule file_ok_store [OF ok c'(2), where a = a and b = b])
      show "length (cache_ids c') \<le> c_capacity ?c" using c'(6) True by simp
      show "block_at ?n (fa_file s) (nat a) = Some b" if "u \<in> set (c_key c')" "unit_id u = a" "\<not> dirty u" for u
        using that h a(1) clean by (auto simp: cache_ids_def)
    qed (use c' h cok a len in auto)
    moreover have "s\<lparr>fa_cache := c', fa_file := fa_file s\<rparr> = s\<lparr>fa_cache := c'\<rparr>" by simp
    ultimately show ?thesis using c' by (intro exI [of _ None] exI [of _ c']) (auto simp: file_view_def split: option.split)
  next
    case full: False
    then have f: "length (cache_ids ?c) = c_capacity ?c" "c_key ?c \<noteq> []" using cok by (auto simp: cache_ids_def)
    let ?e = "last (c_key ?c)"
    obtain c' where c': "cache_write a b d ?c = Some (Some ?e, c')" "cache_ok c'" "cached c' = (cached ?c)(a \<mapsto> b, unit_id ?e := None)"
      "Some (c_mem c' (data ?e)) = cached ?c (unit_id ?e)" "c_blk_size c' = c_blk_size ?c" "c_capacity c' = c_capacity ?c"
      "cache_ids c' = a # butlast (cache_ids ?c)" "data ?e \<notin> set (map data (c_key c') @ c_free c')" "data ?e < c_next c'"
      "tl (c_key c') = butlast (c_key ?c)" "dirty (hd (c_key c')) = d"
      using cache_write_evicts [OF cok(1) a(1) l f, of d] by blast
    have e: "?e \<in> set (c_key ?c)" using f(2) by simp
    note U = file_ok_unit [OF ok e] and FB = free_block_ok [OF c'(2,8,9)]
    have m: "c_mem c' (data ?e) = c_mem ?c (data ?e)" using c'(4) U(4) by simp
    from file_flush_evicted [OF ok e m, where D = D] D obtain g where g: "(if D ?e then file_flush_unit ?e (s\<lparr>fa_cache := c'\<rparr>) else s\<lparr>fa_cache := c'\<rparr>) = s\<lparr>fa_cache := c', fa_file := g\<rparr>"
      "block_at ?n g (nat (unit_id ?e)) = Some (c_mem ?c (data ?e))"
      "\<forall>x v. x \<noteq> nat (unit_id ?e) \<longrightarrow> block_at ?n (fa_file s) x = Some v \<longrightarrow> block_at ?n g x = Some v"
      by blast
    have ids: "cache_ids ?c = butlast (cache_ids ?c) @ [unit_id ?e]" 
      using f(2) by (metis (no_types) append_butlast_last_id cache_ids_def last_map list.map_disc_iff)
    have "distinct (cache_ids ?c)" using cok(1) by (simp add: cache_ok_def cache_ids_def)
    then have nb: "unit_id ?e \<notin> set (butlast (cache_ids ?c))" by (subst (asm) ids) simp
    have ea: "unit_id ?e \<noteq> a" using e a(1) by (auto simp: cache_ids_def)
    have pos: "0 \<le> x" if "x \<in> set (cache_ids ?c)" for x using that file_ok_unit(1) [OF ok] by (auto simp: cache_ids_def)
    obtain h where h: "c_key c' = h # butlast (c_key ?c)" "unit_id h = a" "dirty h = d"
      using c'(7,10,11) by (cases "c_key c'") (auto simp: cache_ids_def)
    have "file_ok (s\<lparr>fa_cache := free_block (data ?e) c', fa_file := g\<rparr>)"
    proof (rule file_ok_store [OF ok FB(1), where a = a and b = b], goal_cases)
      case (4 x v)
      then have x: "x \<in> set (butlast (cache_ids ?c))" using FB(3) c'(7) by simp
      then have "x \<in> set (cache_ids ?c)" "x \<noteq> unit_id ?e" using nb in_set_butlastD by fastforce+
      then have "nat x \<noteq> nat (unit_id ?e)" using pos [of x] U(1) by simp
      then show ?case using 4(3) g(3) by blast
    next
      case (5 u)
      then have u: "u \<in> set (butlast (c_key ?c))" using FB(4) h by auto
      then have "unit_id u \<noteq> unit_id ?e" using nb by (metis cache_ids_def image_eqI map_butlast set_map)
      then show ?case using 5(2) u FB(2) c'(3) by (auto dest: in_set_butlastD)
    next
      case (6 u)
      then have "u = h" using FB(4) h a(1) by (auto simp: cache_ids_def dest: in_set_butlastD)
      then show ?case using clean 6(3) h(3) g(3) [rule_format, of "nat a" b] ea a(2) U(1) by auto
    qed (use FB c' f ea cok a len in auto)
    moreover have "file_view (s\<lparr>fa_cache := free_block (data ?e) c', fa_file := g\<rparr>) x = Some v"
      if "0 \<le> x" "x \<noteq> a" "file_view s x = Some v" for x v
      using that g(2) g(3) [rule_format, of "nat x" v] U(1,4) FB(2) c'(3) by (cases "x = unit_id ?e") (auto simp: file_view_def split: option.splits)
    moreover have "file_view (s\<lparr>fa_cache := free_block (data ?e) c', fa_file := g\<rparr>) a = Some b"
      using FB(2) c'(3) ea by (simp add: file_view_def)
    ultimately show ?thesis using c'(1) g(1)
      by (intro exI [of _ "Some ?e"] exI [of _ c'] exI [of _ "s\<lparr>fa_cache := free_block (data ?e) c', fa_file := g\<rparr>"]) (simp add: file_free_unit_def)
  qed
qed

lemma file_write_view:
  assumes ok: "file_ok s" and a: "is_address_valid a s" "0 \<le> a" "writes_dirty a s" and len: "length b = fa_block_size s"
  shows "\<exists>s'. file_write a b s = Some (fa_block_size s, s') \<and> file_ok s' \<and> file_view s' a = Some b
     \<and> (\<forall>x v. 0 \<le> x \<longrightarrow> x \<noteq> a \<longrightarrow> file_view s x = Some v \<longrightarrow> file_view s' x = Some v)
     \<and> freed_blk_addresses s' = freed_blk_addresses s \<and> fa_cursor s' = fa_cursor s \<and> fa_block_size s' = fa_block_size s"
proof (cases "a \<in> set (cache_ids (fa_cache s))")
  case False
  obtain e c' s' where *: "cache_write a b True (fa_cache s) = Some (e, c')"
    "s' = (case e of None \<Rightarrow> s\<lparr>fa_cache := c'\<rparr>
         | Some u \<Rightarrow> file_free_unit u (if dirty u then file_flush_unit u (s\<lparr>fa_cache := c'\<rparr>) else s\<lparr>fa_cache := c'\<rparr>))"
    "file_ok s'" "file_view s' a = Some b" "\<forall>x v. 0 \<le> x \<longrightarrow> x \<noteq> a \<longrightarrow> file_view s x = Some v \<longrightarrow> file_view s' x = Some v"
    "freed_blk_addresses s' = freed_blk_addresses s" "fa_cursor s' = fa_cursor s" "fa_block_size s' = fa_block_size s"
    using file_store_miss [OF ok False a(2) len, of True dirty] by blast
  have "file_write a b s = Some (fa_block_size s, s')" unfolding *(2) using a(1) *(1) by (simp add: file_write_def Let_def)
  then show ?thesis using *(3-8) by blast
next
  case True
  have cok: "cache_ok (fa_cache s)" "length b = c_blk_size (fa_cache s)" using ok len by (simp_all add: file_ok_def)
  obtain c' where c': "cache_write a b True (fa_cache s) = Some (None, c')" "cache_ok c'" "cached c' = (cached (fa_cache s))(a \<mapsto> b)"
    "c_blk_size c' = c_blk_size (fa_cache s)" "c_capacity c' = c_capacity (fa_cache s)"
    "cache_ids c' = a # filter (\<lambda>x. x \<noteq> a) (cache_ids (fa_cache s))" "set (c_key c') = set (c_key (fa_cache s))"
    using cache_write_hit [OF cok(1) True cok(2), of True] by blast
  have "length (filter (\<lambda>x. x \<noteq> a) (cache_ids (fa_cache s))) < length (cache_ids (fa_cache s))" by (rule length_filter_less [OF True]) simp
  then have "file_ok (s\<lparr>fa_cache := c', fa_file := fa_file s\<rparr>)"
    by (intro file_ok_store [OF ok c'(2), where a = a and b = b]) (use c' a len ok in \<open>auto simp: file_ok_def writes_dirty_def\<close>)
  moreover have "s\<lparr>fa_cache := c', fa_file := fa_file s\<rparr> = s\<lparr>fa_cache := c'\<rparr>" by simp
  ultimately show ?thesis using c' a(1)
    by (intro exI [of _ "s\<lparr>fa_cache := c'\<rparr>"]) (auto simp: file_write_def file_view_def split: option.split)
qed

lemma file_read_view:
  assumes ok: "file_ok s" and a: "is_address_valid a s" "0 \<le> a" "file_view s a = Some b" and len: "length buf = fa_block_size s"
  shows "\<exists>s'. file_read a buf s = Some (fa_block_size s, b, s') \<and> file_ok s'
     \<and> (\<forall>x v. 0 \<le> x \<longrightarrow> file_view s x = Some v \<longrightarrow> file_view s' x = Some v)
     \<and> freed_blk_addresses s' = freed_blk_addresses s \<and> fa_cursor s' = fa_cursor s \<and> fa_block_size s' = fa_block_size s"
proof -
  have cok: "cache_ok (fa_cache s)" using ok by (simp add: file_ok_def)
  obtain c1 where c1: "cache_read a (fa_cache s) = Some (cached (fa_cache s) a, c1)" "cache_ok c1" "cached c1 = cached (fa_cache s)"
    "c_blk_size c1 = c_blk_size (fa_cache s)" "c_capacity c1 = c_capacity (fa_cache s)" "set (c_key c1) = set (c_key (fa_cache s))"
    "length (cache_ids c1) = length (cache_ids (fa_cache s))" "set (cache_ids c1) = set (cache_ids (fa_cache s))"
    using cache_read_units [OF cok] by blast
  define s1 where "s1 = s\<lparr>fa_cache := c1, fa_reads := fa_reads s + 1\<rparr>"
  have s1: "fa_cache s1 = c1" "fa_block_size s1 = fa_block_size s" "fa_file s1 = fa_file s" "freed_blk_addresses s1 = freed_blk_addresses s"
    "fa_cursor s1 = fa_cursor s" by (simp_all add: s1_def)
  have m: "c_mem c1 (data u) = c_mem (fa_cache s) (data u)" if "u \<in> set (c_key (fa_cache s))" for u
    using cached_unit [OF cok that] cached_unit [OF c1(2)] c1(3,6) that by simp
  have ok1: "file_ok s1" using ok c1 m by (simp add: file_ok_def s1_def)
  have v1: "file_view s1 = file_view s" using c1(3) s1 by (auto simp: file_view_def fun_eq_iff split: option.split)
  show ?thesis
  proof (cases "cached (fa_cache s) a")
    case (Some bs)
    obtain u where "u \<in> set (c_key (fa_cache s))" "unit_id u = a" "bs = c_mem (fa_cache s) (data u)"
      using Some find_unit_Some by (fastforce simp: cached_def)
    then have "length bs = length buf" "bs = b" using file_ok_unit(2) [OF ok] len a(3) Some by (auto simp: file_view_def)
    then show ?thesis using c1(1) Some a(1) ok1 v1 by (intro exI [of _ s1]) (simp add: file_read_def s1_def)
  next
    case None
    then have miss: "a \<notin> set (cache_ids (fa_cache s1))" using c1(8) s1(1) cached_None [of "fa_cache s" a] by simp
    have ba: "block_at (fa_block_size s) (fa_file s) (nat a) = Some b" using a(3) None by (simp add: file_view_def)
    then have lb: "length b = fa_block_size s" "b = take (fa_block_size s) (drop (nat a * fa_block_size s) (fa_file s))"
      by (auto simp: block_at_def split: if_splits)
    have p: "pread (fa_fd s) (fa_block_size s) (a * int (fa_block_size s)) (fa_file s) = Some b"
      using ok a(2) lb(2) by (simp add: pread_def file_ok_def nat_mult_distrib zero_le_mult_iff not_less)
    obtain e c' s' where *: "cache_write a b False (fa_cache s1) = Some (e, c')"
      "s' = (case e of None \<Rightarrow> s1\<lparr>fa_cache := c'\<rparr> | Some u \<Rightarrow> file_free_unit u (file_flush_unit u (s1\<lparr>fa_cache := c'\<rparr>)))"
      "file_ok s'" "file_view s' a = Some b" "\<forall>x v. 0 \<le> x \<longrightarrow> x \<noteq> a \<longrightarrow> file_view s1 x = Some v \<longrightarrow> file_view s' x = Some v"
      "freed_blk_addresses s' = freed_blk_addresses s1" "fa_cursor s' = fa_cursor s1" "fa_block_size s' = fa_block_size s1"
      using file_store_miss [OF ok1 miss a(2), of b False "\<lambda>_. True", unfolded if_True s1(2,3), OF lb(1) ba TrueI] unfolding s1(2) by blast
    have "file_read a buf s = Some (fa_block_size s, b, s')"
      unfolding *(2) using a(1) c1(1) None p *(1) lb(1) len s1(1) by (cases e) (simp_all add: file_read_def Let_def s1_def)
    moreover have "\<forall>x v. 0 \<le> x \<longrightarrow> file_view s x = Some v \<longrightarrow> file_view s' x = Some v" using *(4,5) v1 a(3) by metis
    ultimately show ?thesis using *(3,6-8) s1 by metis
  qed
qed

end
