(* ===== verification/Tree_Queries.thy ===== *)
theory Tree_Queries
  imports Vanilla_Correct
begin

text \<open>
  The iterator, the range search and the printing of the tree.  An iterator follows the
  right-sibling links, which run through all leaves in order, so it returns the entries
  of the tree in the order of their keys.
\<close>

section \<open>Leaves of a tree\<close>

abbreviation leaf_entries :: "(blk_address \<times> ('k \<times> 'v) list \<times> blk_address) list \<Rightarrow> ('k \<times> 'v) list" where
  "leaf_entries L \<equiv> concat (map (\<lambda>l. fst (snd l)) L)"

lemma leafseq_entries: "leaf_entries (leafseq t) = kvs t"
proof (induction t rule: kvs.induct)
  case (2 a ts)
  then show ?case by (induction ts) auto
qed simp

lemma leafseq_nonempty: "bt_ok c t \<Longrightarrow> leafseq t \<noteq> []"
proof (induction t rule: kvs.induct)
  case (2 a ts)
  then show ?case by (cases ts) auto
qed simp

lemma bt_ok_sorted: "bt_ok c t \<Longrightarrow> sorted_keys (kvs t)"
proof (induction t rule: kvs.induct)
  case (2 a ts)
  have "separated us \<Longrightarrow> \<forall>p\<in>set us. sorted_keys (kvs (snd p)) \<Longrightarrow> sorted_keys (forest_kvs us)" for us :: "('a, 'b) forest"
  proof (induction us)
    case (Cons p us)
    have "x < y" if x: "x \<in> keys (kvs (snd p))" and y: "y \<in> keys (forest_kvs us)" for x y
    proof -
      obtain q where q: "q \<in> set us" "y \<in> keys (kvs (snd q))" using y by auto
      have "x < fst q" "fst q \<le> y"
        using Cons.prems(1) x q keys_kvs [of "snd p"] keys_kvs [of "snd q"] by (auto simp: separated_def)
      then show ?thesis by simp
    qed
    then show ?case using Cons by (auto simp: sorted_wrt_append separated_Cons)
  qed simp
  then show ?case using 2 by simp
qed simp

definition leaves_in :: "nat \<Rightarrow> (blk_address \<Rightarrow> ('k::linorder, 'v) blk_content option) \<Rightarrow> (blk_address \<times> ('k \<times> 'v) list \<times> blk_address) list \<Rightarrow> bool" where
  "leaves_in c m L \<longleftrightarrow> (\<forall>(a, xs, sib)\<in>set L. a \<noteq> -1 \<and> m a = Some (LeafC a xs sib) \<and> length xs \<le> c \<and> sorted_keys xs)"

lemma tree_leaves_in:
  assumes "bt_ok c t" "tree_in m t" "\<forall>a\<in>set (addrs t). a \<noteq> -1"
  shows "leaves_in c m (leafseq t)"
  using assms
proof (induction t rule: kvs.induct)
  case (2 a ts)
  then have "leaves_in c m (leafseq (snd p))" if "p \<in> set ts" for p using that by auto
  then show ?case by (fastforce simp: leaves_in_def)
qed (simp add: leaves_in_def)

lemma leaves_in_append [simp]: "leaves_in c m (L @ L') \<longleftrightarrow> leaves_in c m L \<and> leaves_in c m L'"
  by (simp add: leaves_in_def ball_Un)

lemma linked_suffix: "linked (L @ L') r \<Longrightarrow> linked L' r"
proof (induction L)
  case (Cons l L)
  then show ?case by (cases l) simp
qed simp

text \<open>The upper bound of an iterator.\<close>

fun within :: "'k::linorder option \<Rightarrow> 'k \<Rightarrow> bool" where
  "within None k = True"
| "within (Some h) k = (k \<le> h)"

section \<open>Iteration\<close>

context node_store
begin

definition iterator_at ::
  "(blk_address \<times> ('k \<times> 'v) list \<times> blk_address) list \<Rightarrow> 'k vt_iterator \<Rightarrow> bool" where
  "iterator_at L it \<longleftrightarrow> (case L of [] \<Rightarrow> False | (a, xs, sib) # L' \<Rightarrow> leaf_node_ref it = a \<and> offset it \<le> length xs)"

lemma iterator_next_ok:
  assumes "inv s" "leaves_in cap (blocks s) L" "linked L (-1)" "iterator_at L it"
  shows "\<exists>it' s'. quiet s s' \<and> (case drop (offset it) (leaf_entries L) of
       [] \<Rightarrow> iterator_next R it s = Some (False, None, it', s')
     | e # es \<Rightarrow> iterator_next R it s = Some (within (key_high it) (fst e), Some e, it', s')
         \<and> key_high it' = key_high it \<and> (\<exists>L1 L2. L = L1 @ L2 \<and> iterator_at L2 it' \<and> drop (offset it') (leaf_entries L2) = es))"
  using assms
proof (induction L arbitrary: it s)
  case (Cons l L)
  obtain a xs sib where l: "l = (a, xs, sib)" by (cases l)
  have it: "leaf_node_ref it = a" "offset it \<le> length xs" using Cons.prems(4) l by (simp_all add: iterator_at_def)
  have b: "blocks s a = Some (LeafC a xs sib)" "a \<noteq> -1" "length xs \<le> cap" "sorted_keys xs" and L: "leaves_in cap (blocks s) L"
    using Cons.prems(2) l by (auto simp: leaves_in_def)
  have t: "tree_in (blocks s) (BLeaf a xs sib)" using b(1) by simp
  obtain n s1 where g: "ref_get R (addr (BLeaf a xs sib)) s = Some (n, s1)" "quiet s s1" "node_is cap (BLeaf a xs sib) n"
    using get_node [OF Cons.prems(1) t] .
  obtain lf where lf: "n = LeafN lf" "leaf_repr cap a xs sib lf" using node_isE_leaf [OF g(3) b(4)] .
  have s1: "inv s1" "blocks s1 = blocks s" using g(2) by (simp_all add: quiet_def)
  obtain s2 where s2: "ref_close R a n s1 = Some s2" "quiet s1 s2"
    using close_same [OF s1(1) _ g(3)] t s1(2) by auto
  have q2: "quiet s s2" using g(2) s2(2) by (rule quiet_trans)
  show ?case
  proof (cases "offset it < length xs")
    case True
    then have e: "drop (offset it) (leaf_entries (l # L)) = xs ! offset it # drop (Suc (offset it)) (leaf_entries (l # L))"
      using l by (simp add: Cons_nth_drop_Suc [symmetric])
    let ?it = "it\<lparr>offset := offset it + 1\<rparr>"
    have "iterator_next R it s = Some (within (key_high it) (fst (xs ! offset it)), Some (xs ! offset it), ?it, s2)"
      using True it g(1) lf s2(1) b(2) leaf_getEntry_spec [OF lf(2), of "offset it"]
      by (subst iterator_next.simps)
        (auto simp: le_less split: prod.splits option.splits)
    moreover have "\<exists>L1 L2. l # L = L1 @ L2 \<and> iterator_at L2 ?it
        \<and> drop (offset ?it) (leaf_entries L2) = drop (Suc (offset it)) (leaf_entries (l # L))"
      using True it l by (intro exI [of _ "[]"] exI [of _ "l # L"]) (simp add: iterator_at_def)
    ultimately show ?thesis unfolding e using q2 by (intro exI [of _ ?it] exI [of _ s2]) simp
  next
    case False
    then have o: "offset it = length xs" using it(2) by simp
    have en: "leaf_getEntry lf (offset it) = Some None" using leaf_getEntry_spec [OF lf(2), of "offset it"] o by simp
    have sib: "right_sibling lf = sib" "sib = first_leaf L (-1)" using lf(2) Cons.prems(3) l by (simp_all add: leaf_repr_def)
    have e: "drop (offset it) (leaf_entries (l # L)) = leaf_entries L" using l o by simp
    show ?thesis
    proof (cases L)
      case Nil
      then have "iterator_next R it s = Some (False, None, it, s1)"
        using it g(1) lf(1) b(2) en sib by (subst iterator_next.simps) (simp add: first_leaf_def)
      then show ?thesis unfolding e using Nil g(2) by auto
    next
      case (Cons l2 L2)
      obtain a2 xs2 sib2 where l2: "l2 = (a2, xs2, sib2)" by (cases l2)
      let ?it = "it\<lparr>leaf_node_ref := sib, offset := 0\<rparr>"
      have at: "iterator_at L ?it" using sib(2) Cons l2 by (simp add: iterator_at_def first_leaf_def)
      have "sib \<noteq> -1" using sib(2) Cons l2 L by (simp add: first_leaf_def leaves_in_def)
      then have step: "iterator_next R it s = iterator_next R ?it s2"
        using it g(1) lf(1) b(2) en sib(1) s2(1) by (subst iterator_next.simps) simp
      have "linked L (-1)" using Cons.prems(3) l by simp
      moreover have "inv s2" "leaves_in cap (blocks s2) L" using q2 L by (simp_all add: quiet_def)
      ultimately obtain it' s' where N: "quiet s2 s'" "(case drop (offset ?it) (leaf_entries L) of
          [] \<Rightarrow> iterator_next R ?it s2 = Some (False, None, it', s')
        | e # es \<Rightarrow> iterator_next R ?it s2 = Some (within (key_high ?it) (fst e), Some e, it', s')
          \<and> key_high it' = key_high ?it \<and> (\<exists>L1 L2. L = L1 @ L2 \<and> iterator_at L2 it' \<and> drop (offset it') (leaf_entries L2) = es))"
        using Cons.IH [of s2 ?it] at by blast
      show ?thesis
      proof (cases "leaf_entries L")
        case Nil
        have "drop (offset ?it) (leaf_entries L) = []" by (simp only: Nil drop_Nil)
        from N(2) [unfolded this list.case] show ?thesis unfolding e step Nil list.case using quiet_trans [OF q2 N(1)] by blast
      next
        case (Cons x es)
        then obtain L1 L2 where "L = L1 @ L2" "iterator_at L2 it'" "drop (offset it') (leaf_entries L2) = es"
          and r: "iterator_next R ?it s2 = Some (within (key_high it) (fst x), Some x, it', s')" "key_high it' = key_high it"
          using N(2) by auto
        then have "\<exists>L1 L2. l # L = L1 @ L2 \<and> iterator_at L2 it' \<and> drop (offset it') (leaf_entries L2) = es"
          by (intro exI [of _ "l # L1"] exI [of _ L2]) simp
        then show ?thesis unfolding e step Cons using r quiet_trans [OF q2 N(1)]
          by (intro exI [of _ it'] exI [of _ s']) simp
      qed
    qed
  qed
qed (simp add: iterator_at_def)

lemma iterate_ok:
  assumes "inv s" "leaves_in cap (blocks s) L" "linked L (-1)" "iterator_at L it"
  shows "\<exists>s'. quiet s s' \<and> iterate R it s
     = Some (takeWhile (\<lambda>e. within (key_high it) (fst e)) (drop (offset it) (leaf_entries L)), s')"
  using assms
proof (induction "length (drop (offset it) (leaf_entries L))" arbitrary: L it s rule: less_induct)
  case less
  obtain it' s1 where n: "quiet s s1" "(case drop (offset it) (leaf_entries L) of
       [] \<Rightarrow> iterator_next R it s = Some (False, None, it', s1)
     | e # es \<Rightarrow> iterator_next R it s = Some (within (key_high it) (fst e), Some e, it', s1)
         \<and> key_high it' = key_high it \<and> (\<exists>L1 L2. L = L1 @ L2 \<and> iterator_at L2 it' \<and> drop (offset it') (leaf_entries L2) = es))"
    using iterator_next_ok [OF less.prems] by blast
  show ?case
  proof (cases "drop (offset it) (leaf_entries L)")
    case Nil
    then show ?thesis using n by (subst iterate.simps) simp
  next
    case (Cons e es)
    then obtain L1 L2 where L: "L = L1 @ L2" "iterator_at L2 it'" "drop (offset it') (leaf_entries L2) = es"
      and r: "iterator_next R it s = Some (within (key_high it) (fst e), Some e, it', s1)" "key_high it' = key_high it"
      using n(2) by auto
    show ?thesis
    proof (cases "within (key_high it) (fst e)")
      case True
      have "inv s1" "leaves_in cap (blocks s1) L2" using n(1) less.prems(2) L(1) by (simp_all add: quiet_def)
      moreover have "linked L2 (-1)" using linked_suffix less.prems(3) L(1) by blast
      ultimately obtain s2 where "quiet s1 s2" "iterate R it' s1 = Some (takeWhile (\<lambda>e. within (key_high it') (fst e)) es, s2)"
        using less.hyps [of it' L2 s1] L(2,3) Cons by auto
      then show ?thesis using r Cons True quiet_trans [OF n(1)] by (subst iterate.simps) auto
    next
      case False
      then show ?thesis using r Cons n(1) by (subst iterate.simps) auto
    qed
  qed
qed

lemma node_leftmost_leaf_ok:
  assumes "inv s" "bt_ok cap t" "node_is cap t n" "kids_in (blocks s) t"
  shows "\<exists>s'. node_leftmost_leaf R n s = Some (first_leaf (leafseq t) (-1), s') \<and> quiet s s'"
  using assms
proof (induction t arbitrary: n s rule: kvs.induct)
  case (1 a xs sib)
  then obtain l where l: "n = LeafN l" "leaf_repr cap a xs sib l" by (auto elim: node_isE_leaf)
  then show ?case using 1 by (subst node_leftmost_leaf.simps) (simp add: quiet_def first_leaf_def leaf_repr_def)
next
  case (2 a ts)
  obtain nd where nd: "n = InnerN nd" "inner_repr cap a (child_refs ts) nd" using node_isE_node [OF "2.prems"(3)] "2.prems"(2) by auto
  obtain p ts' where ts: "ts = p # ts'" using "2.prems"(2) by (cases ts) auto
  let ?t = "snd p"
  have t: "tree_in (blocks s) ?t" "bt_ok cap ?t" using "2.prems"(2,4) ts by auto
  obtain child s1 where g: "ref_get R (addr ?t) s = Some (child, s1)" "quiet s s1" "node_is cap ?t child"
    using get_node [OF "2.prems"(1) t(1)] .
  have i1: "inv s1" "tree_in (blocks s1) ?t" using g(2) t(1) by (simp_all add: quiet_def)
  obtain s2 where r: "node_leftmost_leaf R child s1 = Some (first_leaf (leafseq ?t) (-1), s2)" "quiet s1 s2"
    using "2.IH" [OF _ i1(1) t(2) g(3)] i1(2) ts tree_in_root by auto
  have i2: "inv s2" "tree_in (blocks s2) ?t" using r(2) i1(2) by (simp_all add: quiet_def)
  obtain s3 where c: "ref_close R (addr ?t) child s2 = Some s3" "quiet s2 s3" using close_same [OF i2 g(3)] .
  have "get_child_rep nd 0 = Some (addr ?t)" using inner_repr_aget(2) [OF nd(2), of 0] ts by (simp add: get_child_rep_def)
  then have "node_leftmost_leaf R n s = Some (first_leaf (leafseq ?t) (-1), s3)"
    using nd(1) g(1) r(1) c(1) by (subst node_leftmost_leaf.simps) simp
  moreover have "first_leaf (leafseq (BNode a ts)) (-1) = first_leaf (leafseq ?t) (-1)"
    using leafseq_nonempty [OF t(2)] ts by (cases "leafseq ?t") (simp_all add: first_leaf_def)
  ultimately show ?case using quiet_trans [OF g(2) quiet_trans [OF r(2) c(2)]] by simp
qed

lemma vt_iterate_ok:
  assumes "tree_is T t"
  shows "\<exists>it T' s. vt_get_iterator R T = Some (it, T') \<and> tree_is T' t \<and> iterate R it (store T') = Some (kvs t, s) \<and> quiet (store T) s"
proof -
  note D = tree_isD [OF assms]
  obtain n s1 where g: "ref_get R (root_ref T) (store T) = Some (n, s1)" "quiet (store T) s1" "node_is cap t n"
    "inv s1" "tree_in (blocks s1) t" "kids_in (blocks s1) t" "tree_env s1 t (-1)" "room s1 = room (store T)"
    using tree_get [OF assms] .
  obtain s2 where s2: "node_leftmost_leaf R n s1 = Some (first_leaf (leafseq t) (-1), s2)" "quiet s1 s2"
    using node_leftmost_leaf_ok [OF g(4) D(3) g(3,6)] by blast
  have "inv s2" "tree_in (blocks s2) t" using s2(2) g(5) by (simp_all add: quiet_def)
  then obtain s3 where s3: "ref_close R (addr t) n s2 = Some s3" "quiet s2 s3" by (rule close_same [OF _ _ g(3)])
  have q: "quiet (store T) s3" using g(2) s2(2) s3(2) by (blast intro: quiet_trans)
  let ?it = "\<lparr>leaf_node_ref = first_leaf (leafseq t) (-1), offset = 0, key_high = None\<rparr>"
  have it: "vt_get_iterator R T = Some (?it, T\<lparr>store := s3\<rparr>)"
    using g(1) s2(1) s3(1) D(7) by (simp add: vt_get_iterator_def)
  have T': "tree_is (T\<lparr>store := s3\<rparr>) t" by (rule tree_is_quiet [OF assms q])
  note D' = tree_isD [OF T']
  have L: "leaves_in cap (blocks s3) (leafseq t)" "linked (leafseq t) (-1)" "inv s3"
    using tree_leaves_in [OF D'(3), of "blocks s3"] D'(1,2,6) by (auto simp: tree_env_def)
  have "iterator_at (leafseq t) ?it"
    using leafseq_nonempty [OF D(3)] by (cases "leafseq t") (auto simp: iterator_at_def first_leaf_def)
  from iterate_ok [OF L(3,1,2) this] obtain s4 where "iterate R ?it s3 = Some (kvs t, s4)" "quiet s3 s4"
    by (auto simp: leafseq_entries)
  then show ?thesis using it T' quiet_trans [OF q, of s4] by auto
qed

section \<open>Range search\<close>

lemma node_locate_ok:
  assumes "inv s" "bt_ok cap t" "node_is cap t n" "kids_in (blocks s) t" "k \<in> keys (kvs t)"
  shows "\<exists>s' a xs sib L1 L2. node_locate_key R k n s = Some ((True, Some (a, int (rank k xs))), s') \<and> quiet s s'
     \<and> leafseq t = L1 @ (a, xs, sib) # L2 \<and> k \<in> keys xs"
  using assms
proof (induction t arbitrary: n s rule: kvs.induct)
  case (1 a xs sib)
  then obtain l where l: "n = LeafN l" "leaf_repr cap a xs sib l" by (auto elim: node_isE_leaf)
  then have "node_locate_key R k n s = Some ((True, Some (a, int (rank k xs))), s)"
    using leaf_locate_key_spec [OF l(2), of k] 1 by (subst node_locate_key.simps) simp
  then show ?case using 1 by (intro exI [of _ s] exI [of _ a] exI [of _ xs] exI [of _ sib] exI [of _ "[]"]) (simp add: quiet_def)
next
  case (2 a ts)
  have sep: "separated ts" using "2.prems"(2) by simp
  obtain nd where nd: "n = InnerN nd" "inner_repr cap a (child_refs ts) nd" using node_isE_node [OF "2.prems"(3) sep] .
  have k: "0 \<le> child_index k ts"
  proof (rule ccontr)
    assume "\<not> 0 \<le> child_index k ts"
    then have "k \<notin> forest_keys ts" using child_index_neg [OF sep] by simp
    then show False using "2.prems"(5) keys_forest_kvs [of ts] by auto
  qed
  define i where "i = nat (child_index k ts)"
  note C = child_ref [OF "2.prems"(2) nd(2) k, folded i_def]
  let ?t = "snd (ts ! i)"
  have t: "tree_in (blocks s) ?t" "bt_ok cap ?t" "k \<in> keys (kvs ?t)"
    using "2.prems"(2,4,5) C(4) child_entries(2) [OF sep k] by (auto simp: i_def)
  obtain child s1 where g: "ref_get R (addr ?t) s = Some (child, s1)" "quiet s s1" "node_is cap ?t child"
    using get_node [OF "2.prems"(1) t(1)] .
  have i1: "inv s1" "tree_in (blocks s1) ?t" "kids_in (blocks s1) ?t"
    using g(2) t(1) tree_in_root [of "blocks s" ?t] by (simp_all add: quiet_def)
  obtain s2 b xs sib L1 L2 where r: "node_locate_key R k child s1 = Some ((True, Some (b, int (rank k xs))), s2)" "quiet s1 s2"
    "leafseq ?t = L1 @ (b, xs, sib) # L2" "k \<in> keys xs"
    using "2.IH" [OF C(4) i1(1) t(2) g(3) i1(3) t(3)] by blast
  have i2: "inv s2" "tree_in (blocks s2) ?t" using r(2) i1(2) by (simp_all add: quiet_def)
  obtain s3 where c: "ref_close R (addr ?t) child s2 = Some s3" "quiet s2 s3" using close_same [OF i2 g(3)] .
  have "node_locate_key R k n s = Some ((True, Some (b, int (rank k xs))), s3)"
    using nd C(2,3) g(1) r(1) c(1) k by (subst node_locate_key.simps) simp
  moreover have "leafseq (BNode a ts) = (forest_leaves (take i ts) @ L1) @ (b, xs, sib) # (L2 @ forest_leaves (drop (Suc i) ts))"
    using concat_map_nth [OF C(1), of "\<lambda>p. leafseq (snd p)"] r(3) by simp
  ultimately show ?case using quiet_trans [OF g(2) quiet_trans [OF r(2) c(2)]] r(4) by blast
qed

lemma located_suffix:
  assumes "sorted_keys (leaf_entries L1 @ xs @ leaf_entries L2)" "k \<in> keys xs"
  shows "drop (rank k xs) (xs @ leaf_entries L2) = filter (\<lambda>e. k \<le> fst e) (leaf_entries L1 @ xs @ leaf_entries L2)"
proof -
  have s: "sorted_keys xs" and lo: "\<forall>x\<in>keys (leaf_entries L1). x < k" and hi: "\<forall>x\<in>keys (leaf_entries L2). k < x"
    using assms by (auto simp: sorted_wrt_append)
  have "drop (rank k xs) xs = filter (\<lambda>e. k \<le> fst e) xs" using drop_rank [OF s, of k] by (simp add: not_less)
  moreover have "filter (\<lambda>e. k \<le> fst e) (leaf_entries L1) = []" "filter (\<lambda>e. k \<le> fst e) (leaf_entries L2) = leaf_entries L2"
    using lo hi by (force simp: filter_empty_conv filter_id_conv)+
  ultimately show ?thesis using rank_le [of k xs] by (simp add: filter_append del: filter_concat)
qed

lemma takeWhile_sorted:
  "sorted_keys xs \<Longrightarrow> takeWhile (\<lambda>e. fst e \<le> h) xs = filter (\<lambda>e. fst e \<le> h) xs"
proof (induction xs)
  case (Cons x xs)
  then have "filter (\<lambda>e. fst e \<le> h) xs = []" if "\<not> fst x \<le> h" using that by (fastforce simp: filter_empty_conv)
  then show ?case using Cons by auto
qed simp

lemma vt_range_search_ok:
  assumes "tree_is T t" "low \<in> keys (kvs t)"
  shows "\<exists>it T' s. vt_range_search R low high T = Some (it, T') \<and> tree_is T' t
     \<and> iterate R it (store T') = Some (filter (\<lambda>e. low \<le> fst e \<and> fst e \<le> high) (kvs t), s) \<and> quiet (store T) s"
proof -
  note D = tree_isD [OF assms(1)]
  obtain n s1 where g: "ref_get R (root_ref T) (store T) = Some (n, s1)" "quiet (store T) s1" "node_is cap t n"
    "inv s1" "tree_in (blocks s1) t" "kids_in (blocks s1) t" "tree_env s1 t (-1)" "room s1 = room (store T)"
    using tree_get [OF assms(1)] .
  obtain s2 a xs sib L1 L2 where r: "node_locate_key R low n s1 = Some ((True, Some (a, int (rank low xs))), s2)" "quiet s1 s2"
    "leafseq t = L1 @ (a, xs, sib) # L2" "low \<in> keys xs"
    using node_locate_ok [OF g(4) D(3) g(3,6) assms(2)] by blast
  have "inv s2" "tree_in (blocks s2) t" using r(2) g(5) by (simp_all add: quiet_def)
  then obtain s3 where s3: "ref_close R (addr t) n s2 = Some s3" "quiet s2 s3" by (rule close_same [OF _ _ g(3)])
  have q: "quiet (store T) s3" using g(2) r(2) s3(2) by (blast intro: quiet_trans)
  let ?it = "\<lparr>leaf_node_ref = a, offset = rank low xs, key_high = Some high\<rparr>" and ?L = "(a, xs, sib) # L2"
  have it: "vt_range_search R low high T = Some (?it, T\<lparr>store := s3\<rparr>)"
    using g(1) r(1) s3(1) D(7) by (simp add: vt_range_search_def)
  have T': "tree_is (T\<lparr>store := s3\<rparr>) t" by (rule tree_is_quiet [OF assms(1) q])
  note D' = tree_isD [OF T']
  have L: "leaves_in cap (blocks s3) ?L" "linked ?L (-1)" "inv s3"
    using tree_leaves_in [OF D'(3), of "blocks s3"] linked_suffix [of L1 ?L] D'(1,2,6) r(3) by (auto simp: tree_env_def)
  have kv: "kvs t = leaf_entries L1 @ xs @ leaf_entries L2" using leafseq_entries [of t] r(3) by simp
  have sk: "sorted_keys (kvs t)" by (rule bt_ok_sorted [OF D(3)])
  have "iterator_at ?L ?it" using rank_le [of low xs] by (simp add: iterator_at_def)
  from iterate_ok [OF L(3,1,2) this] obtain s4 where
    s4: "iterate R ?it s3 = Some (takeWhile (\<lambda>e. fst e \<le> high) (drop (rank low xs) (xs @ leaf_entries L2)), s4)" "quiet s3 s4"
    by auto
  have "takeWhile (\<lambda>e. fst e \<le> high) (drop (rank low xs) (xs @ leaf_entries L2)) = filter (\<lambda>e. low \<le> fst e \<and> fst e \<le> high) (kvs t)"
    using located_suffix [of L1 xs L2 low] sk r(4) takeWhile_sorted [OF sorted_keys_filter [OF sk]] unfolding kv
    by (simp add: conj_commute)
  then show ?thesis using it T' s4 quiet_trans [OF q, of s4] by auto
qed

text \<open>Below the first separator of an inner root the reference is not assigned.\<close>

lemma vt_range_search_unset:
  assumes T: "tree_is T (BNode a ts)" and low: "low < fst (hd ts)"
  shows "vt_range_search R low high T = None"
proof -
  note D = tree_isD [OF T]
  obtain n s1 where g: "ref_get R (root_ref T) (store T) = Some (n, s1)" "node_is cap (BNode a ts) n" using tree_get [OF T] .
  have sep: "separated ts" using D(3) by simp
  obtain nd where nd: "n = InnerN nd" "inner_repr cap a (child_refs ts) nd" using node_isE_node [OF g(2) sep] .
  have "\<forall>p\<in>set ts. \<not> fst p \<le> low" 
  proof
    fix p assume "p \<in> set ts"
    then show "\<not> fst p \<le> low" using separated_first [OF sep] low by (meson leD order_trans)
  qed
  then have "child_index low ts < 0" by (simp add: child_index_def filter_empty_conv)
  then have "node_locate_key R low n s1 = Some ((False, None), s1)"
    using nd locate_child_index_spec [OF nd(2), of low] by (subst node_locate_key.simps) simp
  then show ?thesis using g(1) by (simp add: vt_range_search_def)
qed

end

section \<open>Printing\<close>

fun join_words :: "string list \<Rightarrow> string" where
  "join_words [] = []"
| "join_words [w] = w"
| "join_words (w # w' # ws) = w @ '' '' @ join_words (w' # ws)"

fun bt_string :: "('k \<Rightarrow> string) \<Rightarrow> ('v \<Rightarrow> string) \<Rightarrow> ('k, 'v) bt \<Rightarrow> string" where
  "bt_string sk sv (BLeaf a xs sib) = join_entries sk sv xs"
| "bt_string sk sv (BNode a ts) = join_words (map (\<lambda>p. sk (fst p)) (tl ts)) @ '' ''
     @ join_words (map (\<lambda>p. ''['' @ bt_string sk sv (snd p) @ '']'') ts)"

lemma join_words_Cons: "join_words (w # ws) = w @ (if ws = [] then [] else '' '' @ join_words ws)"
  by (cases ws) simp_all

lemma keys_print_spec:
  assumes R: "inner_repr c a xs n" and "i \<le> length xs"
  shows "keys_print sk n i ss = Some (ss @ join_words (map (\<lambda>p. sk (fst p)) (drop i xs)))"
  using assms(2)
proof (induction "length xs - i" arbitrary: i ss)
  case 0
  then show ?case using inner_reprD(4) [OF R] by (subst keys_print.simps) simp
next
  case (Suc m)
  then have i: "i < length xs" by simp
  have d: "drop i xs = xs ! i # drop (Suc i) xs" using i by (simp add: Cons_nth_drop_Suc)
  have ih: "keys_print sk n (Suc i) ss' = Some (ss' @ join_words (map (\<lambda>p. sk (fst p)) (drop (Suc i) xs)))" for ss'
    using Suc by (intro Suc.hyps(1)) simp_all
  have l: "int i < int (inner_size n) - 1 \<longleftrightarrow> drop (Suc i) xs \<noteq> []" using inner_reprD(4) [OF R] i by auto
  show ?case
    using i inner_repr_aget(1) [OF R i] inner_reprD(4) [OF R] ih l
    by (simp add: keys_print.simps [of sk n i] d join_words_Cons)
qed

lemma keys_to_string_spec:
  assumes "inner_repr c a xs n" "xs \<noteq> []"
  shows "keys_to_string sk n = Some (join_words (map (\<lambda>p. sk (fst p)) (tl xs)))"
  using keys_print_spec [OF assms(1), of 1 sk "[]"] assms(2) by (simp add: keys_to_string_def drop_Suc Suc_le_eq)

context node_store
begin

lemma node_print_children:
  assumes rep: "inner_repr cap a (child_refs ts) nd" and ne: "ts \<noteq> []"
    and IH: "\<And>p n s. p \<in> set ts \<Longrightarrow> inv s \<Longrightarrow> node_is cap (snd p) n \<Longrightarrow> kids_in (blocks s) (snd p)
      \<Longrightarrow> \<exists>s'. node_print R sk sv n 0 [] s = Some (bt_string sk sv (snd p), s') \<and> quiet s s'"
  shows "inv s \<Longrightarrow> i \<le> length ts \<Longrightarrow> \<forall>p\<in>set ts. tree_in (blocks s) (snd p) \<Longrightarrow>
     \<exists>s'. node_print R sk sv (InnerN nd) i ss s = Some (join_words (map (\<lambda>p. sk (fst p)) (tl ts)) @ '' '' @ ss
         @ join_words (map (\<lambda>p. ''['' @ bt_string sk sv (snd p) @ '']'') (drop i ts)), s') \<and> quiet s s'"
proof (induction "length ts - i" arbitrary: i s ss)
  case 0
  then have i: "i = length ts" by simp
  have "keys_to_string sk nd = Some (join_words (map (\<lambda>p. sk (fst p)) (tl ts)))"
    using keys_to_string_spec [OF rep, of sk] ne by (simp add: child_refs_def map_tl [symmetric] comp_def)
  then show ?case using i 0 inner_reprD(4) [OF rep] by (subst node_print.simps) (simp add: quiet_def)
next
  case (Suc d)
  then have i: "i < length ts" by simp
  let ?t = "snd (ts ! i)"
  have t: "tree_in (blocks s) ?t" using Suc.prems(3) i by simp
  obtain child s1 where g: "ref_get R (addr ?t) s = Some (child, s1)" "quiet s s1" "node_is cap ?t child"
    using get_node [OF Suc.prems(1) t] .
  have i1: "inv s1" "tree_in (blocks s1) ?t" "kids_in (blocks s1) ?t"
    using g(2) t tree_in_root [of "blocks s" ?t] by (simp_all add: quiet_def)
  obtain s2 where r: "node_print R sk sv child 0 [] s1 = Some (bt_string sk sv ?t, s2)" "quiet s1 s2"
    using IH [OF _ i1(1) g(3) i1(3)] i by auto
  have i2: "inv s2" "tree_in (blocks s2) ?t" using r(2) i1(2) by (simp_all add: quiet_def)
  obtain s3 where c: "ref_close R (addr ?t) child s2 = Some s3" "quiet s2 s3" using close_same [OF i2 g(3)] .
  have q: "quiet s s3" using g(2) r(2) c(2) by (blast intro: quiet_trans)
  define ss' where "ss' = ss @ ''['' @ bt_string sk sv ?t @ '']'' @ (if int i \<noteq> int (inner_size nd) - 1 then '' '' else [])"
  have l: "int i \<noteq> int (inner_size nd) - 1 \<longleftrightarrow> drop (Suc i) ts \<noteq> []" using inner_reprD(4) [OF rep] i by auto
  have dr: "drop i ts = ts ! i # drop (Suc i) ts" using i by (simp add: Cons_nth_drop_Suc)
  have "inv s3" "\<forall>p\<in>set ts. tree_in (blocks s3) (snd p)" using q Suc.prems(3) by (simp_all add: quiet_def)
  moreover have "d = length ts - Suc i" "Suc i \<le> length ts" using Suc.hyps(2) i by simp_all
  ultimately obtain s4 where s4: "node_print R sk sv (InnerN nd) (Suc i) ss' s3 = Some (join_words (map (\<lambda>p. sk (fst p)) (tl ts)) @ '' '' @ ss'
      @ join_words (map (\<lambda>p. ''['' @ bt_string sk sv (snd p) @ '']'') (drop (Suc i) ts)), s4)" "quiet s3 s4"
    using Suc.hyps(1) [of "Suc i" s3 ss'] by blast
  have "get_child_rep nd (int i) = Some (addr ?t)" using inner_repr_aget(2) [OF rep, of i] i by (simp add: get_child_rep_def)
  then have "node_print R sk sv (InnerN nd) i ss s = node_print R sk sv (InnerN nd) (Suc i) ss' s3"
    using i inner_reprD(4) [OF rep] g(1) r(1) c(1) by (subst node_print.simps) (simp add: ss'_def)
  moreover have "ss' @ join_words (map (\<lambda>p. ''['' @ bt_string sk sv (snd p) @ '']'') (drop (Suc i) ts))
      = ss @ join_words (map (\<lambda>p. ''['' @ bt_string sk sv (snd p) @ '']'') (drop i ts))"
    using l by (simp add: ss'_def dr join_words_Cons)
  ultimately show ?case using s4 quiet_trans [OF q s4(2)] by auto
qed

lemma node_print_ok:
  assumes "inv s" "bt_ok cap t" "node_is cap t n" "kids_in (blocks s) t"
  shows "\<exists>s'. node_print R sk sv n 0 [] s = Some (bt_string sk sv t, s') \<and> quiet s s'"
  using assms
proof (induction t arbitrary: n s rule: kvs.induct)
  case (1 a xs sib)
  then obtain l where l: "n = LeafN l" "leaf_repr cap a xs sib l" by (auto elim: node_isE_leaf)
  then have "node_print R sk sv n 0 [] s = Some (bt_string sk sv (BLeaf a xs sib), s)"
    using leaf_toString_spec [OF l(2), of sk sv] by (subst node_print.simps) simp
  then show ?case using "1.prems"(1) by (simp add: quiet_def)
next
  case (2 a ts)
  obtain nd where nd: "n = InnerN nd" "inner_repr cap a (child_refs ts) nd" using node_isE_node [OF "2.prems"(3)] "2.prems"(2) by auto
  have IH: "\<exists>s'. node_print R sk sv n 0 [] s = Some (bt_string sk sv (snd p), s') \<and> quiet s s'"
    if "p \<in> set ts" "inv s" "node_is cap (snd p) n" "kids_in (blocks s) (snd p)" for p n s
    by (rule "2.IH" [OF that(1,2) _ that(3,4)]) (use "2.prems"(2) that(1) in simp)
  have ne: "ts \<noteq> []" and k: "\<forall>p\<in>set ts. tree_in (blocks s) (snd p)" using "2.prems"(2,4) by simp_all
  from node_print_children [OF nd(2) ne IH "2.prems"(1) le0 k, of "[]"] show ?case
    unfolding nd(1) bt_string.simps drop_0 append_Nil .
qed

lemma vt_toString_ok:
  assumes "tree_is T t"
  shows "\<exists>T'. vt_toString R sk sv T = Some (bt_string sk sv t, T') \<and> tree_is T' t"
proof -
  note D = tree_isD [OF assms]
  obtain n s1 where g: "ref_get R (root_ref T) (store T) = Some (n, s1)" "quiet (store T) s1" "node_is cap t n"
    "inv s1" "tree_in (blocks s1) t" "kids_in (blocks s1) t" using tree_get [OF assms] .
  obtain s2 where s2: "node_print R sk sv n 0 [] s1 = Some (bt_string sk sv t, s2)" "quiet s1 s2"
    using node_print_ok [OF g(4) D(3) g(3,6)] by blast
  have "inv s2" "tree_in (blocks s2) t" using s2(2) g(5) by (simp_all add: quiet_def)
  then obtain s3 where s3: "ref_close R (addr t) n s2 = Some s3" "quiet s2 s3" by (rule close_same [OF _ _ g(3)])
  have q: "quiet (store T) s3" using g(2) s2(2) s3(2) by (blast intro: quiet_trans)
  have "vt_toString R sk sv T = Some (bt_string sk sv t, T\<lparr>store := s3\<rparr>)"
    using g(1) s2(1) s3(1) D(7) by (simp add: vt_toString_def)
  then show ?thesis using tree_is_quiet [OF assms q] by blast
qed

end

end
