(* ===== verification/Disk_Tree.thy ===== *)
theory Disk_Tree
  imports File_Store Tree_Queries
begin

text \<open>
  The disk tree of \<^verbatim>\<open>src/src/tree/in_disk_b_plus_tree.h\<close>: the vanilla tree over the file accessor.
  \<^verbatim>\<open>clear\<close> throws the accessor away and opens a new one.  \<open>fd\<close> and \<open>err\<close> are the results of the
  system call that opens the file.
\<close>

definition disk_set_blk_accessor :: "int \<Rightarrow> int \<Rightarrow> nat \<Rightarrow> file_blk_accessor" where
  "disk_set_blk_accessor fd err block_size = snd (file_open fd err (file_new block_size))"

definition disk_clear :: "'k pod \<Rightarrow> ('k::linorder \<times> 'v) pod \<Rightarrow> nat \<Rightarrow> byte list \<Rightarrow> (blk_address list \<Rightarrow> blk_address)
    \<Rightarrow> int \<Rightarrow> int \<Rightarrow> file_blk_accessor vtree \<Rightarrow> file_blk_accessor vtree option" where
  "disk_clear P E c buf pick fd err T =
     vt_close (file_ops P E c buf pick) T \<bind>
       (\<lambda>s. vt_init (file_ops P E c buf pick) c (disk_set_blk_accessor fd err (fa_block_size (file_close s))))"

text \<open>The operations of the disk tree.\<close>

fun disk_exec :: "'k pod \<Rightarrow> ('k::linorder \<times> 'v) pod \<Rightarrow> nat \<Rightarrow> byte list \<Rightarrow> (blk_address list \<Rightarrow> blk_address) \<Rightarrow> int \<Rightarrow> int
    \<Rightarrow> 'k \<times> blk_address \<Rightarrow> ('k, 'v) tree_op \<Rightarrow> file_blk_accessor vtree \<Rightarrow> ('v tree_result \<times> file_blk_accessor vtree) option" where
  "disk_exec P E c buf pick fd err junk Clear T = map_option (Pair Done) (disk_clear P E c buf pick fd err T)"
| "disk_exec P E c buf pick fd err junk x T = vt_exec (file_ops P E c buf pick) c junk x T"

definition disk_run where
  "disk_run P E c buf pick fd err junk = op_run (disk_exec P E c buf pick fd err junk)"

text \<open>
  The new accessor of \<^verbatim>\<open>clear\<close> has all its addresses again, so its tree can take whatever the
  rest of the sequence needs.
\<close>

context disk_params
begin

lemma new_accessor_ok:
  assumes "block_fits P E c (length buf)"
  shows "file_inv P E c buf (disk_set_blk_accessor fd err (length buf))"
    "n \<le> 100000 \<Longrightarrow> file_room (disk_set_blk_accessor fd err (length buf)) n"
  using file_inv_new [of P E c "length buf" buf fd err] assms
  by (simp_all add: disk_set_blk_accessor_def file_room_def file_open_def file_new_def file_new_with_def cache_new_def)

lemma disk_clear_ok:
  assumes T: "disk.tree_is c buf T t" and m: "Suc m \<le> 100000"
  shows "\<exists>T'. disk_clear P E c buf pick fd err T = Some T' \<and> disk.tree_is c buf T' (BLeaf (root_ref T') [] (-1)) \<and> file_room (store T') m"
proof -
  obtain s where s: "vt_close (file_ops P E c buf pick) T = Some s" "disk.gone c buf (store T) s (set (addrs t))"
    using disk.vt_close_ok [OF T] by blast
  then have i: "file_inv P E c buf s" by (simp add: disk.gone_def)
  then have f: "block_fits P E c (length buf)" "fa_block_size (file_close s) = length buf" by (simp_all add: file_inv_def file_close_def)
  from disk.vt_init_ok [OF new_accessor_ok(1) [OF f(1)] new_accessor_ok(2) [OF f(1) m], of fd err]
  show ?thesis using s(1) f(2) by (auto simp: disk_clear_def)
qed

theorem disk_tree_refines_map:
  assumes c: "3 \<le> c" and f: "block_fits P E c (length buf)" and n: "Suc (node_budget (length xs) 1) \<le> 100000"
  shows "\<exists>T0 T t. vt_init (file_ops P E c buf pick) c (disk_set_blk_accessor fd err (length buf)) = Some T0
     \<and> disk_run P E c buf pick fd err junk xs T0 = Some (fst (map_run xs Map.empty), T)
     \<and> disk.tree_is c buf T t \<and> map_of (kvs t) = snd (map_run xs Map.empty)"
proof -
  let ?I = "\<lambda>n T f. \<exists>t. disk.tree_is c buf T t \<and> map_of (kvs t) = f \<and> file_room (store T) (node_budget n (nat (depth T)))
     \<and> Suc (node_budget n 1) \<le> 100000"
  have step: "\<exists>T'. disk_exec P E c buf pick fd err junk x T = Some (fst (map_exec x f), T') \<and> ?I n T' (snd (map_exec x f))"
    if I: "?I (Suc n) T f" for x n T f
  proof -
    obtain t where t: "disk.tree_is c buf T t" "map_of (kvs t) = f" "file_room (store T) (nat (depth T) + 1 + node_budget n (Suc (nat (depth T))))"
      "Suc (node_budget n 2) < 100000" using I by (auto simp: add.assoc numeral_2_eq_2)
    have n: "Suc (node_budget n 1) \<le> 100000" using t(4) node_budget_mono [of 1 2 n] by simp
    show ?thesis
    proof (cases "x = Clear")
      case True
      obtain T' where T': "disk_clear P E c buf pick fd err T = Some T'" "disk.tree_is c buf T' (BLeaf (root_ref T') [] (-1))"
        "file_room (store T') (node_budget n 1)"
        using disk_clear_ok [OF t(1) n] by blast
      have "nat (depth T') = 1" using disk.tree_isD(4,5) [OF T'(2)] by simp
      then show ?thesis using T' True n by (intro exI [of _ T']) auto
    next
      case False
      have e: "disk_exec P E c buf pick fd err junk x T = vt_exec (file_ops P E c buf pick) c junk x T" using False by (cases x) simp_all
      from disk.vt_exec_ok [OF t(1) c t(3), of junk x] obtain T1 t1 where 1: "vt_exec (file_ops P E c buf pick) c junk x T = Some (fst (map_exec x f), T1)"
        "disk.tree_is c buf T1 t1" "map_of (kvs t1) = snd (map_exec x f)" "file_room (store T1) (node_budget n (Suc (nat (depth T))))"
        "nat (depth T1) \<le> Suc (nat (depth T))" unfolding t(2) by blast
      have "file_room (store T1) (node_budget n (nat (depth T1)))"
        by (rule disk.room_mono [OF 1(4) node_budget_mono [OF 1(5)]])
      then show ?thesis using 1 e n by (intro exI [of _ T1]) auto
    qed
  qed
  obtain T0 where T0: "vt_init (file_ops P E c buf pick) c (disk_set_blk_accessor fd err (length buf)) = Some T0"
    "disk.tree_is c buf T0 (BLeaf (root_ref T0) [] (-1))" "file_room (store T0) (node_budget (length xs) 1)"
    using disk.vt_init_ok [OF new_accessor_ok(1) [OF f] new_accessor_ok(2) [OF f n], of fd err] by blast
  have "nat (depth T0) = 1" using disk.tree_isD(4,5) [OF T0(2)] by simp
  then have "?I (length xs) T0 Map.empty" using T0(2,3) n by (intro exI [of _ "BLeaf (root_ref T0) [] (-1)"]) simp
  from op_run_refines [where I = ?I and exec = "disk_exec P E c buf pick fd err junk", OF step this] T0(1)
  show ?thesis unfolding disk_run_def by auto
qed

end

end
