(* ===== verification/Lru.thy ===== *)
theory Lru
  imports Prelude
begin

text \<open>
  The least-recently-used cache of \<^verbatim>\<open>src/src/blk/lru.h\<close>: a list of entries, most recently used
  first, and a hash map from the keys to the nodes of that list.  A list iterator is the
  node with the key it was stored under, so the map is its set of keys; the invariant says
  that the two agree.
\<close>

section \<open>The class\<close>

record ('k, 'v) lru =
  lru_cache :: "'k list"
  lru_keys :: "('k \<times> 'v) list"
  maxSize :: nat
  elasticity :: nat

definition lru_new :: "nat \<Rightarrow> nat \<Rightarrow> ('k, 'v) lru" where
  "lru_new m e = \<lparr>lru_cache = [], lru_keys = [], maxSize = m, elasticity = e\<rparr>"

definition lru_size :: "('k, 'v) lru \<Rightarrow> nat" where
  "lru_size c = length (lru_cache c)"

definition lru_empty :: "('k, 'v) lru \<Rightarrow> bool" where
  "lru_empty c = (lru_cache c = [])"

definition lru_clear :: "('k, 'v) lru \<Rightarrow> ('k, 'v) lru" where
  "lru_clear c = c\<lparr>lru_cache := [], lru_keys := []\<rparr>"

definition lru_contains :: "'k \<Rightarrow> ('k, 'v) lru \<Rightarrow> bool" where
  "lru_contains k c = (k \<in> set (lru_cache c))"

text \<open>\<^verbatim>\<open>keys_.splice(keys_.begin(), keys_, it)\<close> for the iterator of a key.\<close>

definition move_front :: "'k \<Rightarrow> ('k \<times> 'v) list \<Rightarrow> ('k \<times> 'v) list" where
  "move_front k xs = filter (\<lambda>e. fst e = k) xs @ filter (\<lambda>e. fst e \<noteq> k) xs"

text \<open>The loop of \<^verbatim>\<open>prune\<close>, which counts the entries it removes; \<^verbatim>\<open>back()\<close> of an empty list is undefined.\<close>

function prune_loop :: "nat \<Rightarrow> ('k, 'v) lru \<Rightarrow> (nat \<times> ('k, 'v) lru) option" where
  "prune_loop count c =
     (if maxSize c < length (lru_cache c) then
        if lru_keys c = [] \<or> fst (last (lru_keys c)) \<notin> set (lru_cache c) then None
        else prune_loop (Suc count) (c\<lparr>lru_cache := remove1 (fst (last (lru_keys c))) (lru_cache c), lru_keys := butlast (lru_keys c)\<rparr>)
      else Some (count, c))"
  by pat_completeness auto
termination
  by (relation "measure (\<lambda>(count, c). length (lru_cache c))") (auto simp: length_remove1)

declare prune_loop.simps [simp del]

definition prune :: "('k, 'v) lru \<Rightarrow> (nat \<times> ('k, 'v) lru) option" where
  "prune c = (if maxSize c = 0 \<or> length (lru_cache c) < maxSize c + elasticity c then Some (0, c) else prune_loop 0 c)"

definition lru_insert :: "'k \<Rightarrow> 'v \<Rightarrow> ('k, 'v) lru \<Rightarrow> ('k, 'v) lru option" where
  "lru_insert k v c =
     (if k \<in> set (lru_cache c)
      then Some (c\<lparr>lru_keys := move_front k (map (\<lambda>e. if fst e = k then (k, v) else e) (lru_keys c))\<rparr>)
      else map_option snd (prune (c\<lparr>lru_keys := (k, v) # lru_keys c, lru_cache := k # lru_cache c\<rparr>)))"

definition tryGet :: "'k \<Rightarrow> ('k, 'v) lru \<Rightarrow> 'v option \<times> ('k, 'v) lru" where
  "tryGet k c =
     (if k \<in> set (lru_cache c)
      then (let ks = move_front k (lru_keys c) in (map_of ks k, c\<lparr>lru_keys := ks\<rparr>))
      else (None, c))"

text \<open>\<^verbatim>\<open>get\<close> throws \<^verbatim>\<open>KeyNotFound\<close>.\<close>

datatype lru_error = KeyNotFound

definition lru_get :: "'k \<Rightarrow> ('k, 'v) lru \<Rightarrow> lru_error + ('v option \<times> ('k, 'v) lru)" where
  "lru_get k c = (if k \<in> set (lru_cache c) then Inr (tryGet k c) else Inl KeyNotFound)"

definition lru_remove :: "'k \<Rightarrow> ('k, 'v) lru \<Rightarrow> bool \<times> ('k, 'v) lru" where
  "lru_remove k c =
     (if k \<in> set (lru_cache c)
      then (True, c\<lparr>lru_keys := filter (\<lambda>e. fst e \<noteq> k) (lru_keys c), lru_cache := remove1 k (lru_cache c)\<rparr>)
      else (False, c))"

definition getMaxAllowedSize :: "('k, 'v) lru \<Rightarrow> nat" where
  "getMaxAllowedSize c = maxSize c + elasticity c"

section \<open>Invariant\<close>

definition lru_ok :: "('k, 'v) lru \<Rightarrow> bool" where
  "lru_ok c \<longleftrightarrow> distinct (lru_cache c) \<and> distinct (map fst (lru_keys c)) \<and> set (lru_cache c) = keys (lru_keys c)
     \<and> (maxSize c \<noteq> 0 \<longrightarrow> length (lru_keys c) \<le> maxSize c + elasticity c)"

lemma lru_okD:
  assumes "lru_ok c"
  shows "distinct (lru_cache c)" "distinct (map fst (lru_keys c))" "set (lru_cache c) = keys (lru_keys c)" "length (lru_cache c) = length (lru_keys c)"
proof -
  show d: "distinct (lru_cache c)" "distinct (map fst (lru_keys c))" "set (lru_cache c) = keys (lru_keys c)"
    using assms by (simp_all add: lru_ok_def)
  show "length (lru_cache c) = length (lru_keys c)"
    using distinct_card [OF d(1)] distinct_card [OF d(2)] d(3) by simp
qed

lemma move_front_unique:
  assumes "distinct (map fst xs)" "(k, v) \<in> set xs"
  shows "move_front k xs = (k, v) # filter (\<lambda>e. fst e \<noteq> k) xs"
proof -
  have "filter (\<lambda>e. fst e = k) xs = [(k, v)]" using assms
  proof (induction xs)
    case (Cons x xs)
    show ?case
    proof (cases "fst x = k")
      case True
      then have n: "\<forall>e\<in>set xs. fst e \<noteq> k" using Cons.prems(1) by (metis distinct.simps(2) image_eqI list.set_map list.simps(9))
      then have "x = (k, v)" using Cons.prems(2) by auto
      with n have "x = (k, v)" "\<forall>e\<in>set xs. fst e \<noteq> k" by simp_all
      then show ?thesis by (simp add: filter_empty_conv)
    next
      case False
      then show ?thesis using Cons by auto
    qed
  qed simp
  then show ?thesis by (simp add: move_front_def)
qed

lemma move_front_keys: "keys (move_front k xs) = keys xs"
  by (auto simp: move_front_def)

lemma move_front_distinct: "distinct (map fst xs) \<Longrightarrow> distinct (map fst (move_front k xs))"
  by (auto simp: move_front_def distinct_map inj_on_def)

lemma move_front_map_of: "map_of (move_front k xs) = map_of xs"
proof
  fix x
  have "map_of (filter (\<lambda>e. fst e = k) xs) k = map_of xs k" "x \<noteq> k \<Longrightarrow> map_of (filter (\<lambda>e. fst e = k) xs) x = None"
    "map_of (filter (\<lambda>e. fst e \<noteq> k) xs) k = None" "x \<noteq> k \<Longrightarrow> map_of (filter (\<lambda>e. fst e \<noteq> k) xs) x = map_of xs x"
    by (induction xs) auto
  then show "map_of (move_front k xs) x = map_of xs x" by (cases "x = k") (auto simp: move_front_def map_add_def split: option.split)
qed

text \<open>Pruning keeps the most recently used entries.\<close>

lemma prune_loop_spec:
  assumes "distinct (lru_cache c)" "distinct (map fst (lru_keys c))" "set (lru_cache c) = keys (lru_keys c)"
  shows "\<exists>m. prune_loop n c = Some (n + (length (lru_keys c) - maxSize c), c\<lparr>lru_keys := take (maxSize c) (lru_keys c), lru_cache := m\<rparr>)
     \<and> distinct m \<and> set m = keys (take (maxSize c) (lru_keys c))"
  using assms
proof (induction "length (lru_keys c)" arbitrary: c n)
  case 0
  then show ?case by (simp add: prune_loop.simps [of n c])
next
  case (Suc d)
  have len: "length (lru_cache c) = length (lru_keys c)"
    using distinct_card [OF Suc.prems(1)] distinct_card [OF Suc.prems(2)] Suc.prems(3) by simp
  show ?case
  proof (cases "maxSize c < length (lru_keys c)")
    case True
    obtain xs x where xs: "lru_keys c = xs @ [x]" using Suc.hyps(2) by (cases "lru_keys c" rule: rev_cases) auto
    let ?c = "c\<lparr>lru_cache := remove1 (fst x) (lru_cache c), lru_keys := xs\<rparr>"
    have "set (remove1 (fst x) (lru_cache c)) = keys xs" using Suc.prems xs by (auto simp: set_remove1_eq)
    moreover have "distinct (map fst xs)" "distinct (remove1 (fst x) (lru_cache c))" using Suc.prems(1,2) xs by simp_all
    ultimately obtain m where m: "prune_loop (Suc n) ?c = Some (Suc n + (length xs - maxSize c),
        ?c\<lparr>lru_keys := take (maxSize c) xs, lru_cache := m\<rparr>)" "distinct m" "set m = keys (take (maxSize c) xs)"
      using Suc.hyps(1) [of ?c "Suc n"] Suc.hyps(2) xs by auto
    have "fst x \<in> set (lru_cache c)" using Suc.prems(3) xs by simp
    then have "prune_loop n c = prune_loop (Suc n) ?c" using True xs len by (simp add: prune_loop.simps [of n c])
    then show ?thesis using m True xs by (intro exI [of _ m]) (simp add: Suc_diff_le)
  next
    case False
    then show ?thesis using len Suc.prems by (intro exI [of _ "lru_cache c"]) (simp add: prune_loop.simps [of n c])
  qed
qed

lemma filter_replace: "filter (\<lambda>e. fst e \<noteq> k) (map (\<lambda>e. if fst e = k then (k, v) else e) xs) = filter (\<lambda>e. fst e \<noteq> k) xs"
  by (induction xs) auto

lemma lru_insert_spec:
  assumes ok: "lru_ok c"
  shows "\<exists>c'. lru_insert k v c = Some c' \<and> lru_ok c' \<and> maxSize c' = maxSize c \<and> elasticity c' = elasticity c
     \<and> lru_keys c' = (if k \<in> keys (lru_keys c) then (k, v) # filter (\<lambda>e. fst e \<noteq> k) (lru_keys c)
         else if maxSize c = 0 \<or> Suc (length (lru_keys c)) < maxSize c + elasticity c then (k, v) # lru_keys c
         else take (maxSize c) ((k, v) # lru_keys c))"
proof (cases "k \<in> keys (lru_keys c)")
  case True
  note D = lru_okD [OF ok]
  let ?xs = "map (\<lambda>e. if fst e = k then (k, v) else e) (lru_keys c)"
  have f: "map fst ?xs = map fst (lru_keys c)" by (auto simp: comp_def)
  then have "distinct (map fst ?xs)" using D(2) by metis
  moreover have "(k, v) \<in> set ?xs" using True by force
  ultimately have "move_front k ?xs = (k, v) # filter (\<lambda>e. fst e \<noteq> k) ?xs" by (rule move_front_unique)
  moreover have "filter (\<lambda>e. fst e \<noteq> k) ?xs = filter (\<lambda>e. fst e \<noteq> k) (lru_keys c)"
    by (rule filter_replace)
  ultimately have mf: "move_front k ?xs = (k, v) # filter (\<lambda>e. fst e \<noteq> k) (lru_keys c)" by simp
  let ?c = "c\<lparr>lru_keys := (k, v) # filter (\<lambda>e. fst e \<noteq> k) (lru_keys c)\<rparr>"
  have "lru_insert k v c = Some ?c" using True D(3) mf by (simp add: lru_insert_def)
  moreover have "lru_ok ?c"
  proof -
    have "length (filter (\<lambda>e. fst e \<noteq> k) (lru_keys c)) < length (lru_keys c)"
    proof -
      obtain e where "e \<in> set (lru_keys c)" "fst e = k" using True by auto
      then show ?thesis by (intro length_filter_less [of e]) simp_all
    qed
    moreover have "keys ((k, v) # filter (\<lambda>e. fst e \<noteq> k) (lru_keys c)) = keys (lru_keys c)" using True by force
    ultimately show ?thesis using ok by (auto simp: lru_ok_def distinct_map inj_on_def)
  qed
  ultimately show ?thesis using True by simp
next
  case False
  note D = lru_okD [OF ok]
  let ?c = "c\<lparr>lru_keys := (k, v) # lru_keys c, lru_cache := k # lru_cache c\<rparr>"
  show ?thesis
  proof (cases "maxSize c = 0 \<or> Suc (length (lru_keys c)) < maxSize c + elasticity c")
    case fits: True
    then have "lru_insert k v c = Some ?c" using False D(3,4) by (auto simp: lru_insert_def prune_def)
    moreover have "lru_ok ?c" using fits False D by (auto simp: lru_ok_def)
    ultimately show ?thesis using fits False by simp
  next
    case full: False
    have "distinct (lru_cache ?c)" "distinct (map fst (lru_keys ?c))" "set (lru_cache ?c) = keys (lru_keys ?c)" using False D by auto
    then obtain m where m: "prune_loop 0 ?c = Some (0 + (length (lru_keys ?c) - maxSize ?c),
        ?c\<lparr>lru_keys := take (maxSize ?c) (lru_keys ?c), lru_cache := m\<rparr>)" "distinct m" "set m = keys (take (maxSize ?c) (lru_keys ?c))"
      using prune_loop_spec by blast
    let ?c' = "?c\<lparr>lru_keys := take (maxSize ?c) (lru_keys ?c), lru_cache := m\<rparr>"
    have "lru_insert k v c = Some ?c'" using full False D(3,4) m(1) by (simp add: lru_insert_def prune_def)
    moreover have "distinct (map fst (lru_keys ?c'))" 
    proof -
      have "distinct (map fst ((k, v) # lru_keys c))" using False D(2) by simp
      from distinct_take [OF this, of "maxSize c"] show ?thesis unfolding take_map by simp
    qed
    then have "lru_ok ?c'" using m(2,3) by (simp add: lru_ok_def min_le_iff_disj)
    ultimately show ?thesis using full False by simp
  qed
qed

lemma tryGet_spec:
  assumes ok: "lru_ok c"
  shows "fst (tryGet k c) = map_of (lru_keys c) k" "lru_ok (snd (tryGet k c))" "map_of (lru_keys (snd (tryGet k c))) = map_of (lru_keys c)"
    "k \<in> keys (lru_keys c) \<Longrightarrow> fst (hd (lru_keys (snd (tryGet k c)))) = k"
proof -
  note D = lru_okD [OF ok]
  show "fst (tryGet k c) = map_of (lru_keys c) k" "map_of (lru_keys (snd (tryGet k c))) = map_of (lru_keys c)"
    using D(3) by (auto simp: tryGet_def Let_def move_front_map_of map_of_eq_None_iff intro: sym)
  have "length (move_front k (lru_keys c)) = length (lru_keys c)"
    using sum_length_filter_compl [of "\<lambda>e. fst e = k" "lru_keys c"] by (simp add: move_front_def)
  then show "lru_ok (snd (tryGet k c))"
    using ok move_front_distinct [OF D(2), of k] move_front_keys [of k "lru_keys c"] by (simp add: tryGet_def Let_def lru_ok_def)
  assume "k \<in> keys (lru_keys c)"
  then obtain v where "(k, v) \<in> set (lru_keys c)" by force
  then show "fst (hd (lru_keys (snd (tryGet k c)))) = k"
    using move_front_unique [OF D(2)] D(3) \<open>k \<in> keys (lru_keys c)\<close> by (simp add: tryGet_def Let_def)
qed

lemma lru_remove_spec:
  assumes ok: "lru_ok c"
  shows "fst (lru_remove k c) = (k \<in> keys (lru_keys c))" "lru_ok (snd (lru_remove k c))"
    "map_of (lru_keys (snd (lru_remove k c))) = (map_of (lru_keys c))(k := None)"
proof -
  note D = lru_okD [OF ok]
  show "fst (lru_remove k c) = (k \<in> keys (lru_keys c))" using D(3) by (simp add: lru_remove_def)
  have "length (filter (\<lambda>e. fst e \<noteq> k) (lru_keys c)) \<le> length (lru_keys c)" by (rule length_filter_le)
  then have "maxSize c \<noteq> 0 \<longrightarrow> length (filter (\<lambda>e. fst e \<noteq> k) (lru_keys c)) \<le> maxSize c + elasticity c"
    using ok by (auto simp: lru_ok_def simp del: length_filter_le)
  then show "lru_ok (snd (lru_remove k c))"
    using ok D by (auto simp: lru_remove_def lru_ok_def set_remove1_eq distinct_map inj_on_def)
  have "map_of (filter (\<lambda>e. fst e \<noteq> k) (lru_keys c)) = (map_of (lru_keys c))(k := None)"
    using map_of_kv_del [of k "lru_keys c"] by (simp add: kv_del_def)
  then show "map_of (lru_keys (snd (lru_remove k c))) = (map_of (lru_keys c))(k := None)"
    using D(3) by (auto simp: lru_remove_def fun_eq_iff map_of_eq_None_iff)
qed

end
