(* ===== verification/Contexts.thy ===== *)
theory Contexts
  imports Prelude "HOL-Library.Word"
begin

text \<open>
  Call back contexts and the barriers they wait for: \<^verbatim>\<open>src/src/context/call_back.h\<close>,
  \<^verbatim>\<open>context_barrier.h\<close> and \<^verbatim>\<open>barrier_manager.h\<close>.  A context is an object on the heap that queues and
  barriers point to; the heap maps a pointer to the \<^verbatim>\<open>call_back_context\<close> part of the object.  A
  failed assertion is \<open>None\<close>.
\<close>

section \<open>Contexts\<close>

type_synonym ctx_ptr = nat

datatype barrier_type = READ_BARRIER | WRITE_BARRIER

record barrier_token =
  barrier_id :: int
  token_type :: barrier_type

definition CONTEXT_TERMINATED :: int where "CONTEXT_TERMINATED = 0"
definition CONTEXT_TRANSIT :: int where "CONTEXT_TRANSIT = 1"
definition CONTEXT_WRITE_BARRIER :: int where "CONTEXT_WRITE_BARRIER = 0"
definition CONTEXT_READ_BARRIER :: int where "CONTEXT_READ_BARRIER = 1"
definition CONTEXT_WRITE_IO :: int where "CONTEXT_WRITE_IO = 0"
definition CONTEXT_READ_IO :: int where "CONTEXT_READ_IO = 1"

record call_back_context =
  status :: int
  current_state :: int
  next_state :: int
  ctx_id :: "64 word"
  tag :: int
  obtained_barriers :: "barrier_token list"

type_synonym ctx_heap = "ctx_ptr \<Rightarrow> call_back_context"

definition call_back_new :: call_back_context where
  "call_back_new = \<lparr>status = 0, current_state = 0, next_state = -1, ctx_id = -1, tag = 2 ^ 31 - 1, obtained_barriers = []\<rparr>"

definition set_id :: "64 word \<Rightarrow> call_back_context \<Rightarrow> call_back_context" where
  "set_id i x = x\<lparr>ctx_id := i\<rparr>"

definition set_tag :: "int \<Rightarrow> call_back_context \<Rightarrow> call_back_context" where
  "set_tag t x = x\<lparr>tag := t\<rparr>"

definition reset_state :: "call_back_context \<Rightarrow> call_back_context" where
  "reset_state x = x\<lparr>status := 0, current_state := 0, next_state := -1\<rparr>"

definition transition_to_state :: "int \<Rightarrow> call_back_context \<Rightarrow> call_back_context" where
  "transition_to_state s x = x\<lparr>status := s\<rparr>"

definition set_next_state :: "int \<Rightarrow> call_back_context \<Rightarrow> call_back_context" where
  "set_next_state s x = x\<lparr>next_state := s\<rparr>"

definition transition_to_next_state :: "call_back_context \<Rightarrow> call_back_context option" where
  "transition_to_next_state x = (if 0 \<le> next_state x then Some (x\<lparr>current_state := next_state x\<rparr>) else None)"

definition add_barrier_token :: "barrier_token \<Rightarrow> call_back_context \<Rightarrow> call_back_context" where
  "add_barrier_token t x = x\<lparr>obtained_barriers := obtained_barriers x @ [t]\<rparr>"

subsection \<open>The global queues\<close>

text \<open>
  The static queues of \<^verbatim>\<open>call_back.h\<close>.  Every access is inside the spin lock, so each function is
  one step; \<open>process_logic_step\<close> is one round of the loop of the thread \<^verbatim>\<open>process_logic\<close>.
\<close>

record cb_queues =
  submission_queue :: "ctx_ptr list"
  ready_queue :: "ctx_ptr list"
  pending_context :: int
  cb_heap :: ctx_heap

definition add_to_queue :: "ctx_ptr \<Rightarrow> cb_queues \<Rightarrow> cb_queues" where
  "add_to_queue c q = q\<lparr>submission_queue := submission_queue q @ [c]\<rparr>"

definition submit_context :: "ctx_ptr \<Rightarrow> cb_queues \<Rightarrow> cb_queues" where
  "submit_context c q = q\<lparr>submission_queue := submission_queue q @ [c], pending_context := pending_context q + 1\<rparr>"

definition process_logic_step :: "cb_queues \<Rightarrow> cb_queues" where
  "process_logic_step q =
     (case submission_queue q of
        [] \<Rightarrow> q
      | c # cs \<Rightarrow> q\<lparr>submission_queue := cs, ready_queue := ready_queue q @ [c]\<rparr>)"

definition call_back_run :: "ctx_ptr \<Rightarrow> cb_queues \<Rightarrow> int \<times> cb_queues" where
  "call_back_run c q =
     (if status (cb_heap q c) = 0 then
        (CONTEXT_TRANSIT, (add_to_queue c q)\<lparr>cb_heap := (cb_heap q)(c := set_next_state 1 (cb_heap q c))\<rparr>)
      else (CONTEXT_TERMINATED, q))"

fun cb_process_completion :: "nat \<Rightarrow> nat \<Rightarrow> cb_queues \<Rightarrow> nat \<times> cb_queues" where
  "cb_process_completion 0 processed q = (processed, q)"
| "cb_process_completion (Suc n) processed q =
     (case ready_queue q of
        [] \<Rightarrow> cb_process_completion n processed q
      | c # cs \<Rightarrow>
          (case call_back_run c (q\<lparr>ready_queue := cs\<rparr>) of (st, q1) \<Rightarrow>
             cb_process_completion n (Suc processed)
               (if st = CONTEXT_TERMINATED then q1\<lparr>pending_context := pending_context q1 - 1\<rparr> else q1)))"

definition pending_context_size :: "cb_queues \<Rightarrow> int" where
  "pending_context_size q = pending_context q"

text \<open>The counter says how many contexts are in the two queues.\<close>

definition cb_queues_ok :: "cb_queues \<Rightarrow> bool" where
  "cb_queues_ok q \<longleftrightarrow> pending_context q = int (length (submission_queue q) + length (ready_queue q))"

lemma cb_process_completion_ok:
  assumes "cb_queues_ok q" "cb_process_completion n k q = (m, q')"
  shows "cb_queues_ok q' \<and> k \<le> m \<and> m \<le> k + n \<and> (m = k \<longleftrightarrow> n = 0 \<or> ready_queue q = [])"
  using assms
proof (induction n arbitrary: k q)
  case (Suc n)
  show ?case
  proof (cases "ready_queue q")
    case Nil
    then show ?thesis using Suc.IH [of q k] Suc.prems by auto
  next
    case (Cons c cs)
    obtain st q1 where r: "call_back_run c (q\<lparr>ready_queue := cs\<rparr>) = (st, q1)" by fastforce
    let ?q = "if st = CONTEXT_TERMINATED then q1\<lparr>pending_context := pending_context q1 - 1\<rparr> else q1"
    have "cb_queues_ok ?q"
      using r Suc.prems(1) Cons
      by (auto simp: call_back_run_def cb_queues_ok_def add_to_queue_def CONTEXT_TERMINATED_def CONTEXT_TRANSIT_def split: if_splits)
    from Suc.IH [OF this, of "Suc k"] show ?thesis using Suc.prems(2) r Cons by auto
  qed
qed auto

section \<open>Barriers\<close>

record context_barrier =
  cb_id :: int
  read_barriers :: int
  write_barriers :: int
  pending_barrier_requests :: "(ctx_ptr \<times> barrier_type) list"

definition context_barrier_new :: "int \<Rightarrow> context_barrier" where
  "context_barrier_new i = \<lparr>cb_id = i, read_barriers = 0, write_barriers = 0, pending_barrier_requests = []\<rparr>"

definition grant_read_barrier_request :: "context_barrier \<Rightarrow> bool \<times> context_barrier" where
  "grant_read_barrier_request b =
     (if write_barriers b = 0 then (True, b\<lparr>read_barriers := read_barriers b + 1\<rparr>) else (False, b))"

definition grant_write_barrier_request :: "context_barrier \<Rightarrow> bool \<times> context_barrier" where
  "grant_write_barrier_request b =
     (if write_barriers b = 0 \<and> read_barriers b = 0 then (True, b\<lparr>write_barriers := write_barriers b + 1\<rparr>) else (False, b))"

definition set_read_barrier :: "ctx_ptr \<Rightarrow> context_barrier \<Rightarrow> ctx_heap \<Rightarrow> bool \<times> context_barrier \<times> ctx_heap" where
  "set_read_barrier c b h =
     (case grant_read_barrier_request b of
        (True, b') \<Rightarrow> (True, b', h(c := add_barrier_token \<lparr>barrier_id = cb_id b, token_type = READ_BARRIER\<rparr> (h c)))
      | (False, b') \<Rightarrow> (False, b'\<lparr>pending_barrier_requests := pending_barrier_requests b' @ [(c, READ_BARRIER)]\<rparr>, h))"

definition set_write_barrier :: "ctx_ptr \<Rightarrow> context_barrier \<Rightarrow> ctx_heap \<Rightarrow> bool \<times> context_barrier \<times> ctx_heap" where
  "set_write_barrier c b h =
     (case grant_write_barrier_request b of
        (True, b') \<Rightarrow> (True, b', h(c := add_barrier_token \<lparr>barrier_id = cb_id b, token_type = WRITE_BARRIER\<rparr> (h c)))
      | (False, b') \<Rightarrow> (False, b'\<lparr>pending_barrier_requests := pending_barrier_requests b' @ [(c, WRITE_BARRIER)]\<rparr>, h))"

text \<open>\<open>rd\<close> is the manager's vector of ready contexts, which every barrier refers to.\<close>

definition fire_context :: "ctx_ptr \<Rightarrow> barrier_type \<Rightarrow> int \<Rightarrow> ctx_ptr list \<Rightarrow> ctx_heap \<Rightarrow> (ctx_ptr list \<times> ctx_heap) option" where
  "fire_context c t i rd h =
     (let x = set_tag (if t = WRITE_BARRIER then CONTEXT_WRITE_BARRIER else CONTEXT_READ_BARRIER) (h c) in
      map_option (\<lambda>y. (rd @ [c], h(c := y))) (transition_to_next_state (add_barrier_token \<lparr>barrier_id = i, token_type = t\<rparr> x)))"

function offer_barrier :: "context_barrier \<Rightarrow> ctx_ptr list \<Rightarrow> ctx_heap \<Rightarrow> (context_barrier \<times> ctx_ptr list \<times> ctx_heap) option" where
  "offer_barrier b rd h =
     (case pending_barrier_requests b of
        [] \<Rightarrow> Some (b, rd, h)
      | (c, t) # rs \<Rightarrow>
          if t = READ_BARRIER then
            if write_barriers b = 0 then
              fire_context c READ_BARRIER (cb_id b) rd h \<bind>
                (\<lambda>(rd', h'). offer_barrier (b\<lparr>read_barriers := read_barriers b + 1, pending_barrier_requests := rs\<rparr>) rd' h')
            else Some (b, rd, h)
          else
            if read_barriers b = 0 \<and> write_barriers b = 0 then
              fire_context c WRITE_BARRIER (cb_id b) rd h \<bind>
                (\<lambda>(rd', h'). offer_barrier (b\<lparr>write_barriers := write_barriers b + 1, pending_barrier_requests := rs\<rparr>) rd' h')
            else Some (b, rd, h))"
  by pat_completeness auto
termination
  by (relation "measure (\<lambda>(b, rd, h). length (pending_barrier_requests b))") auto

declare offer_barrier.simps [simp del]

definition remove_read_barrier :: "context_barrier \<Rightarrow> ctx_ptr list \<Rightarrow> ctx_heap \<Rightarrow> (context_barrier \<times> ctx_ptr list \<times> ctx_heap) option" where
  "remove_read_barrier b = offer_barrier (b\<lparr>read_barriers := read_barriers b - 1\<rparr>)"

definition remove_write_barrier :: "context_barrier \<Rightarrow> ctx_ptr list \<Rightarrow> ctx_heap \<Rightarrow> (context_barrier \<times> ctx_ptr list \<times> ctx_heap) option" where
  "remove_write_barrier b = offer_barrier (b\<lparr>write_barriers := write_barriers b - 1\<rparr>)"

definition is_clear :: "context_barrier \<Rightarrow> bool" where
  "is_clear b \<longleftrightarrow> write_barriers b = 0 \<and> read_barriers b = 0"

section \<open>The barrier manager\<close>

record barrier_manager =
  bm_barriers :: "(int \<times> context_barrier) list"
  barrier_map :: "context_barrier option list"
  bm_ready :: "ctx_ptr list"

definition barrier_manager_new :: barrier_manager where
  "barrier_manager_new = \<lparr>bm_barriers = [], barrier_map = [], bm_ready = []\<rparr>"

text \<open>
  The comparison of the size with a negative identifier is made on unsigned numbers: the vector
  grows until there is no memory left.
\<close>

definition get_or_create_barrier :: "int \<Rightarrow> barrier_manager \<Rightarrow> (context_barrier \<times> barrier_manager) option" where
  "get_or_create_barrier i m =
     (if i < 0 then None
      else let bs = barrier_map m @ replicate (nat i + 1 - length (barrier_map m)) None in
        case bs ! nat i of
          Some b \<Rightarrow> Some (b, m\<lparr>barrier_map := bs\<rparr>)
        | None \<Rightarrow> Some (context_barrier_new i, m\<lparr>barrier_map := bs[nat i := Some (context_barrier_new i)]\<rparr>))"

definition bm_request :: "(ctx_ptr \<Rightarrow> context_barrier \<Rightarrow> ctx_heap \<Rightarrow> bool \<times> context_barrier \<times> ctx_heap)
    \<Rightarrow> int \<Rightarrow> ctx_ptr \<Rightarrow> barrier_manager \<Rightarrow> ctx_heap \<Rightarrow> (bool \<times> barrier_manager \<times> ctx_heap) option" where
  "bm_request req i c m h =
     do { (b, m1) \<leftarrow> get_or_create_barrier i m;
          let (r, b', h') = req c b h;
          Some (r, m1\<lparr>barrier_map := (barrier_map m1)[nat i := Some b']\<rparr>, h') }"

definition request_write_barrier :: "int \<Rightarrow> ctx_ptr \<Rightarrow> barrier_manager \<Rightarrow> ctx_heap \<Rightarrow> (bool \<times> barrier_manager \<times> ctx_heap) option" where
  "request_write_barrier = bm_request set_write_barrier"

definition request_read_barrier :: "int \<Rightarrow> ctx_ptr \<Rightarrow> barrier_manager \<Rightarrow> ctx_heap \<Rightarrow> (bool \<times> barrier_manager \<times> ctx_heap) option" where
  "request_read_barrier = bm_request set_read_barrier"

definition bm_remove :: "(context_barrier \<Rightarrow> ctx_ptr list \<Rightarrow> ctx_heap \<Rightarrow> (context_barrier \<times> ctx_ptr list \<times> ctx_heap) option)
    \<Rightarrow> int \<Rightarrow> barrier_manager \<Rightarrow> ctx_heap \<Rightarrow> (barrier_manager \<times> ctx_heap) option" where
  "bm_remove rem i m h =
     do { (b, m1) \<leftarrow> get_or_create_barrier i m;
          (b', rd, h') \<leftarrow> rem b (bm_ready m1) h;
          Some (m1\<lparr>barrier_map := (barrier_map m1)[nat i := Some b'], bm_ready := rd\<rparr>, h') }"

definition bm_remove_read_barrier :: "int \<Rightarrow> barrier_manager \<Rightarrow> ctx_heap \<Rightarrow> (barrier_manager \<times> ctx_heap) option" where
  "bm_remove_read_barrier = bm_remove remove_read_barrier"

definition bm_remove_write_barrier :: "int \<Rightarrow> barrier_manager \<Rightarrow> ctx_heap \<Rightarrow> (barrier_manager \<times> ctx_heap) option" where
  "bm_remove_write_barrier = bm_remove remove_write_barrier"

text \<open>
  The identifiers that \<^verbatim>\<open>print_uncleared_barriers\<close> reports: it walks over the map \<^verbatim>\<open>barriers_\<close>, which no
  operation puts a barrier into.
\<close>

definition print_uncleared_barriers :: "barrier_manager \<Rightarrow> int list" where
  "print_uncleared_barriers m = map fst (filter (\<lambda>e. \<not> is_clear (snd e)) (bm_barriers m))"

end
