(* ===== verification/Barrier_Safety.thy ===== *)
theory Barrier_Safety
  imports Contexts
begin

text \<open>
  What the barrier manager guarantees.  The counters of a barrier count the tokens that the
  contexts hold; a write token excludes every other token of its node; and no request is left
  waiting for a barrier that could be granted to it.
\<close>

section \<open>Tokens\<close>

abbreviation rtok :: "int \<Rightarrow> barrier_token" where
  "rtok i \<equiv> \<lparr>barrier_id = i, token_type = READ_BARRIER\<rparr>"

abbreviation wtok :: "int \<Rightarrow> barrier_token" where
  "wtok i \<equiv> \<lparr>barrier_id = i, token_type = WRITE_BARRIER\<rparr>"

definition held :: "ctx_ptr set \<Rightarrow> ctx_heap \<Rightarrow> barrier_token \<Rightarrow> nat" where
  "held C h t = (\<Sum>c\<in>C. count_list (obtained_barriers (h c)) t)"

lemma held_upd:
  assumes "finite C" "c \<in> C"
  shows "held C (h(c := x)) t + count_list (obtained_barriers (h c)) t = held C h t + count_list (obtained_barriers x) t"
proof -
  have "held C (h(c := x)) t = count_list (obtained_barriers x) t + (\<Sum>d\<in>C - {c}. count_list (obtained_barriers (h d)) t)"
    unfolding held_def using assms by (subst sum.remove [of _ c]) (auto intro!: sum.cong)
  moreover have "held C h t = count_list (obtained_barriers (h c)) t + (\<Sum>d\<in>C - {c}. count_list (obtained_barriers (h d)) t)"
    unfolding held_def using assms by (subst sum.remove [of _ c]) auto
  ultimately show ?thesis by simp
qed

lemma held_add:
  assumes "finite C" "c \<in> C" "obtained_barriers x = obtained_barriers (h c) @ [u]"
  shows "held C (h(c := x)) t = held C h t + (if t = u then 1 else 0)"
  using held_upd [OF assms(1,2), of h x t] assms(3) by auto

lemma held_ge: "finite C \<Longrightarrow> c \<in> C \<Longrightarrow> t \<in> set (obtained_barriers (h c)) \<Longrightarrow> 0 < held C h t"
  unfolding held_def by (metis count_list_0_iff gr0I sum_eq_0_iff)

lemma held_two:
  assumes "finite C" "c \<in> C" "d \<in> C" "c \<noteq> d" "t \<in> set (obtained_barriers (h c))" "t \<in> set (obtained_barriers (h d))"
  shows "2 \<le> held C h t"
proof -
  have "1 \<le> count_list (obtained_barriers (h e)) t" if "e \<in> {c, d}" for e
    using that assms(5,6) count_list_0_iff [of "obtained_barriers (h e)" t] by (cases "count_list (obtained_barriers (h e)) t") auto
  then have "(\<Sum>e\<in>{c, d}. 1) \<le> (\<Sum>e\<in>{c, d}. count_list (obtained_barriers (h e)) t)" by (intro sum_mono) blast
  also have "\<dots> \<le> held C h t" unfolding held_def by (rule sum_mono2) (use assms in auto)
  finally show ?thesis using assms(4) by simp
qed

section \<open>One barrier\<close>

definition barrier_counts :: "ctx_ptr set \<Rightarrow> ctx_heap \<Rightarrow> int \<Rightarrow> context_barrier \<Rightarrow> bool" where
  "barrier_counts C h i b \<longleftrightarrow> cb_id b = i \<and> read_barriers b = int (held C h (rtok i)) \<and> write_barriers b = int (held C h (wtok i))
     \<and> (write_barriers b = 0 \<or> write_barriers b = 1 \<and> read_barriers b = 0)
     \<and> (\<forall>(c, t)\<in>set (pending_barrier_requests b). c \<in> C \<and> 0 \<le> next_state (h c))"

text \<open>Nobody waits without a reason: the first request cannot be granted.\<close>

definition barrier_blocked :: "context_barrier \<Rightarrow> bool" where
  "barrier_blocked b \<longleftrightarrow> (case pending_barrier_requests b of [] \<Rightarrow> True
     | (c, t) # rs \<Rightarrow> 0 < write_barriers b \<or> t = WRITE_BARRIER \<and> 0 < read_barriers b)"

definition barrier_ok :: "ctx_ptr set \<Rightarrow> ctx_heap \<Rightarrow> int \<Rightarrow> context_barrier \<Rightarrow> bool" where
  "barrier_ok C h i b \<longleftrightarrow> barrier_counts C h i b \<and> barrier_blocked b"

text \<open>What an operation on the barrier \<open>i\<close> may change of the contexts.\<close>

definition same_elsewhere :: "ctx_ptr set \<Rightarrow> int \<Rightarrow> ctx_heap \<Rightarrow> ctx_heap \<Rightarrow> bool" where
  "same_elsewhere C i h h' \<longleftrightarrow> (\<forall>c. next_state (h' c) = next_state (h c)) \<and> (\<forall>t. barrier_id t \<noteq> i \<longrightarrow> held C h' t = held C h t)"

lemma same_elsewhere_trans: "same_elsewhere C i h h1 \<Longrightarrow> same_elsewhere C i h1 h2 \<Longrightarrow> same_elsewhere C i h h2"
  by (simp add: same_elsewhere_def)

lemma barrier_ok_elsewhere: "same_elsewhere C i h h' \<Longrightarrow> j \<noteq> i \<Longrightarrow> barrier_ok C h j b \<Longrightarrow> barrier_ok C h' j b"
  by (auto simp: same_elsewhere_def barrier_ok_def barrier_counts_def)

lemma fire_context_ok:
  assumes "finite C" "c \<in> C" "0 \<le> next_state (h c)"
  shows "\<exists>h'. fire_context c t i rd h = Some (rd @ [c], h') \<and> same_elsewhere C i h h'
     \<and> (\<forall>u. held C h' u = held C h u + (if u = \<lparr>barrier_id = i, token_type = t\<rparr> then 1 else 0))
     \<and> obtained_barriers (h' c) = obtained_barriers (h c) @ [\<lparr>barrier_id = i, token_type = t\<rparr>]
     \<and> current_state (h' c) = next_state (h c) \<and> (\<forall>d. d \<noteq> c \<longrightarrow> h' d = h d)"
proof -
  let ?x = "(add_barrier_token \<lparr>barrier_id = i, token_type = t\<rparr>
     (set_tag (if t = WRITE_BARRIER then CONTEXT_WRITE_BARRIER else CONTEXT_READ_BARRIER) (h c)))\<lparr>current_state := next_state (h c)\<rparr>"
  let ?h = "h(c := ?x)"
  have "fire_context c t i rd h = Some (rd @ [c], ?h)"
    using assms(3) by (simp add: fire_context_def transition_to_next_state_def set_tag_def add_barrier_token_def Let_def)
  moreover have k: "held C ?h u = held C h u + (if u = \<lparr>barrier_id = i, token_type = t\<rparr> then 1 else 0)" for u
    by (rule held_add [OF assms(1,2)]) (simp add: set_tag_def add_barrier_token_def)
  moreover have "same_elsewhere C i h ?h" using k by (auto simp: same_elsewhere_def set_tag_def add_barrier_token_def)
  ultimately show ?thesis by (intro exI [of _ ?h]) (simp add: set_tag_def add_barrier_token_def)
qed

lemma offer_barrier_ok:
  assumes "finite C" "barrier_counts C h i b"
  shows "\<exists>b' rs h'. offer_barrier b rd h = Some (b', rd @ map fst rs, h') \<and> barrier_ok C h' i b' \<and> same_elsewhere C i h h'
     \<and> pending_barrier_requests b = rs @ pending_barrier_requests b'"
  using assms(2)
proof (induction b rd h rule: offer_barrier.induct)
  case (1 b rd h)
  show ?case
  proof (cases "barrier_blocked b")
    case True
    then have "offer_barrier b rd h = Some (b, rd, h)" 
      by (subst offer_barrier.simps) (auto simp: barrier_blocked_def split: list.split barrier_type.split)
    then show ?thesis using True "1.prems"
      by (intro exI [of _ b] exI [of _ "[]"] exI [of _ h]) (simp add: barrier_ok_def same_elsewhere_def)
  next
    case False
    then obtain c t rs where p: "pending_barrier_requests b = (c, t) # rs" and w: "\<not> 0 < write_barriers b" "t = WRITE_BARRIER \<Longrightarrow> \<not> 0 < read_barriers b"
      by (auto simp: barrier_blocked_def split: list.splits)
    note B = "1.prems" [unfolded barrier_counts_def]
    have c: "c \<in> C" "0 \<le> next_state (h c)" using B p by auto
    have w0: "write_barriers b = 0" using B w(1) by auto
    let ?b = "if t = READ_BARRIER then b\<lparr>read_barriers := read_barriers b + 1, pending_barrier_requests := rs\<rparr>
        else b\<lparr>write_barriers := write_barriers b + 1, pending_barrier_requests := rs\<rparr>"
    obtain h1 where h1: "fire_context c t i rd h = Some (rd @ [c], h1)" "same_elsewhere C i h h1"
      "\<forall>u. held C h1 u = held C h u + (if u = \<lparr>barrier_id = i, token_type = t\<rparr> then 1 else 0)"
      using fire_context_ok [where h = h and t = t and i = i and rd = rd, OF assms(1) c] by blast
    have r0: "t = WRITE_BARRIER \<Longrightarrow> read_barriers b = 0" using w(2) B by auto
    have s: "offer_barrier b rd h = offer_barrier ?b (rd @ [c]) h1"
      using p w0 r0 h1(1) B by (subst offer_barrier.simps, cases t) simp_all
    have counts: "barrier_counts C h1 i ?b"
      using B p w0 r0 h1(2,3) by (cases t) (auto simp: barrier_counts_def same_elsewhere_def)
    have IH: "\<exists>b' rs' h'. offer_barrier ?b (rd @ [c]) h1 = Some (b', (rd @ [c]) @ map fst rs', h') \<and> barrier_ok C h' i b' \<and> same_elsewhere C i h1 h'
       \<and> pending_barrier_requests ?b = rs' @ pending_barrier_requests b'"
    proof (cases t)
      case READ_BARRIER
      have b: "?b = b\<lparr>read_barriers := read_barriers b + 1, pending_barrier_requests := rs\<rparr>" using READ_BARRIER by simp
      show ?thesis using "1.IH"(1) [OF p refl READ_BARRIER w0 _ refl, of "rd @ [c]" h1] h1(1) counts READ_BARRIER B unfolding b by simp
    next
      case WRITE_BARRIER
      have b: "?b = b\<lparr>write_barriers := write_barriers b + 1, pending_barrier_requests := rs\<rparr>" using WRITE_BARRIER by simp
      have n: "t \<noteq> READ_BARRIER" using WRITE_BARRIER by simp
      show ?thesis using "1.IH"(2) [OF p refl n _ _ refl, of "rd @ [c]" h1] r0 [OF WRITE_BARRIER] w0 h1(1) counts WRITE_BARRIER B unfolding b by simp
    qed
    have q: "pending_barrier_requests ?b = rs" by simp
    from IH obtain b' rs' h' where r: "offer_barrier ?b (rd @ [c]) h1 = Some (b', (rd @ [c]) @ map fst rs', h')" "barrier_ok C h' i b'"
      "same_elsewhere C i h1 h'" "rs = rs' @ pending_barrier_requests b'" unfolding q by blast
    have "offer_barrier b rd h = Some (b', rd @ map fst ((c, t) # rs'), h')" using s r(1) by simp
    then show ?thesis using r(2,4) p same_elsewhere_trans [OF h1(2) r(3)] by (intro exI [of _ b'] exI [of _ "(c, t) # rs'"] exI [of _ h']) simp
  qed
qed

section \<open>The manager\<close>

definition the_barrier :: "barrier_manager \<Rightarrow> int \<Rightarrow> context_barrier" where
  "the_barrier m i =
     (if nat i < length (barrier_map m) then case barrier_map m ! nat i of Some b \<Rightarrow> b | None \<Rightarrow> context_barrier_new i
      else context_barrier_new i)"

definition manager_ok :: "ctx_ptr set \<Rightarrow> barrier_manager \<Rightarrow> ctx_heap \<Rightarrow> bool" where
  "manager_ok C m h \<longleftrightarrow> finite C \<and> (\<forall>i\<ge>0. barrier_ok C h i (the_barrier m i))"

lemma manager_okD: "manager_ok C m h \<Longrightarrow> 0 \<le> i \<Longrightarrow> barrier_ok C h i (the_barrier m i)" "manager_ok C m h \<Longrightarrow> finite C"
  by (auto simp: manager_ok_def)

lemma manager_ok_new: "finite C \<Longrightarrow> \<forall>c\<in>C. obtained_barriers (h c) = [] \<Longrightarrow> manager_ok C barrier_manager_new h"
  by (auto simp: manager_ok_def barrier_ok_def barrier_counts_def barrier_blocked_def the_barrier_def barrier_manager_new_def
      context_barrier_new_def held_def)

lemma get_or_create_barrier_ok:
  assumes "0 \<le> i"
  shows "\<exists>m'. get_or_create_barrier i m = Some (the_barrier m i, m') \<and> bm_ready m' = bm_ready m \<and> bm_barriers m' = bm_barriers m
     \<and> (\<forall>b j rd. 0 \<le> j \<longrightarrow> the_barrier (m'\<lparr>barrier_map := (barrier_map m')[nat i := Some b]\<rparr>) j = (if j = i then b else the_barrier m j)
        \<and> the_barrier (m'\<lparr>barrier_map := (barrier_map m')[nat i := Some b], bm_ready := rd\<rparr>) j = (if j = i then b else the_barrier m j))"
proof -
  let ?bs = "barrier_map m @ replicate (nat i + 1 - length (barrier_map m)) None"
  have l: "nat i < length ?bs" by simp
  have n: "?bs ! k = (if k < length (barrier_map m) then barrier_map m ! k else None)" if "k < length ?bs" for k
    using that by (simp add: nth_append)
  have t: "the_barrier m i = (case ?bs ! nat i of Some b \<Rightarrow> b | None \<Rightarrow> context_barrier_new i)"
    unfolding n [OF l] by (simp add: the_barrier_def)
  have u: "the_barrier (m\<lparr>barrier_map := ?bs[nat i := Some b]\<rparr>) j = (if j = i then b else the_barrier m j)" if "0 \<le> j" for b j
  proof (cases "j = i")
    case True
    then show ?thesis using l by (simp add: the_barrier_def)
  next
    case False
    then have "nat j \<noteq> nat i" using that assms by simp
    moreover have "length (barrier_map m) \<le> length ?bs" by simp
    ultimately show ?thesis using n [of "nat j"] False by (auto simp: the_barrier_def simp del: length_append)
  qed
  have v: "the_barrier (m'\<lparr>bm_ready := rd\<rparr>) = the_barrier m'" for m' rd by (simp add: the_barrier_def fun_eq_iff)
  show ?thesis
  proof (cases "?bs ! nat i")
    case None
    then have "get_or_create_barrier i m = Some (the_barrier m i, m\<lparr>barrier_map := ?bs[nat i := Some (context_barrier_new i)]\<rparr>)"
      using assms t by (simp add: get_or_create_barrier_def Let_def)
    then show ?thesis using u by (intro exI [of _ "m\<lparr>barrier_map := ?bs[nat i := Some (context_barrier_new i)]\<rparr>"]) (simp add: v)
  next
    case (Some b)
    then have "get_or_create_barrier i m = Some (the_barrier m i, m\<lparr>barrier_map := ?bs\<rparr>)"
      using assms t by (simp add: get_or_create_barrier_def Let_def)
    then show ?thesis using u by (intro exI [of _ "m\<lparr>barrier_map := ?bs\<rparr>"]) (simp add: v)
  qed
qed

text \<open>A request is granted or queued; the tokens and the queue of the barrier say which.\<close>

lemma bm_request_ok:
  assumes ok: "manager_ok C m h" and i: "0 \<le> i" and R: "R = (if t = READ_BARRIER then set_read_barrier else set_write_barrier)"
    and c: "c \<in> C" "0 \<le> next_state (h c)"
  shows "\<exists>r m' h'. bm_request R i c m h = Some (r, m', h') \<and> manager_ok C m' h' \<and> bm_ready m' = bm_ready m \<and> bm_barriers m' = bm_barriers m
     \<and> r = (write_barriers (the_barrier m i) = 0 \<and> (t = WRITE_BARRIER \<longrightarrow> read_barriers (the_barrier m i) = 0))
     \<and> h' = (if r then h(c := add_barrier_token \<lparr>barrier_id = i, token_type = t\<rparr> (h c)) else h)
     \<and> pending_barrier_requests (the_barrier m' i) = pending_barrier_requests (the_barrier m i) @ (if r then [] else [(c, t)])"
proof -
  note B = manager_okD(1) [OF ok i, unfolded barrier_ok_def barrier_counts_def] and fin = manager_okD(2) [OF ok]
  let ?b = "the_barrier m i"
  obtain m1 where m1: "get_or_create_barrier i m = Some (?b, m1)" "bm_ready m1 = bm_ready m" "bm_barriers m1 = bm_barriers m"
    "\<And>b j. 0 \<le> j \<Longrightarrow> the_barrier (m1\<lparr>barrier_map := (barrier_map m1)[nat i := Some b]\<rparr>) j = (if j = i then b else the_barrier m j)"
    using get_or_create_barrier_ok [OF i, of m] by blast
  define r where "r \<longleftrightarrow> write_barriers ?b = 0 \<and> (t = WRITE_BARRIER \<longrightarrow> read_barriers ?b = 0)"
  define h' where "h' = (if r then h(c := add_barrier_token \<lparr>barrier_id = i, token_type = t\<rparr> (h c)) else h)"
  have k: "held C h' u = held C h u + (if r \<and> u = \<lparr>barrier_id = i, token_type = t\<rparr> then 1 else 0)" for u
    using held_add [OF fin c(1), of "add_barrier_token \<lparr>barrier_id = i, token_type = t\<rparr> (h c)" h] by (simp add: h'_def add_barrier_token_def)
  have ns: "next_state (h' d) = next_state (h d)" for d by (simp add: h'_def add_barrier_token_def)
  have se: "same_elsewhere C i h h'" using k ns by (auto simp: same_elsewhere_def)
  define b' where "b' = \<lparr>cb_id = i, read_barriers = read_barriers ?b + (if r \<and> t = READ_BARRIER then 1 else 0),
     write_barriers = write_barriers ?b + (if r \<and> t = WRITE_BARRIER then 1 else 0),
     pending_barrier_requests = pending_barrier_requests ?b @ (if r then [] else [(c, t)])\<rparr>"
  have b': "R c ?b h = (r, b', h')" "pending_barrier_requests b' = pending_barrier_requests ?b @ (if r then [] else [(c, t)])"
    "cb_id b' = i" "read_barriers b' = read_barriers ?b + (if r \<and> t = READ_BARRIER then 1 else 0)"
    "write_barriers b' = write_barriers ?b + (if r \<and> t = WRITE_BARRIER then 1 else 0)"
    using B unfolding R r_def h'_def b'_def
    by (cases t; simp add: set_read_barrier_def set_write_barrier_def grant_read_barrier_request_def grant_write_barrier_request_def)+
  have "barrier_ok C h' i b'"
    using B b'(2-5) k ns c r_def unfolding barrier_ok_def barrier_counts_def barrier_blocked_def
    by (cases t; cases "pending_barrier_requests ?b") auto
  then have "manager_ok C (m1\<lparr>barrier_map := (barrier_map m1)[nat i := Some b']\<rparr>) h'"
    using manager_okD(1) [OF ok] barrier_ok_elsewhere [OF se] fin m1(4) by (auto simp: manager_ok_def)
  moreover have "bm_request R i c m h = Some (r, m1\<lparr>barrier_map := (barrier_map m1)[nat i := Some b']\<rparr>, h')"
    using m1(1) b'(1) by (simp add: bm_request_def)
  moreover have "pending_barrier_requests (the_barrier (m1\<lparr>barrier_map := (barrier_map m1)[nat i := Some b']\<rparr>) i)
      = pending_barrier_requests ?b @ (if r then [] else [(c, t)])" using m1(4) [OF i] b'(2) by simp
  ultimately show ?thesis using m1(2,3) unfolding r_def [symmetric]
    by (intro exI [of _ r] exI [of _ "m1\<lparr>barrier_map := (barrier_map m1)[nat i := Some b']\<rparr>"] exI [of _ h']) (simp add: h'_def)
qed

text \<open>
  Giving a token back: the context drops it, then the manager is told.  The requests that can now
  be granted are granted in the order of the queue.
\<close>

definition drop_token :: "barrier_token \<Rightarrow> call_back_context \<Rightarrow> call_back_context" where
  "drop_token t x = x\<lparr>obtained_barriers := remove1 t (obtained_barriers x)\<rparr>"

lemma count_list_remove1: "count_list (remove1 a xs) x = count_list xs x - (if x = a then 1 else 0)"
  by (induction xs) auto

lemma drop_token_held:
  assumes "finite C" "c \<in> C" "t \<in> set (obtained_barriers (h c))"
  shows "held C h u = held C (h(c := drop_token t (h c))) u + (if u = t then 1 else 0)"
proof -
  have "0 < count_list (obtained_barriers (h c)) t" using assms(3) count_list_0_iff by (metis gr0I)
  then show ?thesis using held_upd [OF assms(1,2), of h "drop_token t (h c)" u] by (auto simp: drop_token_def count_list_remove1)
qed

lemma token_eq: "t = (if token_type t = READ_BARRIER then rtok (barrier_id t) else wtok (barrier_id t))"
  by (cases t) (auto intro: barrier_type.exhaust)

lemma bm_remove_ok:
  assumes ok: "manager_ok C m h" and i: "0 \<le> barrier_id t" and c: "c \<in> C" "t \<in> set (obtained_barriers (h c))"
    and R: "R = (if token_type t = READ_BARRIER then remove_read_barrier else remove_write_barrier)"
  shows "\<exists>m' h' rs. bm_remove R (barrier_id t) m (h(c := drop_token t (h c))) = Some (m', h') \<and> manager_ok C m' h'
     \<and> bm_ready m' = bm_ready m @ map fst rs \<and> bm_barriers m' = bm_barriers m
     \<and> pending_barrier_requests (the_barrier m (barrier_id t)) = rs @ pending_barrier_requests (the_barrier m' (barrier_id t))
     \<and> (\<forall>d. next_state (h' d) = next_state (h d))"
proof -
  let ?i = "barrier_id t" and ?h = "h(c := drop_token t (h c))"
  note B = manager_okD(1) [OF ok i, unfolded barrier_ok_def barrier_counts_def] and fin = manager_okD(2) [OF ok]
  let ?b = "the_barrier m ?i"
  obtain m1 where m1: "get_or_create_barrier ?i m = Some (?b, m1)" "bm_ready m1 = bm_ready m" "bm_barriers m1 = bm_barriers m"
    "\<And>b j rd. 0 \<le> j \<Longrightarrow> the_barrier (m1\<lparr>barrier_map := (barrier_map m1)[nat ?i := Some b], bm_ready := rd\<rparr>) j = (if j = ?i then b else the_barrier m j)"
    using get_or_create_barrier_ok [OF i, of m] by blast
  note k = drop_token_held [where h = h and t = t, OF fin c]
  have ns: "next_state (?h d) = next_state (h d)" for d by (simp add: drop_token_def)
  let ?bz = "if token_type t = READ_BARRIER then ?b\<lparr>read_barriers := read_barriers ?b - 1\<rparr> else ?b\<lparr>write_barriers := write_barriers ?b - 1\<rparr>"
  have t: "rtok ?i = t \<longleftrightarrow> token_type t = READ_BARRIER" "wtok ?i = t \<longleftrightarrow> token_type t \<noteq> READ_BARRIER"
    using token_eq [of t] barrier_token.select_convs(2) [of ?i] by (metis barrier_type.distinct(1))+
  have kr: "int (held C h (rtok ?i)) = int (held C ?h (rtok ?i)) + (if token_type t = READ_BARRIER then 1 else 0)"
    and kw: "int (held C h (wtok ?i)) = int (held C ?h (wtok ?i)) + (if token_type t = READ_BARRIER then 0 else 1)"
    using k [of "rtok ?i"] k [of "wtok ?i"] unfolding t by simp_all
  have "barrier_counts C ?h ?i ?bz"
    using B kr kw ns unfolding barrier_counts_def by (auto split: if_splits)
  from offer_barrier_ok [OF fin this, of "bm_ready m1"] obtain b' rs h' where
    b': "offer_barrier ?bz (bm_ready m1) ?h = Some (b', bm_ready m1 @ map fst rs, h')" "barrier_ok C h' ?i b'" "same_elsewhere C ?i ?h h'"
      "pending_barrier_requests ?bz = rs @ pending_barrier_requests b'" by blast
  let ?m = "m1\<lparr>barrier_map := (barrier_map m1)[nat ?i := Some b'], bm_ready := bm_ready m @ map fst rs\<rparr>"
  have "bm_remove R ?i m ?h = Some (?m, h')"
    using m1(1,2) b'(1) by (cases "token_type t") (simp_all add: bm_remove_def R remove_read_barrier_def remove_write_barrier_def)
  moreover have "same_elsewhere C ?i h ?h" using k ns unfolding same_elsewhere_def by auto
  then have se: "same_elsewhere C ?i h h'" using b'(3) by (rule same_elsewhere_trans)
  have "manager_ok C ?m h'"
    using manager_okD(1) [OF ok] barrier_ok_elsewhere [OF se] b'(2) fin m1(4) by (auto simp: manager_ok_def)
  moreover have "\<forall>d. next_state (h' d) = next_state (h d)" using se by (simp add: same_elsewhere_def)
  moreover have "pending_barrier_requests ?b = rs @ pending_barrier_requests (the_barrier ?m ?i)"
    using b'(4) m1(4) [OF i] by (auto split: if_splits)
  ultimately show ?thesis using m1(3) by (intro exI [of _ ?m] exI [of _ h'] exI [of _ rs]) simp
qed

section \<open>Contexts that use the manager\<close>

text \<open>
  The steps of contexts from a set \<open>C\<close>: a context asks for a barrier, gives a token back, changes
  its own state, or the scheduler takes contexts out of the ready vector.  A context that asks has
  set its next state, and keeps it while it waits.
\<close>

definition waiting :: "barrier_manager \<Rightarrow> ctx_ptr \<Rightarrow> bool" where
  "waiting m c \<longleftrightarrow> (\<exists>i\<ge>0. c \<in> fst ` set (pending_barrier_requests (the_barrier m i)))"

inductive barrier_step :: "ctx_ptr set \<Rightarrow> barrier_manager \<times> ctx_heap \<Rightarrow> barrier_manager \<times> ctx_heap \<Rightarrow> bool" for C where
  ask_read: "c \<in> C \<Longrightarrow> 0 \<le> i \<Longrightarrow> 0 \<le> next_state (h c) \<Longrightarrow> request_read_barrier i c m h = Some (r, m', h') \<Longrightarrow> barrier_step C (m, h) (m', h')"
| ask_write: "c \<in> C \<Longrightarrow> 0 \<le> i \<Longrightarrow> 0 \<le> next_state (h c) \<Longrightarrow> request_write_barrier i c m h = Some (r, m', h') \<Longrightarrow> barrier_step C (m, h) (m', h')"
| give_read: "c \<in> C \<Longrightarrow> 0 \<le> i \<Longrightarrow> rtok i \<in> set (obtained_barriers (h c))
    \<Longrightarrow> bm_remove_read_barrier i m (h(c := drop_token (rtok i) (h c))) = Some (m', h') \<Longrightarrow> barrier_step C (m, h) (m', h')"
| give_write: "c \<in> C \<Longrightarrow> 0 \<le> i \<Longrightarrow> wtok i \<in> set (obtained_barriers (h c))
    \<Longrightarrow> bm_remove_write_barrier i m (h(c := drop_token (wtok i) (h c))) = Some (m', h') \<Longrightarrow> barrier_step C (m, h) (m', h')"
| own: "obtained_barriers x = obtained_barriers (h c) \<Longrightarrow> 0 \<le> next_state x \<or> \<not> waiting m c \<Longrightarrow> barrier_step C (m, h) (m, h(c := x))"
| take_ready: "barrier_step C (m, h) (m\<lparr>bm_ready := rd\<rparr>, h)"

inductive barrier_reachable :: "ctx_ptr set \<Rightarrow> barrier_manager \<times> ctx_heap \<Rightarrow> bool" for C where
  start: "\<forall>c\<in>C. obtained_barriers (h c) = [] \<Longrightarrow> barrier_reachable C (barrier_manager_new, h)"
| step: "barrier_reachable C s \<Longrightarrow> barrier_step C s s' \<Longrightarrow> barrier_reachable C s'"

lemma barrier_step_ok:
  assumes "barrier_step C s s'" "manager_ok C (fst s) (snd s)"
  shows "manager_ok C (fst s') (snd s')"
  using assms
proof (induction rule: barrier_step.induct)
  case (ask_read c i h m r m' h')
  then show ?case using bm_request_ok [of C m h i set_read_barrier READ_BARRIER c] by (auto simp: request_read_barrier_def)
next
  case (ask_write c i h m r m' h')
  then show ?case using bm_request_ok [of C m h i set_write_barrier WRITE_BARRIER c] by (auto simp: request_write_barrier_def)
next
  case (give_read c i h m m' h')
  then show ?case using bm_remove_ok [of C m h "rtok i" c remove_read_barrier] by (auto simp: bm_remove_read_barrier_def)
next
  case (give_write c i h m m' h')
  then show ?case using bm_remove_ok [of C m h "wtok i" c remove_write_barrier] by (auto simp: bm_remove_write_barrier_def)
next
  case (own x h c m)
  let ?h = "h(c := x)"
  have k: "held C ?h t = held C h t" for t using own(1) by (auto simp: held_def intro!: sum.cong)
  have "c \<notin> fst ` set (pending_barrier_requests (the_barrier m i))" if "\<not> 0 \<le> next_state x" "0 \<le> i" for i
    using own(2) that by (auto simp: waiting_def)
  then have "\<forall>(d, t)\<in>set (pending_barrier_requests (the_barrier m i)). 0 \<le> next_state (?h d)" if "0 \<le> i" for i
    using manager_okD(1) [of C m h, OF _ that] own(3) that by (force simp: barrier_ok_def barrier_counts_def)
  then have "barrier_ok C ?h i (the_barrier m i)" if "0 \<le> i" for i
    using manager_okD(1) [of C m h, OF _ that] own(3) that unfolding barrier_ok_def barrier_counts_def k by fastforce
  then show ?case using own(3) unfolding manager_ok_def fst_conv snd_conv by blast
next
  case (take_ready m h rd)
  have "the_barrier (m\<lparr>bm_ready := rd\<rparr>) = the_barrier m" by (simp add: the_barrier_def fun_eq_iff)
  then show ?case using take_ready by (simp add: manager_ok_def)
qed

lemma barrier_reachable_ok: "barrier_reachable C s \<Longrightarrow> finite C \<Longrightarrow> manager_ok C (fst s) (snd s)"
  by (induction rule: barrier_reachable.induct) (auto intro: manager_ok_new barrier_step_ok)

lemma manager_ok_exclusive:
  assumes ok: "manager_ok C m h" and i: "0 \<le> i" and c: "c \<in> C" "wtok i \<in> set (obtained_barriers (h c))"
    and d: "d \<in> C" "u \<in> set (obtained_barriers (h d))" "barrier_id u = i"
  shows "d = c \<and> u = wtok i"
proof -
  note B = manager_okD(1) [OF ok i, unfolded barrier_ok_def barrier_counts_def] and fin = manager_okD(2) [OF ok]
  have w: "0 < held C h (wtok i)" by (rule held_ge [where h = h, OF fin c])
  then have "held C h (rtok i) = 0" "held C h (wtok i) = 1" using B by auto
  moreover have "u = rtok i \<or> u = wtok i" using d(3) by (cases u; cases "token_type u") auto
  moreover have "0 < held C h u" by (rule held_ge [where h = h, OF fin d(1,2)])
  ultimately show ?thesis using held_two [OF fin c(1) d(1), of "wtok i" h] c(2) d(2) by auto
qed

end
