(* ===== verification/Estimator.thy ===== *)
theory Estimator
  imports Prelude "HOL-Library.Word" "HOL-Library.AList" "HOL-Library.Multiset"
begin

text \<open>
  The class \<^verbatim>\<open>ready_state_estimator\<close> of \<^verbatim>\<open>src/src/scheduler/ready_state_estimator.h\<close>: it keeps the
  submission times of the commands that are on their way and guesses how many of them are
  complete.  Times are 64-bit counters.  The hash table from command identifiers to times is an
  association list.  A failed assertion or a scan past the end of a vector is \<open>None\<close>.
\<close>

section \<open>State and operations\<close>

record ready_state_estimator =
  read_time_array :: "64 word list"
  write_time_array :: "64 word list"
  id_to_time :: "(64 word \<times> 64 word) list"
  write_latency :: "64 word"
  read_latency :: "64 word"

definition estimator_new :: ready_state_estimator where
  "estimator_new = \<lparr>read_time_array = [], write_time_array = [], id_to_time = [], write_latency = 400000, read_latency = 200000\<rparr>"

definition estimator_new_with :: "32 word \<Rightarrow> 32 word \<Rightarrow> ready_state_estimator" where
  "estimator_new_with ready_lat write_lat = estimator_new\<lparr>read_latency := scast ready_lat, write_latency := scast write_lat\<rparr>"

definition register_write_io :: "64 word \<Rightarrow> 64 word \<Rightarrow> ready_state_estimator \<Rightarrow> ready_state_estimator" where
  "register_write_io i now e =
     e\<lparr>write_time_array := write_time_array e @ [now], id_to_time := AList.update i now (id_to_time e)\<rparr>"

definition register_read_io :: "64 word \<Rightarrow> 64 word \<Rightarrow> ready_state_estimator \<Rightarrow> ready_state_estimator" where
  "register_read_io i now e =
     e\<lparr>read_time_array := read_time_array e @ [now], id_to_time := AList.update i now (id_to_time e)\<rparr>"

text \<open>The scan for the time and the erasure of the element it stops at.\<close>

fun erase_time :: "64 word \<Rightarrow> 64 word list \<Rightarrow> 64 word list option" where
  "erase_time t [] = None"
| "erase_time t (x # xs) = (if x \<noteq> t then map_option ((#) x) (erase_time t xs) else Some xs)"

definition remove_read_io :: "64 word \<Rightarrow> ready_state_estimator \<Rightarrow> ready_state_estimator option" where
  "remove_read_io i e =
     do { time \<leftarrow> map_of (id_to_time e) i;
          ts \<leftarrow> erase_time time (read_time_array e);
          Some (e\<lparr>id_to_time := AList.delete i (id_to_time e), read_time_array := ts\<rparr>) }"

definition remove_write_io :: "64 word \<Rightarrow> ready_state_estimator \<Rightarrow> ready_state_estimator option" where
  "remove_write_io i e =
     do { time \<leftarrow> map_of (id_to_time e) i;
          ts \<leftarrow> erase_time time (write_time_array e);
          Some (e\<lparr>id_to_time := AList.delete i (id_to_time e), write_time_array := ts\<rparr>) }"

fun count_ready :: "64 word \<Rightarrow> 64 word \<Rightarrow> 64 word list \<Rightarrow> nat" where
  "count_ready latency timestamp [] = 0"
| "count_ready latency timestamp (t # ts) = (if t + latency \<le> timestamp then Suc (count_ready latency timestamp ts) else 0)"

definition estimate_number_of_ready_reads :: "64 word \<Rightarrow> ready_state_estimator \<Rightarrow> nat" where
  "estimate_number_of_ready_reads timestamp e = count_ready (read_latency e) timestamp (read_time_array e)"

definition estimate_number_of_ready_writes :: "64 word \<Rightarrow> ready_state_estimator \<Rightarrow> nat" where
  "estimate_number_of_ready_writes timestamp e = count_ready (write_latency e) timestamp (write_time_array e)"

definition estimate_number_of_ready_ios :: "64 word \<Rightarrow> ready_state_estimator \<Rightarrow> nat" where
  "estimate_number_of_ready_ios timestamp e =
     estimate_number_of_ready_reads timestamp e + estimate_number_of_ready_writes timestamp e"

text \<open>
  The time at which the expected number of writes will be complete.  \<^verbatim>\<open>INT64_MAX\<close> stands for never,
  and the latency is added to it as well: the result wraps around.
\<close>

fun nth_time :: "int \<Rightarrow> int \<Rightarrow> 64 word list \<Rightarrow> 64 word" where
  "nth_time expected ready_count [] = 2 ^ 63 - 1"
| "nth_time expected ready_count (t # ts) = (if ready_count + 1 = expected then t else nth_time expected (ready_count + 1) ts)"

definition estimate_the_time_to_get_desirable_ready_write_state :: "int \<Rightarrow> ready_state_estimator \<Rightarrow> 64 word" where
  "estimate_the_time_to_get_desirable_ready_write_state expected e = nth_time expected 0 (write_time_array e) + write_latency e"

definition get_number_of_pending_state :: "ready_state_estimator \<Rightarrow> nat" where
  "get_number_of_pending_state e = length (read_time_array e) + length (write_time_array e)"

definition get_number_of_pending_write_state :: "ready_state_estimator \<Rightarrow> nat" where
  "get_number_of_pending_write_state e = length (write_time_array e)"

definition update_read_latency_in_cycles :: "64 word \<Rightarrow> ready_state_estimator \<Rightarrow> ready_state_estimator" where
  "update_read_latency_in_cycles l e = e\<lparr>read_latency := l\<rparr>"

definition update_write_latency_in_cycles :: "64 word \<Rightarrow> ready_state_estimator \<Rightarrow> ready_state_estimator" where
  "update_write_latency_in_cycles l e = e\<lparr>write_latency := l\<rparr>"

definition get_current_read_latency :: "ready_state_estimator \<Rightarrow> 64 word" where
  "get_current_read_latency e = read_latency e"

section \<open>Invariant\<close>

text \<open>
  \<open>rs\<close> and \<open>ws\<close> are the reads and writes that were registered and not removed: the two vectors hold
  their times, and the table knows them and nothing else.
\<close>

definition estimator_ok :: "64 word set \<Rightarrow> 64 word set \<Rightarrow> ready_state_estimator \<Rightarrow> bool" where
  "estimator_ok rs ws e \<longleftrightarrow> finite rs \<and> finite ws \<and> rs \<inter> ws = {} \<and> dom (map_of (id_to_time e)) = rs \<union> ws
     \<and> mset (read_time_array e) = image_mset (\<lambda>i. the (map_of (id_to_time e) i)) (mset_set rs)
     \<and> mset (write_time_array e) = image_mset (\<lambda>i. the (map_of (id_to_time e) i)) (mset_set ws)"

lemma erase_time_remove1: "t \<in> set xs \<Longrightarrow> erase_time t xs = Some (remove1 t xs)"
  by (induction xs) auto

lemma estimator_ok_new: "estimator_ok {} {} estimator_new" "estimator_ok {} {} (estimator_new_with a b)"
  by (simp_all add: estimator_ok_def estimator_new_def estimator_new_with_def)

lemma image_mset_the_upd:
  "finite A \<Longrightarrow> i \<notin> A \<Longrightarrow> image_mset (\<lambda>j. the ((f(i := u)) j)) (mset_set A) = image_mset (\<lambda>j. the (f j)) (mset_set A)"
  by (rule image_mset_cong) auto

lemma image_mset_the_insert:
  "finite A \<Longrightarrow> i \<notin> A \<Longrightarrow>
   image_mset (\<lambda>j. the ((f(i \<mapsto> t)) j)) (mset_set (insert i A)) = add_mset t (image_mset (\<lambda>j. the (f j)) (mset_set A))"
  using image_mset_the_upd [of A i f "Some t"] by simp

lemma estimator_okD:
  assumes "estimator_ok rs ws e"
  shows "finite rs" "finite ws" "rs \<inter> ws = {}" "dom (map_of (id_to_time e)) = rs \<union> ws"
    "mset (read_time_array e) = image_mset (\<lambda>i. the (map_of (id_to_time e) i)) (mset_set rs)"
    "mset (write_time_array e) = image_mset (\<lambda>i. the (map_of (id_to_time e) i)) (mset_set ws)"
  using assms by (simp_all add: estimator_ok_def)

lemma register_read_io_ok:
  assumes "estimator_ok rs ws e" "i \<notin> rs \<union> ws"
  shows "estimator_ok (insert i rs) ws (register_read_io i now e)"
  using assms(2) estimator_okD [OF assms(1)] unfolding estimator_ok_def register_read_io_def
  by (simp add: update_conv' image_mset_the_insert image_mset_the_upd del: fun_upd_apply mset_set.insert)

lemma register_write_io_ok:
  assumes "estimator_ok rs ws e" "i \<notin> rs \<union> ws"
  shows "estimator_ok rs (insert i ws) (register_write_io i now e)"
  using assms(2) estimator_okD [OF assms(1)] unfolding estimator_ok_def register_write_io_def
  by (simp add: update_conv' image_mset_the_insert image_mset_the_upd del: fun_upd_apply mset_set.insert)

lemma removed_times:
  assumes "finite A" "i \<in> A" "mset ts = image_mset (\<lambda>j. the (f j)) (mset_set A)" "f i = Some t"
  shows "erase_time t ts = Some (remove1 t ts)"
    "mset (remove1 t ts) = image_mset (\<lambda>j. the ((f(i := None)) j)) (mset_set (A - {i}))"
proof -
  have s: "mset_set A = add_mset i (mset_set (A - {i}))" using assms(1,2) by (rule mset_set.remove)
  have "image_mset (\<lambda>j. the (f j)) (mset_set (A - {i})) = image_mset (\<lambda>j. the ((f(i := None)) j)) (mset_set (A - {i}))"
    by (rule image_mset_the_upd [symmetric]) (use assms(1) in simp_all)
  then show "mset (remove1 t ts) = image_mset (\<lambda>j. the ((f(i := None)) j)) (mset_set (A - {i}))"
    using assms(3,4) s by (simp del: fun_upd_apply)
  have "t \<in># mset ts" unfolding assms(3) s using assms(4) by simp
  then show "erase_time t ts = Some (remove1 t ts)" by (intro erase_time_remove1) simp
qed

lemma remove_read_io_ok:
  assumes "estimator_ok rs ws e" "i \<in> rs"
  shows "\<exists>e'. remove_read_io i e = Some e' \<and> estimator_ok (rs - {i}) ws e'"
proof -
  note d = estimator_okD [OF assms(1)]
  obtain t where t: "map_of (id_to_time e) i = Some t" using assms(2) d(4) by blast
  note r = removed_times [OF d(1) assms(2) d(5) t]
  have i: "i \<notin> ws" using assms(2) d(3) by auto
  let ?e = "e\<lparr>id_to_time := AList.delete i (id_to_time e), read_time_array := remove1 t (read_time_array e)\<rparr>"
  have "mset (read_time_array ?e) = image_mset (\<lambda>j. the (((map_of (id_to_time e))(i := None)) j)) (mset_set (rs - {i}))" using r(2) by simp
  moreover have "dom ((map_of (id_to_time e))(i := None)) = rs - {i} \<union> (ws)" using d(4) i by auto
  ultimately have "estimator_ok (rs - {i}) ws ?e"
    using d i unfolding estimator_ok_def by (auto simp: delete_conv' image_mset_the_upd simp del: fun_upd_apply mset_remove1 dom_fun_upd)
  moreover have "remove_read_io i e = Some ?e" using t r(1) by (simp add: remove_read_io_def)
  ultimately show ?thesis by blast
qed

lemma remove_write_io_ok:
  assumes "estimator_ok rs ws e" "i \<in> ws"
  shows "\<exists>e'. remove_write_io i e = Some e' \<and> estimator_ok rs (ws - {i}) e'"
proof -
  note d = estimator_okD [OF assms(1)]
  obtain t where t: "map_of (id_to_time e) i = Some t" using assms(2) d(4) by blast
  note r = removed_times [OF d(2) assms(2) d(6) t]
  have i: "i \<notin> rs" using assms(2) d(3) by auto
  let ?e = "e\<lparr>id_to_time := AList.delete i (id_to_time e), write_time_array := remove1 t (write_time_array e)\<rparr>"
  have "mset (write_time_array ?e) = image_mset (\<lambda>j. the (((map_of (id_to_time e))(i := None)) j)) (mset_set (ws - {i}))" using r(2) by simp
  moreover have "dom ((map_of (id_to_time e))(i := None)) = rs \<union> (ws - {i})" using d(4) i by auto
  ultimately have "estimator_ok rs (ws - {i}) ?e"
    using d i unfolding estimator_ok_def by (auto simp: delete_conv' image_mset_the_upd simp del: fun_upd_apply mset_remove1 dom_fun_upd)
  moreover have "remove_write_io i e = Some ?e" using t r(1) by (simp add: remove_write_io_def)
  ultimately show ?thesis by blast
qed

lemma estimator_ok_pending: "estimator_ok rs ws e \<Longrightarrow> get_number_of_pending_state e = card rs + card ws"
  unfolding get_number_of_pending_state_def estimator_ok_def
  by (metis size_image_mset size_mset size_mset_set)

end
