(* ===== verification/Async_IO.thy ===== *)
theory Async_IO
  imports File_Store Contexts Estimator
begin

text \<open>
  Asynchronous input and output: the virtual methods of \<^verbatim>\<open>blk_accessor\<close> (\<^verbatim>\<open>src/src/blk/blk.h\<close>) that the
  pull-based trees call, and their implementation in \<^verbatim>\<open>src/src/blk/file_blk_accessor.h\<close>.  The methods
  work on a world: the accessor, the contexts and the buffers that the program and the accessor
  share by pointers, and the time stamp counter, whose readings are given in advance.
\<close>

section \<open>The interface\<close>

type_synonym buf_ptr = nat

record 'a io_world =
  accessor :: 'a
  ctxs :: ctx_heap
  buffers :: "buf_ptr \<Rightarrow> byte list"
  clock :: "nat \<Rightarrow> 64 word"
  clock_reads :: nat

definition ticks :: "'a io_world \<Rightarrow> 64 word \<times> 'a io_world" where
  "ticks w = (clock w (clock_reads w), w\<lparr>clock_reads := clock_reads w + 1\<rparr>)"

text \<open>\<open>get_ready_contexts\<close> returns a reference to a vector; the two functions read and write it.\<close>

record 'a aio_ops =
  aio_allocate :: "'a \<Rightarrow> blk_address \<times> 'a"
  asynch_read :: "blk_address \<Rightarrow> buf_ptr \<Rightarrow> ctx_ptr \<Rightarrow> 'a io_world \<Rightarrow> 'a io_world option"
  asynch_write :: "blk_address \<Rightarrow> buf_ptr \<Rightarrow> ctx_ptr \<Rightarrow> 'a io_world \<Rightarrow> 'a io_world option"
  process_completion :: "int \<Rightarrow> 'a io_world \<Rightarrow> (int \<times> 'a io_world) option"
  ready_contexts :: "'a \<Rightarrow> ctx_ptr list"
  set_ready_contexts :: "ctx_ptr list \<Rightarrow> 'a \<Rightarrow> 'a"
  estimate_reads :: "64 word \<Rightarrow> 'a io_world \<Rightarrow> (int \<times> 'a io_world) option"
  estimate_writes :: "64 word \<Rightarrow> 'a io_world \<Rightarrow> (int \<times> 'a io_world) option"

definition ctx_transition :: "ctx_ptr \<Rightarrow> ctx_heap \<Rightarrow> ctx_heap option" where
  "ctx_transition c h = map_option (\<lambda>x. h(c := x)) (transition_to_next_state (h c))"

section \<open>The file accessor\<close>

datatype io_type = read_io | write_io

record pending_io =
  io_id :: "64 word"
  io_kind :: io_type

record file_async =
  fa_sync :: file_blk_accessor
  fa_pending_contexts :: "ctx_ptr list"
  fa_ready_contexts :: "ctx_ptr list"
  wait_for_completion_counts :: "32 word"
  fa_estimator :: ready_state_estimator
  io_id_generator :: "64 word"
  pending_ids :: "pending_io list"

definition file_async_new :: "nat \<Rightarrow> file_async" where
  "file_async_new block_size = \<lparr>fa_sync = file_new block_size, fa_pending_contexts = [], fa_ready_contexts = [],
     wait_for_completion_counts = 0, fa_estimator = estimator_new_with 1000 2000, io_id_generator = 0, pending_ids = []\<rparr>"

text \<open>The bookkeeping that follows the transfer: the command is registered and the context queued.\<close>

definition file_enqueue :: "io_type \<Rightarrow> ctx_ptr \<Rightarrow> file_async io_world \<Rightarrow> file_async io_world" where
  "file_enqueue k c w0 =
     (case ticks w0 of (t, w) \<Rightarrow>
      let s = accessor w; i = io_id_generator s in
      w\<lparr>accessor := s\<lparr>io_id_generator := i + 1,
          fa_estimator := (case k of read_io \<Rightarrow> register_read_io i t (fa_estimator s) | write_io \<Rightarrow> register_write_io i t (fa_estimator s)),
          pending_ids := pending_ids s @ [\<lparr>io_id = i, io_kind = k\<rparr>],
          fa_pending_contexts := fa_pending_contexts s @ [c],
          wait_for_completion_counts := wait_for_completion_counts s + 1\<rparr>\<rparr>)"

definition file_asynch_read :: "blk_address \<Rightarrow> buf_ptr \<Rightarrow> ctx_ptr \<Rightarrow> file_async io_world \<Rightarrow> file_async io_world option" where
  "file_asynch_read a buffer c w =
     do { (_, bs, f) \<leftarrow> file_read a (buffers w buffer) (fa_sync (accessor w));
          Some (file_enqueue read_io c (w\<lparr>accessor := (accessor w)\<lparr>fa_sync := f\<rparr>, buffers := (buffers w)(buffer := bs)\<rparr>)) }"

definition file_asynch_write :: "blk_address \<Rightarrow> buf_ptr \<Rightarrow> ctx_ptr \<Rightarrow> file_async io_world \<Rightarrow> file_async io_world option" where
  "file_asynch_write a buffer c w =
     do { (_, f) \<leftarrow> file_write a (buffers w buffer) (fa_sync (accessor w));
          Some (file_enqueue write_io c (w\<lparr>accessor := (accessor w)\<lparr>fa_sync := f\<rparr>\<rparr>)) }"

text \<open>
  One round of the loop of \<^verbatim>\<open>process_completion\<close>: the last context and the last command, whose kind
  decides the tag.
\<close>

definition file_complete_one :: "file_async io_world \<Rightarrow> file_async io_world option" where
  "file_complete_one w =
     (let s = accessor w in
      if fa_pending_contexts s = [] \<or> pending_ids s = [] then None
      else let c = last (fa_pending_contexts s); io = last (pending_ids s) in
        do { e \<leftarrow> (case io_kind io of read_io \<Rightarrow> remove_read_io (io_id io) (fa_estimator s)
                                    | write_io \<Rightarrow> remove_write_io (io_id io) (fa_estimator s));
             let h = (ctxs w)(c := set_tag (case io_kind io of read_io \<Rightarrow> CONTEXT_READ_IO | write_io \<Rightarrow> CONTEXT_WRITE_IO) (ctxs w c));
             h' \<leftarrow> ctx_transition c h;
             Some (w\<lparr>ctxs := h',
               accessor := s\<lparr>fa_estimator := e, pending_ids := butlast (pending_ids s), fa_pending_contexts := butlast (fa_pending_contexts s),
                 fa_ready_contexts := fa_ready_contexts s @ [c]\<rparr>\<rparr>) })"

fun file_complete_loop :: "nat \<Rightarrow> int \<Rightarrow> int \<Rightarrow> file_async io_world \<Rightarrow> (int \<times> file_async io_world) option" where
  "file_complete_loop 0 mx processed w = Some (processed, w)"
| "file_complete_loop (Suc n) mx processed w =
     (if processed < mx then file_complete_one w \<bind> file_complete_loop n mx (processed + 1) else Some (processed, w))"

text \<open>
  The pending contexts are shuffled first, the commands are not.  \<open>shuffle\<close> is \<^verbatim>\<open>random_shuffle\<close>: some
  rearrangement of the vector.
\<close>

definition file_process_completion :: "(ctx_ptr list \<Rightarrow> ctx_ptr list) \<Rightarrow> int \<Rightarrow> file_async io_world \<Rightarrow> (int \<times> file_async io_world) option" where
  "file_process_completion shuffle mx0 w =
     (let mx = (if mx0 = 0 then 2 ^ 31 - 1 else mx0);
          cs = shuffle (fa_pending_contexts (accessor w))
      in file_complete_loop (length cs) mx 0 (w\<lparr>accessor := (accessor w)\<lparr>fa_pending_contexts := cs\<rparr>\<rparr>))"

text \<open>\<^verbatim>\<open>process_ready_contexts\<close> fails its assertion as soon as there is a context to process.\<close>

definition file_process_ready_contexts :: "int \<Rightarrow> file_async \<Rightarrow> int option" where
  "file_process_ready_contexts mx s = (if fa_ready_contexts s \<noteq> [] \<and> 0 < mx then None else Some 0)"

definition file_aio :: "(ctx_ptr list \<Rightarrow> ctx_ptr list) \<Rightarrow> (blk_address list \<Rightarrow> blk_address) \<Rightarrow> file_async aio_ops" where
  "file_aio shuffle pick =
     \<lparr>aio_allocate = (\<lambda>s. case file_allocate pick (fa_sync s) of (a, f) \<Rightarrow> (a, s\<lparr>fa_sync := f\<rparr>)),
      asynch_read = file_asynch_read, asynch_write = file_asynch_write,
      process_completion = file_process_completion shuffle,
      ready_contexts = fa_ready_contexts, set_ready_contexts = (\<lambda>cs s. s\<lparr>fa_ready_contexts := cs\<rparr>),
      estimate_reads = (\<lambda>t w. Some (int (estimate_number_of_ready_reads t (fa_estimator (accessor w))), w)),
      estimate_writes = (\<lambda>t w. Some (int (estimate_number_of_ready_writes t (fa_estimator (accessor w))), w))\<rparr>"

section \<open>The queues of the file accessor\<close>

definition io_ids :: "io_type \<Rightarrow> file_async \<Rightarrow> 64 word set" where
  "io_ids k s = set (map io_id (filter (\<lambda>io. io_kind io = k) (pending_ids s)))"

text \<open>Fewer than \<open>2\<^sup>6\<^sup>4\<close> commands have been submitted, so the identifiers are fresh.\<close>

definition file_queues_ok :: "file_async \<Rightarrow> bool" where
  "file_queues_ok s \<longleftrightarrow> length (fa_pending_contexts s) = length (pending_ids s) \<and> distinct (map io_id (pending_ids s))
     \<and> estimator_ok (io_ids read_io s) (io_ids write_io s) (fa_estimator s)
     \<and> (\<forall>io\<in>set (pending_ids s). io_id io < io_id_generator s)"

lemma file_queues_ok_new: "file_queues_ok (file_async_new n)"
  by (simp add: file_queues_ok_def file_async_new_def io_ids_def estimator_ok_new)

lemma word64_less_Suc: "uint (i :: 64 word) + 1 < 2 ^ 64 \<Longrightarrow> i < i + 1"
  by (simp add: word_less_def uint_word_ariths)

lemma file_enqueue_ok:
  assumes ok: "file_queues_ok (accessor w)" and g: "uint (io_id_generator (accessor w)) + 1 < 2 ^ 64"
  shows "file_queues_ok (accessor (file_enqueue k c w))"
    "ctxs (file_enqueue k c w) = ctxs w" "buffers (file_enqueue k c w) = buffers w"
    "io_id_generator (accessor (file_enqueue k c w)) = io_id_generator (accessor w) + 1"
    "fa_pending_contexts (accessor (file_enqueue k c w)) = fa_pending_contexts (accessor w) @ [c]"
    "fa_ready_contexts (accessor (file_enqueue k c w)) = fa_ready_contexts (accessor w)"
    "fa_sync (accessor (file_enqueue k c w)) = fa_sync (accessor w)"
proof -
  let ?s = "accessor w" and ?i = "io_id_generator (accessor w)"
  have lt: "?i < ?i + 1" using g by (rule word64_less_Suc)
  have fr: "?i \<notin> io_ids read_io ?s \<union> io_ids write_io ?s" using ok by (auto simp: file_queues_ok_def io_ids_def)
  have e: "estimator_ok (io_ids read_io ?s) (io_ids write_io ?s) (fa_estimator ?s)" using ok by (simp add: file_queues_ok_def)
  let ?s' = "accessor (file_enqueue k c w)"
  have ids: "io_ids read_io ?s' = (if k = read_io then insert ?i (io_ids read_io ?s) else io_ids read_io ?s)"
    "io_ids write_io ?s' = (if k = write_io then insert ?i (io_ids write_io ?s) else io_ids write_io ?s)"
    by (auto simp: io_ids_def file_enqueue_def ticks_def Let_def)
  have "estimator_ok (io_ids read_io ?s') (io_ids write_io ?s') (fa_estimator ?s')"
    unfolding ids using register_read_io_ok [OF e fr] register_write_io_ok [OF e fr]
    by (cases k) (simp_all add: file_enqueue_def ticks_def Let_def)
  then show "file_queues_ok ?s'" using ok lt order.strict_trans [OF _ lt]
    by (auto simp: file_queues_ok_def file_enqueue_def ticks_def Let_def)
  show "ctxs (file_enqueue k c w) = ctxs w" "buffers (file_enqueue k c w) = buffers w"
    "io_id_generator (accessor (file_enqueue k c w)) = io_id_generator (accessor w) + 1"
    "fa_pending_contexts (accessor (file_enqueue k c w)) = fa_pending_contexts (accessor w) @ [c]"
    "fa_ready_contexts (accessor (file_enqueue k c w)) = fa_ready_contexts (accessor w)"
    "fa_sync (accessor (file_enqueue k c w)) = fa_sync (accessor w)"
    by (simp_all add: file_enqueue_def ticks_def Let_def)
qed

text \<open>Completion takes every pending context to the state it asked for, once, and never gets stuck.\<close>

lemma file_complete_one_ok:
  assumes ok: "file_queues_ok (accessor w)" and ne: "fa_pending_contexts (accessor w) \<noteq> []"
    and n: "0 \<le> next_state (ctxs w (last (fa_pending_contexts (accessor w))))"
  shows "\<exists>w'. file_complete_one w = Some w' \<and> file_queues_ok (accessor w')
     \<and> fa_pending_contexts (accessor w') = butlast (fa_pending_contexts (accessor w))
     \<and> fa_ready_contexts (accessor w') = fa_ready_contexts (accessor w) @ [last (fa_pending_contexts (accessor w))]
     \<and> fa_sync (accessor w') = fa_sync (accessor w) \<and> io_id_generator (accessor w') = io_id_generator (accessor w) \<and> buffers w' = buffers w
     \<and> (\<forall>c. next_state (ctxs w' c) = next_state (ctxs w c) \<and> obtained_barriers (ctxs w' c) = obtained_barriers (ctxs w c)
          \<and> status (ctxs w' c) = status (ctxs w c) \<and> ctx_id (ctxs w' c) = ctx_id (ctxs w c)
          \<and> current_state (ctxs w' c)
             = (if c = last (fa_pending_contexts (accessor w)) then next_state (ctxs w c) else current_state (ctxs w c)))"
proof -
  let ?s = "accessor w"
  let ?c = "last (fa_pending_contexts ?s)" and ?io = "last (pending_ids ?s)"
  have ids: "pending_ids ?s \<noteq> []" using ok ne by (auto simp: file_queues_ok_def)
  then have sp: "pending_ids ?s = butlast (pending_ids ?s) @ [?io]" by simp
  have d: "distinct (map io_id (butlast (pending_ids ?s)) @ [io_id ?io])" using ok sp by (metis file_queues_ok_def map_append list.map(1,2))
  have e: "estimator_ok (io_ids read_io ?s) (io_ids write_io ?s) (fa_estimator ?s)" using ok by (simp add: file_queues_ok_def)
  have in_ids: "io_id ?io \<in> io_ids (io_kind ?io) ?s" using ids by (auto simp: io_ids_def)
  have rest: "io_ids k (?s\<lparr>pending_ids := butlast (pending_ids ?s)\<rparr>) = io_ids k ?s - (if k = io_kind ?io then {io_id ?io} else {})" for k
  proof -
    have "io_ids k ?s = set (map io_id (filter (\<lambda>io. io_kind io = k) (butlast (pending_ids ?s) @ [?io])))" unfolding io_ids_def using sp by simp
    then show ?thesis using d by (auto simp: io_ids_def) (metis image_eqI)
  qed
  obtain e' where e': "(case io_kind ?io of read_io \<Rightarrow> remove_read_io (io_id ?io) (fa_estimator ?s) | write_io \<Rightarrow> remove_write_io (io_id ?io) (fa_estimator ?s)) = Some e'"
    "estimator_ok (io_ids read_io (?s\<lparr>pending_ids := butlast (pending_ids ?s)\<rparr>)) (io_ids write_io (?s\<lparr>pending_ids := butlast (pending_ids ?s)\<rparr>)) e'"
    unfolding rest using remove_read_io_ok [OF e] remove_write_io_ok [OF e] in_ids by (cases "io_kind ?io") fastforce+
  let ?h = "(ctxs w)(?c := set_tag (case io_kind ?io of read_io \<Rightarrow> CONTEXT_READ_IO | write_io \<Rightarrow> CONTEXT_WRITE_IO) (ctxs w ?c))"
  have t: "ctx_transition ?c ?h = Some (?h(?c := (?h ?c)\<lparr>current_state := next_state (ctxs w ?c)\<rparr>))"
    using n by (simp add: ctx_transition_def transition_to_next_state_def set_tag_def)
  let ?s' = "?s\<lparr>fa_estimator := e', pending_ids := butlast (pending_ids ?s), fa_pending_contexts := butlast (fa_pending_contexts ?s),
                 fa_ready_contexts := fa_ready_contexts ?s @ [?c]\<rparr>"
  have r: "file_complete_one w = Some (w\<lparr>ctxs := ?h(?c := (?h ?c)\<lparr>current_state := next_state (ctxs w ?c)\<rparr>), accessor := ?s'\<rparr>)"
    using ne ids e'(1) t by (simp add: file_complete_one_def Let_def del: fun_upd_apply)
  have "file_queues_ok ?s'" using ok e'(2) d by (auto simp: file_queues_ok_def io_ids_def distinct_butlast map_butlast dest: in_set_butlastD)
  then show ?thesis unfolding r by (auto simp: set_tag_def)
qed

end
