(* ===== verification/Pull_Tree.thy ===== *)
theory Pull_Tree
  imports Async_IO
begin

text \<open>
  The pull-based tree of \<^verbatim>\<open>src/src/tree/pull_based_b_plus_tree.h\<close>.  Requests are put into a queue by
  the callers; one working thread admits them, giving each a context, and runs the contexts.  A
  context is a state machine: \<^verbatim>\<open>run\<close> works until it has to wait for a barrier or for the block
  accessor, and is called again when that has happened.  Every state of \<^verbatim>\<open>insert_context::run\<close> and
  \<^verbatim>\<open>search_context::run\<close> is one definition.  Measurements of time are left out, except where the
  scheduler decides by them.
\<close>

section \<open>Requests and contexts\<close>

type_synonym req_ptr = nat

datatype request_type = SEARCH_REQUEST | INSERT_REQUEST

text \<open>
  The class \<^verbatim>\<open>request\<close> with the members of its two subclasses.  The value and the flag that a search
  request points to are members here; \<open>rq_semaphore\<close> and \<open>rq_cb\<close> say whether the request has a
  semaphore and a call back function.  \<open>rq_released\<close> and \<open>rq_deleted\<close> record that the semaphore was
  released and that the request was deleted.
\<close>

record ('k, 'v) request =
  rq_type :: request_type
  rq_key :: 'k
  rq_ownership :: bool
  rq_semaphore :: bool
  rq_value :: 'v
  rq_found :: bool
  rq_cb :: bool
  rq_released :: bool
  rq_deleted :: bool

text \<open>The back of the deque of parents is the last element.\<close>

record ('k, 'v) insert_context =
  ic_node_ref :: blk_address
  ic_buffer :: buf_ptr
  ic_buffer_2 :: buf_ptr
  ic_current_node :: "('k, 'v) node option"
  ic_request :: req_ptr
  pending_parent_nodes :: "('k inner_node \<times> int) list"
  write_back_completion_count :: int
  write_back_completion_target :: int
  child_node_split :: bool
  ic_split :: "('k, ('k, 'v) node) split option"
  free_slot_available_in_parent :: bool
  parent_boundary_update :: bool
  refer_to_root :: bool
  optimistic :: bool
  next_visit_is_leaf_node :: bool
  current_node_level :: int
  last_state_1 :: bool

record ('k, 'v) search_context =
  sc_node_ref :: blk_address
  sc_buffer :: buf_ptr
  sc_request :: req_ptr
  sc_leaf_node :: "('k, 'v) leaf_node"
  sc_inner_node :: "'k inner_node"

datatype ('k, 'v) ctx_object = InsertCtx "('k, 'v) insert_context" | SearchCtx "('k, 'v) search_context"

text \<open>
  The tree.  The top of a stack is the first element.  \<open>callbacks\<close> is the sequence of requests whose
  call back function was called; \<open>next_object\<close> and \<open>next_buffer\<close> are the pointers that the next
  allocations return.
\<close>

record ('a, 'k, 'v) pull_tree =
  pt_world :: "'a io_world"
  pt_manager :: barrier_manager
  pt_root :: blk_address
  pt_depth :: int
  pt_objects :: "ctx_ptr \<Rightarrow> ('k, 'v) ctx_object"
  pt_requests :: "req_ptr \<Rightarrow> ('k, 'v) request"
  request_queue :: "req_ptr list"
  working_thread_terminate_flag :: bool
  free_context_slots :: int
  pending_request :: int
  pt_queue_length :: nat
  free_insert_contexts :: "ctx_ptr list"
  free_search_contexts :: "ctx_ptr list"
  callbacks :: "req_ptr list"
  next_object :: ctx_ptr
  next_buffer :: buf_ptr

text \<open>What the class is instantiated with: the accessor, how keys and entries lie in memory, the capacity.\<close>

record ('a, 'k, 'v) pull_cfg =
  cf_ops :: "'a aio_ops"
  cf_key :: "'k pod"
  cf_entry :: "('k \<times> 'v) pod"
  cf_capacity :: nat

subsection \<open>Access to the shared objects\<close>

abbreviation the_ctx :: "ctx_ptr \<Rightarrow> ('a, 'k, 'v) pull_tree \<Rightarrow> call_back_context" where
  "the_ctx c T \<equiv> ctxs (pt_world T) c"

definition upd_ctx :: "(call_back_context \<Rightarrow> call_back_context) \<Rightarrow> ctx_ptr \<Rightarrow> ('a, 'k, 'v) pull_tree \<Rightarrow> ('a, 'k, 'v) pull_tree" where
  "upd_ctx f c T = T\<lparr>pt_world := (pt_world T)\<lparr>ctxs := (ctxs (pt_world T))(c := f (the_ctx c T))\<rparr>\<rparr>"

definition pt_transition :: "ctx_ptr \<Rightarrow> ('a, 'k, 'v) pull_tree \<Rightarrow> ('a, 'k, 'v) pull_tree option" where
  "pt_transition c T = map_option (\<lambda>h. T\<lparr>pt_world := (pt_world T)\<lparr>ctxs := h\<rparr>\<rparr>) (ctx_transition c (ctxs (pt_world T)))"

definition pt_goto :: "int \<Rightarrow> ctx_ptr \<Rightarrow> ('a, 'k, 'v) pull_tree \<Rightarrow> ('a, 'k, 'v) pull_tree option" where
  "pt_goto s c T = pt_transition c (upd_ctx (set_next_state s) c T)"

definition put_insert :: "ctx_ptr \<Rightarrow> ('k, 'v) insert_context \<Rightarrow> ('a, 'k, 'v) pull_tree \<Rightarrow> ('a, 'k, 'v) pull_tree" where
  "put_insert c i T = T\<lparr>pt_objects := (pt_objects T)(c := InsertCtx i)\<rparr>"

definition put_search :: "ctx_ptr \<Rightarrow> ('k, 'v) search_context \<Rightarrow> ('a, 'k, 'v) pull_tree \<Rightarrow> ('a, 'k, 'v) pull_tree" where
  "put_search c i T = T\<lparr>pt_objects := (pt_objects T)(c := SearchCtx i)\<rparr>"

definition upd_request :: "(('k, 'v) request \<Rightarrow> ('k, 'v) request) \<Rightarrow> req_ptr \<Rightarrow> ('a, 'k, 'v) pull_tree \<Rightarrow> ('a, 'k, 'v) pull_tree" where
  "upd_request f r T = T\<lparr>pt_requests := (pt_requests T)(r := f (pt_requests T r))\<rparr>"

definition pt_allocate :: "('a, 'k, 'v) pull_cfg \<Rightarrow> ('a, 'k, 'v) pull_tree \<Rightarrow> blk_address \<times> ('a, 'k, 'v) pull_tree" where
  "pt_allocate F T =
     (case aio_allocate (cf_ops F) (accessor (pt_world T)) of
        (a, s) \<Rightarrow> (a, T\<lparr>pt_world := (pt_world T)\<lparr>accessor := s\<rparr>\<rparr>))"

definition pt_serialize :: "('a, 'k, 'v) pull_cfg \<Rightarrow> ('k, 'v) node \<Rightarrow> buf_ptr \<Rightarrow> ('a, 'k, 'v) pull_tree \<Rightarrow> ('a, 'k, 'v) pull_tree option" where
  "pt_serialize F nd b T =
     do { bs \<leftarrow> specific_serialize (cf_key F) (cf_entry F) nd (buffers (pt_world T) b);
          Some (T\<lparr>pt_world := (pt_world T)\<lparr>buffers := (buffers (pt_world T))(b := bs)\<rparr>\<rparr>) }"

definition pt_asynch_read :: "('a, 'k, 'v) pull_cfg \<Rightarrow> blk_address \<Rightarrow> buf_ptr \<Rightarrow> ctx_ptr \<Rightarrow> ('a, 'k, 'v) pull_tree \<Rightarrow> ('a, 'k, 'v) pull_tree option" where
  "pt_asynch_read F a b c T = map_option (\<lambda>w. T\<lparr>pt_world := w\<rparr>) (asynch_read (cf_ops F) a b c (pt_world T))"

definition pt_asynch_write :: "('a, 'k, 'v) pull_cfg \<Rightarrow> blk_address \<Rightarrow> buf_ptr \<Rightarrow> ctx_ptr \<Rightarrow> ('a, 'k, 'v) pull_tree \<Rightarrow> ('a, 'k, 'v) pull_tree option" where
  "pt_asynch_write F a b c T = map_option (\<lambda>w. T\<lparr>pt_world := w\<rparr>) (asynch_write (cf_ops F) a b c (pt_world T))"

definition put_manager :: "barrier_manager \<times> ctx_heap \<Rightarrow> ('a, 'k, 'v) pull_tree \<Rightarrow> ('a, 'k, 'v) pull_tree" where
  "put_manager mh T = T\<lparr>pt_manager := fst mh, pt_world := (pt_world T)\<lparr>ctxs := snd mh\<rparr>\<rparr>"

definition pt_request_barrier :: "barrier_type \<Rightarrow> int \<Rightarrow> ctx_ptr \<Rightarrow> ('a, 'k, 'v) pull_tree \<Rightarrow> (bool \<times> ('a, 'k, 'v) pull_tree) option" where
  "pt_request_barrier t i c T =
     do { (r, mh) \<leftarrow> (if t = READ_BARRIER then request_read_barrier else request_write_barrier) i c (pt_manager T) (ctxs (pt_world T));
          Some (r, put_manager mh T) }"

definition pt_remove_barrier :: "barrier_token \<Rightarrow> ('a, 'k, 'v) pull_tree \<Rightarrow> ('a, 'k, 'v) pull_tree option" where
  "pt_remove_barrier t T =
     map_option (\<lambda>mh. put_manager mh T)
       ((if token_type t = READ_BARRIER then bm_remove_read_barrier else bm_remove_write_barrier)
          (barrier_id t) (pt_manager T) (ctxs (pt_world T)))"

section \<open>Insert contexts\<close>

datatype run_action = RunAgain | Returned int

text \<open>The loop of \<^verbatim>\<open>release_all_barriers\<close>, which works from the back.\<close>

partial_function (option) release_all_barriers :: "ctx_ptr \<Rightarrow> ('a, 'k, 'v) pull_tree \<Rightarrow> ('a, 'k, 'v) pull_tree option" where
  "release_all_barriers c T =
     (let ts = obtained_barriers (the_ctx c T) in
      if ts = [] then Some T
      else pt_remove_barrier (last ts) (upd_ctx (\<lambda>x. x\<lparr>obtained_barriers := butlast ts\<rparr>) c T) \<bind> release_all_barriers c)"

definition insert_context_new :: "buf_ptr \<Rightarrow> buf_ptr \<Rightarrow> ('k, 'v) insert_context" where
  "insert_context_new b b2 = \<lparr>ic_node_ref = -1, ic_buffer = b, ic_buffer_2 = b2, ic_current_node = None, ic_request = 0,
     pending_parent_nodes = [], write_back_completion_count = 0, write_back_completion_target = 0, child_node_split = False,
     ic_split = None, free_slot_available_in_parent = False, parent_boundary_update = False, refer_to_root = False,
     optimistic = True, next_visit_is_leaf_node = False, current_node_level = 0, last_state_1 = False\<rparr>"

definition insert_init :: "req_ptr \<Rightarrow> ctx_ptr \<Rightarrow> ('k, 'v) insert_context \<Rightarrow> ('a, 'k, 'v) pull_tree \<Rightarrow> ('a, 'k, 'v) pull_tree" where
  "insert_init r c i T =
     upd_ctx reset_state c
       (put_insert c (i\<lparr>ic_request := r, ic_node_ref := -1, free_slot_available_in_parent := False, refer_to_root := False,
          optimistic := True, pending_parent_nodes := [], next_visit_is_leaf_node := pt_depth T = 1,
          current_node_level := pt_depth T\<rparr>) T)"

definition insert_case_0 :: "ctx_ptr \<Rightarrow> ('k, 'v) insert_context \<Rightarrow> ('a, 'k, 'v) pull_tree \<Rightarrow> (run_action \<times> ('a, 'k, 'v) pull_tree) option" where
  "insert_case_0 c i0 T =
     (let i1 = i0\<lparr>last_state_1 := False\<rparr>;
          i = (if ic_node_ref i1 = -1
               then i1\<lparr>refer_to_root := True, ic_node_ref := pt_root T, current_node_level := pt_depth T\<rparr> else i1);
          T1 = upd_ctx (set_next_state 10001) c (put_insert c i T)
      in do {
        (obtained_barrier, T2) \<leftarrow> pt_request_barrier (if optimistic i \<and> \<not> next_visit_is_leaf_node i then READ_BARRIER else WRITE_BARRIER)
                                    (ic_node_ref i) c T1;
        if obtained_barrier then map_option (Pair RunAgain) (pt_transition c T2)
        else Some (Returned CONTEXT_TRANSIT, T2) })"

text \<open>Release all barriers but the given ones, which are taken off the back and put back in order.\<close>

definition release_but :: "barrier_token list \<Rightarrow> ctx_ptr \<Rightarrow> ('a, 'k, 'v) pull_tree \<Rightarrow> ('a, 'k, 'v) pull_tree option" where
  "release_but kept c T =
     do { T1 \<leftarrow> release_all_barriers c (upd_ctx (\<lambda>x. x\<lparr>obtained_barriers := take (length (obtained_barriers x) - length kept) (obtained_barriers x)\<rparr>) c T);
          Some (upd_ctx (\<lambda>x. x\<lparr>obtained_barriers := obtained_barriers x @ kept\<rparr>) c T1) }"

definition insert_case_10001 :: "ctx_ptr \<Rightarrow> ('k, 'v) insert_context \<Rightarrow> ('a, 'k, 'v) pull_tree \<Rightarrow> (run_action \<times> ('a, 'k, 'v) pull_tree) option" where
  "insert_case_10001 c i0 T =
     (let i = i0\<lparr>last_state_1 := False\<rparr>; ts = obtained_barriers (the_ctx c T); n = length ts in
      if refer_to_root i \<and> ts = [] then None
      else if refer_to_root i \<and> barrier_id (last ts) \<noteq> pt_root T then
        do { T1 \<leftarrow> release_all_barriers c T;
             map_option (Pair RunAgain) (pt_goto 0 c (put_insert c (i\<lparr>refer_to_root := True, ic_node_ref := -1\<rparr>) T1)) }
      else
        do { let i' = i\<lparr>refer_to_root := False\<rparr>;
             T1 \<leftarrow> (if optimistic i' then if n = 0 then None else release_but (drop (n - 1) ts) c T
                    else if free_slot_available_in_parent i' \<and> \<not> parent_boundary_update i'
                    then if n < 2 then None else release_but (drop (n - 2) ts) c T
                    else Some T);
             map_option (Pair RunAgain) (pt_goto 1 c (put_insert c i' T1)) })"

definition insert_case_1 :: "('a, 'k, 'v) pull_cfg \<Rightarrow> ctx_ptr \<Rightarrow> ('k, 'v) insert_context \<Rightarrow> ('a, 'k, 'v) pull_tree
    \<Rightarrow> (run_action \<times> ('a, 'k, 'v) pull_tree) option" where
  "insert_case_1 F c i T =
     (if last_state_1 i then None
      else map_option (Pair (Returned CONTEXT_TRANSIT))
             (pt_asynch_read F (ic_node_ref i) (ic_buffer i) c
                (upd_ctx (set_next_state 2) c (put_insert c (i\<lparr>last_state_1 := True\<rparr>) T))))"

text \<open>
  State 2 with a leaf in the buffer.  The constructor of the new leaf of a split allocates an
  address; \<^verbatim>\<open>split_.left\<close> and \<^verbatim>\<open>current_node_\<close> point to the same node.
\<close>

definition insert_case_2_leaf :: "('a, 'k::linorder, 'v) pull_cfg \<Rightarrow> ctx_ptr \<Rightarrow> ('k, 'v) insert_context \<Rightarrow> ('a, 'k, 'v) pull_tree
    \<Rightarrow> (run_action \<times> ('a, 'k, 'v) pull_tree) option" where
  "insert_case_2_leaf F c i T =
     (let ts = obtained_barriers (the_ctx c T); CAPACITY = cf_capacity F; rq = pt_requests T (ic_request i) in
      if current_node_level i \<noteq> 1 \<or> ts = [] \<or> token_type (last ts) \<noteq> WRITE_BARRIER then None
      else do {
        l \<leftarrow> leaf_deserialize (cf_entry F) (buffers (pt_world T) (ic_buffer i)) (new_leaf CAPACITY (-1));
        if optimistic i \<and> leaf_size l = CAPACITY
        then map_option (Pair RunAgain) (pt_goto 13 c (put_insert c (i\<lparr>ic_current_node := None\<rparr>) T))
        else do {
          must_split \<leftarrow> leaf_must_split CAPACITY (rq_key rq) l;
          let (right_rep, T1) = (if must_split then pt_allocate F T else (-1, T));
          (l', sp) \<leftarrow> leaf_insert_with_split_support CAPACITY right_rep (rq_key rq) (rq_value rq) l;
          case sp of
            None \<Rightarrow>
              do { T2 \<leftarrow> pt_serialize F (LeafN l') (ic_buffer i) T1;
                   T3 \<leftarrow> pt_asynch_write F (ic_node_ref i) (ic_buffer i) c
                           (upd_ctx (set_next_state 10) c
                             (put_insert c (i\<lparr>child_node_split := False, ic_current_node := None, write_back_completion_target := 1,
                                              write_back_completion_count := 0\<rparr>) T2));
                   Some (Returned CONTEXT_TRANSIT, T3) }
          | Some p \<Rightarrow>
              do { T2 \<leftarrow> pt_serialize F (LeafN l') (ic_buffer i) T1;
                   T3 \<leftarrow> pt_serialize F (LeafN (split_right p)) (ic_buffer_2 i) T2;
                   let T4 = upd_ctx (set_next_state (if leaf_self l' = pt_root T3 then 12 else 10)) c
                              (put_insert c (i\<lparr>child_node_split := True, ic_current_node := Some (LeafN l'),
                                 ic_split := Some \<lparr>split_left = LeafN (split_left p), split_right = LeafN (split_right p), boundary_key = boundary_key p\<rparr>,
                                 write_back_completion_target := 2, write_back_completion_count := 0\<rparr>) T3);
                   T5 \<leftarrow> pt_asynch_write F (ic_node_ref i) (ic_buffer i) c T4;
                   T6 \<leftarrow> pt_asynch_write F (leaf_self (split_right p)) (ic_buffer_2 i) c T5;
                   Some (Returned CONTEXT_TRANSIT, T6) } } })"

definition insert_case_2_inner :: "('a, 'k::linorder, 'v) pull_cfg \<Rightarrow> ctx_ptr \<Rightarrow> ('k, 'v) insert_context \<Rightarrow> ('a, 'k, 'v) pull_tree
    \<Rightarrow> (run_action \<times> ('a, 'k, 'v) pull_tree) option" where
  "insert_case_2_inner F c i T =
     (let rq = pt_requests T (ic_request i) in
      do {
        inner_node \<leftarrow> inner_deserialize (cf_key F) (buffers (pt_world T) (ic_buffer i)) (new_inner (cf_capacity F) (-1));
        index \<leftarrow> locate_child_index inner_node (rq_key rq);
        let exceed_left_boundary = index < 0;
        if exceed_left_boundary \<and> optimistic i
        then map_option (Pair RunAgain) (pt_goto 13 c (put_insert c (i\<lparr>ic_current_node := None\<rparr>) T))
        else do {
          let target_node_index = (if index < 0 then 0 else index);
          n \<leftarrow> (if exceed_left_boundary then inner_set_first_key (rq_key rq) inner_node else Some inner_node);
          child \<leftarrow> get_child_rep n target_node_index;
          map_option (Pair RunAgain)
            (pt_goto 0 c
              (put_insert c (i\<lparr>pending_parent_nodes := pending_parent_nodes i @ [(n, target_node_index)], ic_current_node := None,
                 ic_node_ref := child, free_slot_available_in_parent := has_free_slot (cf_capacity F) n,
                 parent_boundary_update := exceed_left_boundary, next_visit_is_leaf_node := current_node_level i = 2,
                 current_node_level := current_node_level i - 1\<rparr>) T)) } })"

definition insert_case_10 :: "ctx_ptr \<Rightarrow> ('k, 'v) insert_context \<Rightarrow> ('a, 'k, 'v) pull_tree \<Rightarrow> (run_action \<times> ('a, 'k, 'v) pull_tree) option" where
  "insert_case_10 c i0 T =
     (let i = i0\<lparr>last_state_1 := False, write_back_completion_count := write_back_completion_count i0 + 1\<rparr> in
      if write_back_completion_count i = write_back_completion_target i
      then map_option (Pair RunAgain) (pt_goto 9 c (put_insert c i T))
      else Some (Returned CONTEXT_TRANSIT, put_insert c i T))"

text \<open>
  State 9 after the child was split: the parent takes up the new node, and is split itself when
  it is full.  With no parent left the code falls through to state 10.
\<close>

definition insert_case_9_split :: "('a, 'k::linorder, 'v) pull_cfg \<Rightarrow> ctx_ptr \<Rightarrow> ('k, 'v) insert_context \<Rightarrow> ('a, 'k, 'v) pull_tree
    \<Rightarrow> (run_action \<times> ('a, 'k, 'v) pull_tree) option" where
  "insert_case_9_split F c i T =
     (if pending_parent_nodes i = [] then insert_case_10 c i T
      else do {
        let (parent_node, position) = last (pending_parent_nodes i);
        let i1 = i\<lparr>pending_parent_nodes := butlast (pending_parent_nodes i), ic_node_ref := inner_self parent_node\<rparr>;
        sp \<leftarrow> ic_split i1;
        let (right_rep, T1) = (if inner_size parent_node < cf_capacity F then (-1, T) else pt_allocate F T);
        (n, res) \<leftarrow> inner_take_split (cf_capacity F) right_rep position (boundary_key sp) (node_self (split_right sp)) parent_node;
        case res of
          None \<Rightarrow>
            do { T2 \<leftarrow> pt_serialize F (InnerN n) (ic_buffer i) T1;
                 T3 \<leftarrow> pt_asynch_write F (inner_self n) (ic_buffer i) c
                         (upd_ctx (set_next_state 10) c
                           (put_insert c (i1\<lparr>child_node_split := False, ic_current_node := None, ic_split := None,
                              write_back_completion_count := 0, write_back_completion_target := 1\<rparr>) T2));
                 Some (Returned CONTEXT_TRANSIT, T3) }
        | Some p \<Rightarrow>
            do { T2 \<leftarrow> pt_serialize F (InnerN (split_left p)) (ic_buffer i) T1;
                 T3 \<leftarrow> pt_serialize F (InnerN (split_right p)) (ic_buffer_2 i) T2;
                 let T4 = upd_ctx (set_next_state (if pt_root T3 \<noteq> inner_self (split_left p) then 10 else 12)) c
                            (put_insert c (i1\<lparr>child_node_split := True, ic_current_node := Some (InnerN n),
                               ic_split := Some \<lparr>split_left = InnerN (split_left p), split_right = InnerN (split_right p), boundary_key = boundary_key p\<rparr>,
                               write_back_completion_count := 0, write_back_completion_target := 2\<rparr>) T3);
                 T5 \<leftarrow> pt_asynch_write F (inner_self (split_left p)) (ic_buffer i) c T4;
                 T6 \<leftarrow> pt_asynch_write F (inner_self (split_right p)) (ic_buffer_2 i) c T5;
                 Some (Returned CONTEXT_TRANSIT, T6) } })"

text \<open>Without a split: parents are dropped from the back up to one that was modified.\<close>

function pop_modified :: "('k inner_node \<times> int) list \<Rightarrow> 'k inner_node option \<times> ('k inner_node \<times> int) list" where
  "pop_modified ps =
     (if ps = [] then (None, [])
      else if inner_modified (fst (last ps)) then (Some (fst (last ps)), butlast ps)
      else pop_modified (butlast ps))"
  by pat_completeness auto
termination
  by (relation "measure length") auto

declare pop_modified.simps [simp del]

definition insert_case_9 :: "('a, 'k::linorder, 'v) pull_cfg \<Rightarrow> ctx_ptr \<Rightarrow> ('k, 'v) insert_context \<Rightarrow> ('a, 'k, 'v) pull_tree
    \<Rightarrow> (run_action \<times> ('a, 'k, 'v) pull_tree) option" where
  "insert_case_9 F c i0 T =
     (let i = i0\<lparr>last_state_1 := False\<rparr> in
      if child_node_split i then insert_case_9_split F c i T
      else case pop_modified (pending_parent_nodes i) of
        (Some parent_node, ps) \<Rightarrow>
          do { T1 \<leftarrow> pt_serialize F (InnerN parent_node) (ic_buffer i) T;
               T2 \<leftarrow> pt_asynch_write F (inner_self parent_node) (ic_buffer i) c
                       (upd_ctx (set_next_state 10) c
                         (put_insert c (i\<lparr>pending_parent_nodes := ps, write_back_completion_target := 1, write_back_completion_count := 0\<rparr>) T1));
               Some (Returned CONTEXT_TRANSIT, T2) }
      | (None, ps) \<Rightarrow> map_option (Pair RunAgain) (pt_goto 11 c (put_insert c (i\<lparr>pending_parent_nodes := ps\<rparr>) T)))"

text \<open>The end of a request: call back, counters, semaphore, deletion.\<close>

definition finish_request :: "req_ptr \<Rightarrow> ('a, 'k, 'v) pull_tree \<Rightarrow> ('a, 'k, 'v) pull_tree" where
  "finish_request r T =
     (let rq = pt_requests T r in
      upd_request (\<lambda>q. q\<lparr>rq_released := rq_semaphore q \<or> rq_released q, rq_deleted := rq_ownership q \<or> rq_deleted q\<rparr>) r
        (T\<lparr>callbacks := (if rq_cb rq then callbacks T @ [r] else callbacks T),
           pending_request := pending_request T - 1, free_context_slots := free_context_slots T + 1\<rparr>))"

definition insert_case_11 :: "ctx_ptr \<Rightarrow> ('k, 'v) insert_context \<Rightarrow> ('a, 'k, 'v) pull_tree \<Rightarrow> (run_action \<times> ('a, 'k, 'v) pull_tree) option" where
  "insert_case_11 c i T =
     do { T1 \<leftarrow> release_all_barriers c (put_insert c (i\<lparr>last_state_1 := False\<rparr>) T);
          let T2 = finish_request (ic_request i) T1;
          Some (Returned CONTEXT_TERMINATED, T2\<lparr>free_insert_contexts := c # free_insert_contexts T2\<rparr>) }"

definition insert_case_12 :: "('a, 'k::linorder, 'v) pull_cfg \<Rightarrow> ctx_ptr \<Rightarrow> ('k, 'v) insert_context \<Rightarrow> ('a, 'k, 'v) pull_tree
    \<Rightarrow> (run_action \<times> ('a, 'k, 'v) pull_tree) option" where
  "insert_case_12 F c i0 T =
     (let i = i0\<lparr>last_state_1 := False, write_back_completion_count := write_back_completion_count i0 + 1\<rparr> in
      if write_back_completion_count i = write_back_completion_target i
      then do {
        sp \<leftarrow> ic_split i;
        let (a, T1) = pt_allocate F T;
        lk \<leftarrow> node_leftmost_key (split_left sp);
        rk \<leftarrow> node_leftmost_key (split_right sp);
        n \<leftarrow> new_inner_of (cf_capacity F) a (lk, node_self (split_left sp)) (rk, node_self (split_right sp));
        let T2 = T1\<lparr>pt_root := a, pt_depth := pt_depth T1 + 1\<rparr>;
        T3 \<leftarrow> pt_serialize F (InnerN (inner_mark n)) (ic_buffer i) T2;
        T4 \<leftarrow> pt_asynch_write F a (ic_buffer i) c
                (upd_ctx (set_next_state 11) c
                  (put_insert c (i\<lparr>write_back_completion_count := 0, write_back_completion_target := 1, child_node_split := False\<rparr>) T3));
        Some (Returned CONTEXT_TRANSIT, T4) }
      else Some (Returned CONTEXT_TRANSIT, put_insert c i T))"

definition insert_case_13 :: "ctx_ptr \<Rightarrow> ('k, 'v) insert_context \<Rightarrow> ('a, 'k, 'v) pull_tree \<Rightarrow> (run_action \<times> ('a, 'k, 'v) pull_tree) option" where
  "insert_case_13 c i T =
     do { T1 \<leftarrow> release_all_barriers c T;
          map_option (Pair RunAgain)
            (pt_goto 0 c (put_insert c (i\<lparr>last_state_1 := False, optimistic := False, free_slot_available_in_parent := False,
               refer_to_root := False, next_visit_is_leaf_node := pt_depth T = 1, current_node_level := pt_depth T, ic_node_ref := -1\<rparr>) T1)) }"

text \<open>An unknown node type in state 2 falls through to state 9; an unknown state fails the assertion.\<close>

definition insert_case_2 :: "('a, 'k::linorder, 'v) pull_cfg \<Rightarrow> ctx_ptr \<Rightarrow> ('k, 'v) insert_context \<Rightarrow> ('a, 'k, 'v) pull_tree
    \<Rightarrow> (run_action \<times> ('a, 'k, 'v) pull_tree) option" where
  "insert_case_2 F c i0 T =
     (let i = i0\<lparr>last_state_1 := False\<rparr> in
      do { node_type \<leftarrow> buf_read 0 4 (buffers (pt_world T) (ic_buffer i));
           if le_int node_type = LEAF_NODE then insert_case_2_leaf F c i T
           else if le_int node_type = INNER_NODE then insert_case_2_inner F c i T
           else insert_case_9 F c i T })"

definition insert_case :: "('a, 'k::linorder, 'v) pull_cfg \<Rightarrow> int \<Rightarrow> ctx_ptr \<Rightarrow> ('k, 'v) insert_context \<Rightarrow> ('a, 'k, 'v) pull_tree
    \<Rightarrow> (run_action \<times> ('a, 'k, 'v) pull_tree) option" where
  "insert_case F st c i T =
     (if st = 0 then insert_case_0 c i T
      else if st = 10001 then insert_case_10001 c i T
      else if st = 1 then insert_case_1 F c i T
      else if st = 2 then insert_case_2 F c i T
      else if st = 9 then insert_case_9 F c i T
      else if st = 10 then insert_case_10 c i T
      else if st = 11 then insert_case_11 c i T
      else if st = 12 then insert_case_12 F c i T
      else if st = 13 then insert_case_13 c i T
      else None)"

partial_function (option) insert_run :: "('a, 'k::linorder, 'v) pull_cfg \<Rightarrow> ctx_ptr \<Rightarrow> ('a, 'k, 'v) pull_tree \<Rightarrow> (int \<times> ('a, 'k, 'v) pull_tree) option" where
  "insert_run F c T =
     (case pt_objects T c of
        SearchCtx _ \<Rightarrow> None
      | InsertCtx i \<Rightarrow>
          insert_case F (current_state (the_ctx c T)) c i T \<bind> (\<lambda>(a, T').
          case a of RunAgain \<Rightarrow> insert_run F c T' | Returned r \<Rightarrow> Some (r, T')))"

section \<open>Search contexts\<close>

definition search_context_new :: "nat \<Rightarrow> buf_ptr \<Rightarrow> ('k, 'v) search_context" where
  "search_context_new CAPACITY b = \<lparr>sc_node_ref = -1, sc_buffer = b, sc_request = 0, sc_leaf_node = new_leaf CAPACITY (-1),
     sc_inner_node = new_inner CAPACITY (-1)\<rparr>"

definition search_init :: "req_ptr \<Rightarrow> ctx_ptr \<Rightarrow> ('k, 'v) search_context \<Rightarrow> ('a, 'k, 'v) pull_tree \<Rightarrow> ('a, 'k, 'v) pull_tree" where
  "search_init r c i T = upd_ctx reset_state c (put_search c (i\<lparr>sc_request := r, sc_node_ref := pt_root T\<rparr>) T)"

definition search_case_0 :: "ctx_ptr \<Rightarrow> ('k, 'v) search_context \<Rightarrow> ('a, 'k, 'v) pull_tree \<Rightarrow> (run_action \<times> ('a, 'k, 'v) pull_tree) option" where
  "search_case_0 c i T =
     do { (obtained, T1) \<leftarrow> pt_request_barrier READ_BARRIER (sc_node_ref i) c (upd_ctx (set_next_state 1) c T);
          if obtained then map_option (Pair RunAgain) (pt_transition c T1) else Some (Returned CONTEXT_TRANSIT, T1) }"

text \<open>The barrier of the parent is given back before its token is taken off the front.\<close>

definition search_case_1 :: "('a, 'k, 'v) pull_cfg \<Rightarrow> ctx_ptr \<Rightarrow> ('k, 'v) search_context \<Rightarrow> ('a, 'k, 'v) pull_tree
    \<Rightarrow> (run_action \<times> ('a, 'k, 'v) pull_tree) option" where
  "search_case_1 F c i T =
     (let ts = obtained_barriers (the_ctx c T) in
      if 2 < length ts then None
      else do {
        T1 \<leftarrow> (if length ts = 2
               then map_option (upd_ctx (\<lambda>x. x\<lparr>obtained_barriers := tl (obtained_barriers x)\<rparr>) c)
                      (pt_remove_barrier \<lparr>barrier_id = barrier_id (hd ts), token_type = READ_BARRIER\<rparr> T)
               else Some T);
        map_option (Pair (Returned CONTEXT_TRANSIT)) (pt_asynch_read F (sc_node_ref i) (sc_buffer i) c (upd_ctx (set_next_state 2) c T1)) })"

fun remove_read_barriers :: "barrier_token list \<Rightarrow> ('a, 'k, 'v) pull_tree \<Rightarrow> ('a, 'k, 'v) pull_tree option" where
  "remove_read_barriers [] T = Some T"
| "remove_read_barriers (t # ts) T =
     pt_remove_barrier \<lparr>barrier_id = barrier_id t, token_type = READ_BARRIER\<rparr> T \<bind> remove_read_barriers ts"

text \<open>The end of a search: the result was stored; barriers, request and context are given back.\<close>

definition search_finish :: "ctx_ptr \<Rightarrow> ('k, 'v) search_context \<Rightarrow> ('a, 'k, 'v) pull_tree \<Rightarrow> (run_action \<times> ('a, 'k, 'v) pull_tree) option" where
  "search_finish c i T =
     do { T1 \<leftarrow> remove_read_barriers (obtained_barriers (the_ctx c T)) T;
          let T2 = finish_request (sc_request i) (upd_ctx (\<lambda>x. x\<lparr>obtained_barriers := []\<rparr>) c T1);
          Some (Returned CONTEXT_TERMINATED, T2\<lparr>free_search_contexts := c # free_search_contexts T2\<rparr>) }"

definition search_case_2_leaf :: "('a, 'k::linorder, 'v) pull_cfg \<Rightarrow> ctx_ptr \<Rightarrow> ('k, 'v) search_context \<Rightarrow> ('a, 'k, 'v) pull_tree
    \<Rightarrow> (run_action \<times> ('a, 'k, 'v) pull_tree) option" where
  "search_case_2_leaf F c i T =
     do { l \<leftarrow> leaf_deserialize (cf_entry F) (buffers (pt_world T) (sc_buffer i)) (sc_leaf_node i);
          v \<leftarrow> leaf_search l (rq_key (pt_requests T (sc_request i)));
          let T1 = upd_request (\<lambda>q. case v of None \<Rightarrow> q\<lparr>rq_found := False\<rparr> | Some x \<Rightarrow> q\<lparr>rq_found := True, rq_value := x\<rparr>)
                     (sc_request i) (put_search c (i\<lparr>sc_leaf_node := l\<rparr>) T);
          search_finish c i T1 }"

definition search_case_2_inner :: "('a, 'k::linorder, 'v) pull_cfg \<Rightarrow> ctx_ptr \<Rightarrow> ('k, 'v) search_context \<Rightarrow> ('a, 'k, 'v) pull_tree
    \<Rightarrow> (run_action \<times> ('a, 'k, 'v) pull_tree) option" where
  "search_case_2_inner F c i T =
     do { n \<leftarrow> inner_deserialize (cf_key F) (buffers (pt_world T) (sc_buffer i)) (sc_inner_node i);
          child_index \<leftarrow> locate_child_index n (rq_key (pt_requests T (sc_request i)));
          if child_index < 0
          then search_finish c i (upd_request (\<lambda>q. q\<lparr>rq_found := False\<rparr>) (sc_request i) (put_search c (i\<lparr>sc_inner_node := n\<rparr>) T))
          else do { child \<leftarrow> get_child_rep n child_index;
                    map_option (Pair RunAgain) (pt_goto 0 c (put_search c (i\<lparr>sc_inner_node := n, sc_node_ref := child\<rparr>) T)) } }"

definition search_case :: "('a, 'k::linorder, 'v) pull_cfg \<Rightarrow> int \<Rightarrow> ctx_ptr \<Rightarrow> ('k, 'v) search_context \<Rightarrow> ('a, 'k, 'v) pull_tree
    \<Rightarrow> (run_action \<times> ('a, 'k, 'v) pull_tree) option" where
  "search_case F st c i T =
     (if st = 0 then search_case_0 c i T
      else if st = 1 then search_case_1 F c i T
      else if st = 2 then
        do { node_type \<leftarrow> buf_read 0 4 (buffers (pt_world T) (sc_buffer i));
             if le_int node_type = LEAF_NODE then search_case_2_leaf F c i T
             else if le_int node_type = INNER_NODE then search_case_2_inner F c i T
             else None }
      else None)"

partial_function (option) search_run :: "('a, 'k::linorder, 'v) pull_cfg \<Rightarrow> ctx_ptr \<Rightarrow> ('a, 'k, 'v) pull_tree \<Rightarrow> (int \<times> ('a, 'k, 'v) pull_tree) option" where
  "search_run F c T =
     (case pt_objects T c of
        InsertCtx _ \<Rightarrow> None
      | SearchCtx i \<Rightarrow>
          search_case F (current_state (the_ctx c T)) c i T \<bind> (\<lambda>(a, T').
          case a of RunAgain \<Rightarrow> search_run F c T' | Returned r \<Rightarrow> Some (r, T')))"

text \<open>The virtual call \<^verbatim>\<open>context->run()\<close>.\<close>

definition context_run :: "('a, 'k::linorder, 'v) pull_cfg \<Rightarrow> ctx_ptr \<Rightarrow> ('a, 'k, 'v) pull_tree \<Rightarrow> (int \<times> ('a, 'k, 'v) pull_tree) option" where
  "context_run F c T = (case pt_objects T c of InsertCtx _ \<Rightarrow> insert_run F c T | SearchCtx _ \<Rightarrow> search_run F c T)"

section \<open>The tree\<close>

definition pull_new :: "nat \<Rightarrow> 'a io_world \<Rightarrow> (req_ptr \<Rightarrow> ('k, 'v) request) \<Rightarrow> ('a, 'k, 'v) pull_tree" where
  "pull_new qlen w rqs = \<lparr>pt_world = w, pt_manager = barrier_manager_new, pt_root = -1, pt_depth = 0,
     pt_objects = (\<lambda>_. InsertCtx (insert_context_new 0 0)), pt_requests = rqs, request_queue = [], working_thread_terminate_flag = False,
     free_context_slots = int qlen, pending_request = 0, pt_queue_length = qlen, free_insert_contexts = [], free_search_contexts = [],
     callbacks = [], next_object = 0, next_buffer = 0\<rparr>"

text \<open>
  \<^verbatim>\<open>asynchronous_search_with_callback\<close> and \<^verbatim>\<open>asynchronous_insert_with_callback\<close>, up to the first attempt
  to push the request: it fails when the queue of 256 elements is full, and is repeated then.
\<close>

definition request_queue_capacity :: nat where "request_queue_capacity = 256"

definition push_request :: "req_ptr \<Rightarrow> ('a, 'k, 'v) pull_tree \<Rightarrow> bool \<times> ('a, 'k, 'v) pull_tree" where
  "push_request r T =
     (if length (request_queue T) < request_queue_capacity then (True, T\<lparr>request_queue := request_queue T @ [r]\<rparr>) else (False, T))"

definition asynchronous_search_with_callback :: "req_ptr \<Rightarrow> ('a, 'k, 'v) pull_tree \<Rightarrow> bool \<times> ('a, 'k, 'v) pull_tree" where
  "asynchronous_search_with_callback r T = push_request r (T\<lparr>pending_request := pending_request T + 1\<rparr>)"

definition asynchronous_insert_with_callback :: "req_ptr \<Rightarrow> ('a, 'k, 'v) pull_tree \<Rightarrow> bool \<times> ('a, 'k, 'v) pull_tree" where
  "asynchronous_insert_with_callback r T = push_request r (T\<lparr>pending_request := pending_request T + 1\<rparr>)"

definition get_pending_requests :: "('a, 'k, 'v) pull_tree \<Rightarrow> int" where
  "get_pending_requests T = pending_request T"

definition atomic_dequeue_request :: "('a, 'k, 'v) pull_tree \<Rightarrow> req_ptr option \<times> ('a, 'k, 'v) pull_tree" where
  "atomic_dequeue_request T =
     (case request_queue T of [] \<Rightarrow> (None, T) | r # rs \<Rightarrow> (Some r, T\<lparr>request_queue := rs\<rparr>))"

definition get_free_search_context :: "('a, 'k, 'v) pull_tree \<Rightarrow> (ctx_ptr \<times> ('a, 'k, 'v) pull_tree) option" where
  "get_free_search_context T =
     (case free_search_contexts T of [] \<Rightarrow> None | c # cs \<Rightarrow> Some (c, T\<lparr>free_search_contexts := cs\<rparr>))"

definition get_free_insert_context :: "('a, 'k, 'v) pull_tree \<Rightarrow> (ctx_ptr \<times> ('a, 'k, 'v) pull_tree) option" where
  "get_free_insert_context T =
     (case free_insert_contexts T of [] \<Rightarrow> None | c # cs \<Rightarrow> Some (c, T\<lparr>free_insert_contexts := cs\<rparr>))"

text \<open>One round of the loop of \<^verbatim>\<open>create_free_contexts\<close>: two new contexts with three buffers.\<close>

definition create_free_context :: "nat \<Rightarrow> ('a, 'k, 'v) pull_tree \<Rightarrow> ('a, 'k, 'v) pull_tree" where
  "create_free_context CAPACITY T =
     (let c = next_object T; d = c + 1; b = next_buffer T;
          w = (pt_world T)\<lparr>ctxs := (ctxs (pt_world T))(c := call_back_new, d := call_back_new)\<rparr>
      in T\<lparr>pt_world := w,
           pt_objects := (pt_objects T)(c := InsertCtx (insert_context_new b (b + 1)), d := SearchCtx (search_context_new CAPACITY (b + 2))),
           free_insert_contexts := c # free_insert_contexts T, free_search_contexts := d # free_search_contexts T,
           next_object := d + 1, next_buffer := b + 3\<rparr>)"

fun create_free_contexts :: "nat \<Rightarrow> nat \<Rightarrow> ('a, 'k, 'v) pull_tree \<Rightarrow> ('a, 'k, 'v) pull_tree" where
  "create_free_contexts CAPACITY 0 T = T"
| "create_free_contexts CAPACITY (Suc n) T = create_free_contexts CAPACITY n (create_free_context CAPACITY T)"

text \<open>The loop of \<^verbatim>\<open>destroy_free_contexts\<close>; taking the top of an empty stack is undefined.\<close>

fun destroy_free_contexts :: "nat \<Rightarrow> ('a, 'k, 'v) pull_tree \<Rightarrow> ('a, 'k, 'v) pull_tree option" where
  "destroy_free_contexts 0 T = Some T"
| "destroy_free_contexts (Suc n) T =
     (if free_search_contexts T = [] \<or> free_insert_contexts T = [] then None
      else destroy_free_contexts n (T\<lparr>free_search_contexts := tl (free_search_contexts T), free_insert_contexts := tl (free_insert_contexts T)\<rparr>))"

section \<open>Schedulers\<close>

record scheduler =
  context_id_generator :: "64 word"
  admission_contexts :: "ctx_ptr list"
  last_probe_tick :: "64 word"

definition scheduler_new :: scheduler where
  "scheduler_new = \<lparr>context_id_generator = 0, admission_contexts = [], last_probe_tick = 0\<rparr>"

definition admit :: "req_ptr \<Rightarrow> scheduler \<times> ('a, 'k, 'v) pull_tree \<Rightarrow> (scheduler \<times> ('a, 'k, 'v) pull_tree) option" where
  "admit r ST =
     (case ST of (S, T) \<Rightarrow>
      do { (c, T1) \<leftarrow> (if rq_type (pt_requests T r) = SEARCH_REQUEST
              then do { (c, T1) \<leftarrow> get_free_search_context T;
                        case pt_objects T1 c of SearchCtx i \<Rightarrow> Some (c, search_init r c i T1) | _ \<Rightarrow> None }
              else do { (c, T1) \<leftarrow> get_free_insert_context T;
                        case pt_objects T1 c of InsertCtx i \<Rightarrow> Some (c, insert_init r c i T1) | _ \<Rightarrow> None });
           let T2 = upd_ctx (set_id (context_id_generator S)) c T1;
           Some (S\<lparr>context_id_generator := context_id_generator S + 1, admission_contexts := admission_contexts S @ [c]\<rparr>,
                 T2\<lparr>free_context_slots := free_context_slots T2 - 1\<rparr>) })"

text \<open>The loop takes requests off the queue; the second argument counts the free slots down.\<close>

fun admission_loop :: "int \<Rightarrow> int \<Rightarrow> int \<Rightarrow> req_ptr list \<Rightarrow> scheduler \<times> ('a, 'k, 'v) pull_tree \<Rightarrow> (int \<times> scheduler \<times> ('a, 'k, 'v) pull_tree) option" where
  "admission_loop mx free processed [] ST = Some (processed, ST)"
| "admission_loop mx free processed (r # rs) ST =
     (if processed < mx \<and> free \<noteq> 0
      then admit r (fst ST, (snd ST)\<lparr>request_queue := rs\<rparr>) \<bind> admission_loop mx (free - 1) (processed + 1) rs
      else Some (processed, ST))"

definition admission :: "int \<Rightarrow> scheduler \<times> ('a, 'k, 'v) pull_tree \<Rightarrow> (int \<times> scheduler \<times> ('a, 'k, 'v) pull_tree) option" where
  "admission mx ST = admission_loop mx (free_context_slots (snd ST)) 0 (request_queue (snd ST)) ST"

definition ctx_compare :: "call_back_context \<Rightarrow> call_back_context \<Rightarrow> bool" where
  "ctx_compare l r \<longleftrightarrow> (if tag l = tag r then ctx_id l < ctx_id r else tag l < tag r)"

text \<open>\<^verbatim>\<open>std::sort\<close> by \<^verbatim>\<open>compare\<close>: by the tag, and by the identifier where the tags are equal.\<close>

definition sort_contexts :: "ctx_heap \<Rightarrow> ctx_ptr list \<Rightarrow> ctx_ptr list" where
  "sort_contexts h cs = sort_key (\<lambda>c. tag (h c)) (sort_key (\<lambda>c. ctx_id (h c)) cs)"

text \<open>
  The contexts to be processed and the ones that stay: the counter that is compared with \<open>mx\<close> is
  not changed by the loop, so all contexts are taken whenever \<open>mx\<close> is positive.
\<close>

definition take_ready :: "int \<Rightarrow> bool \<Rightarrow> ctx_heap \<Rightarrow> ctx_ptr list \<Rightarrow> ctx_ptr list \<times> ctx_ptr list" where
  "take_ready mx srt h cs =
     (let cs' = (if srt then sort_contexts h cs else cs) in if 0 < mx then (cs', []) else ([], cs'))"

fun run_contexts :: "('a, 'k::linorder, 'v) pull_cfg \<Rightarrow> ctx_ptr list \<Rightarrow> ('a, 'k, 'v) pull_tree \<Rightarrow> ('a, 'k, 'v) pull_tree option" where
  "run_contexts F [] T = Some T"
| "run_contexts F (c # cs) T = context_run F c T \<bind> (\<lambda>(_, T'). run_contexts F cs T')"

definition process_blk_ready_context :: "('a, 'k::linorder, 'v) pull_cfg \<Rightarrow> int \<Rightarrow> bool \<Rightarrow> ('a, 'k, 'v) pull_tree \<Rightarrow> (int \<times> ('a, 'k, 'v) pull_tree) option" where
  "process_blk_ready_context F mx srt T =
     (let w = pt_world T; (cs, rest) = take_ready mx srt (ctxs w) (ready_contexts (cf_ops F) (accessor w)) in
      map_option (Pair (int (length cs)))
        (run_contexts F cs (T\<lparr>pt_world := w\<lparr>accessor := set_ready_contexts (cf_ops F) rest (accessor w)\<rparr>\<rparr>)))"

definition process_barrier_ready_context :: "('a, 'k::linorder, 'v) pull_cfg \<Rightarrow> int \<Rightarrow> bool \<Rightarrow> ('a, 'k, 'v) pull_tree \<Rightarrow> (int \<times> ('a, 'k, 'v) pull_tree) option" where
  "process_barrier_ready_context F mx srt T =
     (let m = pt_manager T; (cs, rest) = take_ready mx srt (ctxs (pt_world T)) (bm_ready m) in
      map_option (Pair (int (length cs))) (run_contexts F cs (T\<lparr>pt_manager := m\<lparr>bm_ready := rest\<rparr>\<rparr>)))"

definition process_new_context :: "('a, 'k::linorder, 'v) pull_cfg \<Rightarrow> int \<Rightarrow> scheduler \<times> ('a, 'k, 'v) pull_tree
    \<Rightarrow> (int \<times> scheduler \<times> ('a, 'k, 'v) pull_tree) option" where
  "process_new_context F mx ST =
     (case ST of (S, T) \<Rightarrow>
      let (cs, rest) = take_ready mx False (ctxs (pt_world T)) (admission_contexts S) in
      map_option (\<lambda>T'. (int (length cs), S\<lparr>admission_contexts := rest\<rparr>, T')) (run_contexts F cs T))"

definition probe_blk_completion :: "('a, 'k, 'v) pull_cfg \<Rightarrow> int \<Rightarrow> ('a, 'k, 'v) pull_tree \<Rightarrow> (int \<times> ('a, 'k, 'v) pull_tree) option" where
  "probe_blk_completion F mx T =
     map_option (\<lambda>(n, w). (n, T\<lparr>pt_world := w\<rparr>)) (process_completion (cf_ops F) mx (pt_world T))"

definition get_number_of_ready_context :: "('a, 'k, 'v) pull_cfg \<Rightarrow> ('a, 'k, 'v) pull_tree \<Rightarrow> nat" where
  "get_number_of_ready_context F T = length (bm_ready (pt_manager T)) + length (ready_contexts (cf_ops F) (accessor (pt_world T)))"

definition terminated :: "('a, 'k, 'v) pull_tree \<Rightarrow> bool" where
  "terminated T \<longleftrightarrow> working_thread_terminate_flag T \<and> pending_request T \<le> 0"

text \<open>One round of \<^verbatim>\<open>naive_scheduler::run\<close>.\<close>

definition naive_round :: "('a, 'k::linorder, 'v) pull_cfg \<Rightarrow> scheduler \<times> ('a, 'k, 'v) pull_tree \<Rightarrow> (scheduler \<times> ('a, 'k, 'v) pull_tree) option" where
  "naive_round F ST =
     do { (_, ST1) \<leftarrow> admission 16 ST;
          (_, S2, T2) \<leftarrow> process_new_context F 16 ST1;
          (_, T3) \<leftarrow> process_blk_ready_context F 16 True T2;
          (_, T4) \<leftarrow> probe_blk_completion F 0 T3;
          (_, T5) \<leftarrow> process_barrier_ready_context F 16 True T4;
          Some (S2, T5) }"

partial_function (option) naive_run :: "('a, 'k::linorder, 'v) pull_cfg \<Rightarrow> scheduler \<times> ('a, 'k, 'v) pull_tree \<Rightarrow> (scheduler \<times> ('a, 'k, 'v) pull_tree) option" where
  "naive_run F ST = (if terminated (snd ST) then Some ST else naive_round F ST \<bind> naive_run F)"

text \<open>
  One round of \<^verbatim>\<open>latency_aware_scheduler::run\<close>.  The accessor is probed when the last probe is long
  enough ago and either very long ago or enough commands are thought to be complete.  The
  alternative is to sleep, which changes nothing.
\<close>

definition pt_ticks :: "('a, 'k, 'v) pull_tree \<Rightarrow> 64 word \<times> ('a, 'k, 'v) pull_tree" where
  "pt_ticks T = (case ticks (pt_world T) of (t, w) \<Rightarrow> (t, T\<lparr>pt_world := w\<rparr>))"

definition latency_aware_round :: "('a, 'k::linorder, 'v) pull_cfg \<Rightarrow> scheduler \<times> ('a, 'k, 'v) pull_tree \<Rightarrow> (scheduler \<times> ('a, 'k, 'v) pull_tree) option" where
  "latency_aware_round F ST =
     do { (_, ST1) \<leftarrow> admission 16 ST;
          (_, S, T2) \<leftarrow> process_new_context F 16 ST1;
          (_, T3) \<leftarrow> process_blk_ready_context F 16 True T2;
          (_, T4) \<leftarrow> process_barrier_ready_context F 16 True T3;
          let (now, T5) = pt_ticks T4;
          (estimated_reads, w6) \<leftarrow> estimate_reads (cf_ops F) now (pt_world T5);
          (estimated_writes, w7) \<leftarrow> estimate_writes (cf_ops F) now w6;
          let T7 = T5\<lparr>pt_world := w7\<rparr>;
          if 50000 \<le> now - last_probe_tick S \<and> (500000 \<le> now - last_probe_tick S \<or> 16 \<le> estimated_reads + estimated_writes)
          then do { (_, T8) \<leftarrow> probe_blk_completion F 128 T7;
                    let (t, T9) = pt_ticks T8;
                    Some (S\<lparr>last_probe_tick := t\<rparr>, T9) }
          else Some (S, T7) }"

partial_function (option) latency_aware_run :: "('a, 'k::linorder, 'v) pull_cfg \<Rightarrow> scheduler \<times> ('a, 'k, 'v) pull_tree \<Rightarrow> (scheduler \<times> ('a, 'k, 'v) pull_tree) option" where
  "latency_aware_run F ST = (if terminated (snd ST) then Some ST else latency_aware_round F ST \<bind> latency_aware_run F)"

text \<open>The working thread.\<close>

definition schedule :: "('a, 'k::linorder, 'v) pull_cfg \<Rightarrow> ('a, 'k, 'v) pull_tree \<Rightarrow> (scheduler \<times> ('a, 'k, 'v) pull_tree) option" where
  "schedule F T = latency_aware_run F (scheduler_new, create_free_contexts (cf_capacity F) (pt_queue_length T) T)"

section \<open>The disk-optimized tree\<close>

text \<open>
  \<^verbatim>\<open>init\<close> of \<^verbatim>\<open>src/src/tree/disk_optimized_b_plus_tree.h\<close>: the file accessor is opened, the root is
  created and the working thread is started.  \<open>w\<close> is the memory the program starts with.
\<close>

definition disk_optimized_cfg :: "'k pod \<Rightarrow> ('k \<times> 'v) pod \<Rightarrow> nat \<Rightarrow> (ctx_ptr list \<Rightarrow> ctx_ptr list) \<Rightarrow> (blk_address list \<Rightarrow> blk_address)
    \<Rightarrow> (file_async, 'k, 'v) pull_cfg" where
  "disk_optimized_cfg P E c shuffle pick = \<lparr>cf_ops = file_aio shuffle pick, cf_key = P, cf_entry = E, cf_capacity = c\<rparr>"

definition create_and_init_blk_accessor :: "int \<Rightarrow> int \<Rightarrow> nat \<Rightarrow> file_async" where
  "create_and_init_blk_accessor fd err block_size =
     (let s = file_async_new block_size in s\<lparr>fa_sync := snd (file_open fd err (fa_sync s))\<rparr>)"

definition disk_optimized_init :: "'k pod \<Rightarrow> ('k::linorder \<times> 'v) pod \<Rightarrow> nat \<Rightarrow> byte list \<Rightarrow> (blk_address list \<Rightarrow> blk_address) \<Rightarrow> int \<Rightarrow> int
    \<Rightarrow> nat \<Rightarrow> file_async io_world \<Rightarrow> (req_ptr \<Rightarrow> ('k, 'v) request) \<Rightarrow> (scheduler \<times> (file_async, 'k, 'v) pull_tree) option" where
  "disk_optimized_init P E c buf pick fd err qlen w rqs =
     (let s = create_and_init_blk_accessor fd err (length buf) in
      do { V \<leftarrow> vt_init (file_ops P E c buf pick) c (fa_sync s);
           let T = pull_new qlen (w\<lparr>accessor := s\<lparr>fa_sync := store V\<rparr>\<rparr>) rqs;
           Some (scheduler_new, create_free_contexts c qlen (T\<lparr>pt_root := root_ref V, pt_depth := depth V\<rparr>)) })"

text \<open>The requests that \<^verbatim>\<open>search\<close> and \<^verbatim>\<open>insert\<close> make, with the semaphore taken.\<close>

definition disk_search_request :: "'k \<Rightarrow> 'v \<Rightarrow> ('k, 'v) request" where
  "disk_search_request k v = \<lparr>rq_type = SEARCH_REQUEST, rq_key = k, rq_ownership = False, rq_semaphore = True, rq_value = v,
     rq_found = True, rq_cb = False, rq_released = False, rq_deleted = False\<rparr>"

definition disk_insert_request :: "'k \<Rightarrow> 'v \<Rightarrow> ('k, 'v) request" where
  "disk_insert_request k v = \<lparr>rq_type = INSERT_REQUEST, rq_key = k, rq_ownership = False, rq_semaphore = True, rq_value = v,
     rq_found = False, rq_cb = False, rq_released = False, rq_deleted = False\<rparr>"

end
