(* ===== verification/Locks.thy ===== *)
theory Locks
  imports Prelude "HOL-Library.Word" "HOL-Library.AList"
begin

text \<open>
  Synchronisation: the classes of \<^verbatim>\<open>src/src/utils/sync.h\<close>, \<^verbatim>\<open>src/src/sync/rwlock.h\<close> and
  \<^verbatim>\<open>src/src/sync/lock_manager.h\<close>.  A call that blocks in the state it is made in is \<open>None\<close>: the
  thread waits until another one changes the state.  The shared mutex comes from the Boost library
  and is a parameter; what the code relies on is the locale \<open>mutex_laws\<close>.
\<close>

section \<open>Spin locks\<close>

type_synonym spin_lock = "8 word"

definition spin_new :: spin_lock where "spin_new = 0"

text \<open>The exchange instruction returns the old value and stores 1.\<close>

definition tas :: "spin_lock \<Rightarrow> 8 word \<times> spin_lock" where
  "tas l = (l, 1)"

definition spin_acquire :: "spin_lock \<Rightarrow> spin_lock option" where
  "spin_acquire l = (case tas l of (res, l') \<Rightarrow> if res \<noteq> 0 then None else Some l')"

definition spin_try_lock :: "spin_lock \<Rightarrow> bool \<times> spin_lock" where
  "spin_try_lock l = (case tas l of (res, l') \<Rightarrow> (res = 0, l'))"

definition spin_fakelock :: "spin_lock \<Rightarrow> int" where
  "spin_fakelock l = (if l = 0 then 0 else 1)"

definition spin_getvalue :: "spin_lock \<Rightarrow> int" where
  "spin_getvalue l = 0"

definition spin_release :: "spin_lock \<Rightarrow> spin_lock" where
  "spin_release l = 0"

text \<open>
  Threads around one lock.  A thread that does not hold it makes an attempt, by \<^verbatim>\<open>acquire\<close> or by
  \<^verbatim>\<open>try_lock\<close>; a thread that holds it releases it.
\<close>

inductive spin_step :: "nat set \<times> spin_lock \<Rightarrow> nat set \<times> spin_lock \<Rightarrow> bool" where
  attempt: "t \<notin> H \<Longrightarrow> spin_try_lock l = (ok, l') \<Longrightarrow> spin_step (H, l) (if ok then insert t H else H, l')"
| release: "t \<in> H \<Longrightarrow> spin_step (H, l) (H - {t}, spin_release l)"

inductive spin_reachable :: "nat set \<times> spin_lock \<Rightarrow> bool" where
  start: "spin_reachable ({}, spin_new)"
| step: "spin_reachable s \<Longrightarrow> spin_step s s' \<Longrightarrow> spin_reachable s'"

inductive_cases spin_stepE: "spin_step (H, l) s'"

lemma spin_step_ok:
  assumes "spin_step s s'" "finite (fst s) \<and> card (fst s) = (if snd s = 0 then 0 else 1)"
  shows "finite (fst s') \<and> card (fst s') = (if snd s' = 0 then 0 else 1)"
  using assms
proof (induction rule: spin_step.induct)
  case (attempt t H l ok l')
  then show ?case by (auto simp: spin_try_lock_def tas_def split: if_splits)
next
  case (release t H l)
  then have "card H = 1" by (cases "l = 0") auto
  then have "H = {t}" using release(1) by (auto simp: card_1_singleton_iff)
  then show ?case by (simp add: spin_release_def)
qed

lemma spin_reachable_ok: "spin_reachable s \<Longrightarrow> finite (fst s) \<and> card (fst s) = (if snd s = 0 then 0 else 1)"
proof (induction rule: spin_reachable.induct)
  case start
  show ?case by (simp add: spin_new_def)
next
  case (step s s')
  then show ?case using spin_step_ok by blast
qed

section \<open>Semaphores\<close>

text \<open>A POSIX semaphore is its value.\<close>

type_synonym semaphore = nat

definition SEM_VALUE_MAX :: nat where "SEM_VALUE_MAX = 2 ^ 31 - 1"

definition semaphore_new :: "nat \<Rightarrow> semaphore" where "semaphore_new v = v"

definition semaphore_set_value :: "nat \<Rightarrow> semaphore \<Rightarrow> semaphore" where
  "semaphore_set_value v s = v"

definition semaphore_post :: "semaphore \<Rightarrow> semaphore" where
  "semaphore_post s = (if s < SEM_VALUE_MAX then s + 1 else s)"

fun semaphore_post_times :: "nat \<Rightarrow> semaphore \<Rightarrow> semaphore" where
  "semaphore_post_times 0 s = s"
| "semaphore_post_times (Suc n) s = semaphore_post_times n (semaphore_post s)"

definition semaphore_wait :: "semaphore \<Rightarrow> semaphore option" where
  "semaphore_wait s = (if 0 < s then Some (s - 1) else None)"

definition semaphore_timed_wait :: "int \<Rightarrow> semaphore \<Rightarrow> bool \<times> semaphore" where
  "semaphore_timed_wait millisecond s = (False, s)"

definition semaphore_try_wait :: "semaphore \<Rightarrow> bool \<times> semaphore" where
  "semaphore_try_wait s = (if 0 < s then (True, s - 1) else (False, s))"

definition semaphore_get_value :: "semaphore \<Rightarrow> nat" where
  "semaphore_get_value s = s"

lemma semaphore_post_times_eq: "s + n \<le> SEM_VALUE_MAX \<Longrightarrow> semaphore_post_times n s = s + n"
  by (induction n arbitrary: s) (simp_all add: semaphore_post_def)

section \<open>Thread barriers\<close>

text \<open>\<open>tb_waiting\<close> counts the threads that sleep on the condition variable.\<close>

record thread_barrier =
  m_nThreads :: int
  m_nSyncCount :: int
  tb_waiting :: nat

definition barrier_new :: "int \<Rightarrow> thread_barrier" where
  "barrier_new n = \<lparr>m_nThreads = n, m_nSyncCount = 0, tb_waiting = 0\<rparr>"

definition RegisterOneThread :: "thread_barrier \<Rightarrow> thread_barrier" where
  "RegisterOneThread b = b\<lparr>m_nThreads := m_nThreads b + 1\<rparr>"

definition UnregisterOneThread :: "thread_barrier \<Rightarrow> thread_barrier" where
  "UnregisterOneThread b =
     (let b1 = b\<lparr>m_nThreads := m_nThreads b - 1\<rparr> in
      if m_nThreads b1 \<le> m_nSyncCount b1 then b1\<lparr>tb_waiting := 0\<rparr> else b1)"

definition setEmpty :: "thread_barrier \<Rightarrow> thread_barrier" where
  "setEmpty b = b\<lparr>m_nThreads := 0, m_nSyncCount := 0\<rparr>"

definition barrier_reset :: "thread_barrier \<Rightarrow> thread_barrier" where
  "barrier_reset b = b\<lparr>m_nSyncCount := 0\<rparr>"

text \<open>The first component says whether the calling thread goes on at once.\<close>

definition Arrive :: "thread_barrier \<Rightarrow> bool \<times> thread_barrier" where
  "Arrive b =
     (let b1 = b\<lparr>m_nSyncCount := m_nSyncCount b + 1\<rparr> in
      if m_nSyncCount b1 \<ge> m_nThreads b1 then (True, b1\<lparr>tb_waiting := 0\<rparr>)
      else (False, b1\<lparr>tb_waiting := tb_waiting b1 + 1\<rparr>))"

fun arrivals :: "nat \<Rightarrow> thread_barrier \<Rightarrow> bool list \<times> thread_barrier" where
  "arrivals 0 b = ([], b)"
| "arrivals (Suc n) b = (case Arrive b of (r, b1) \<Rightarrow> case arrivals n b1 of (rs, b2) \<Rightarrow> (r # rs, b2))"

lemma arrivals_wait:
  "int k + m_nSyncCount b < m_nThreads b \<Longrightarrow>
   arrivals k b = (replicate k False, b\<lparr>m_nSyncCount := m_nSyncCount b + int k, tb_waiting := tb_waiting b + k\<rparr>)"
  by (induction k arbitrary: b) (simp_all add: Arrive_def Let_def)

lemma arrivals_append: "arrivals (m + n) b = (case arrivals m b of (rs, b1) \<Rightarrow> case arrivals n b1 of (rs', b2) \<Rightarrow> (rs @ rs', b2))"
  by (induction m arbitrary: b) (auto split: prod.splits)

section \<open>Shared mutexes\<close>

record 'm mutex_ops =
  mx_new :: 'm
  mx_try_lock :: "'m \<Rightarrow> bool \<times> 'm"
  mx_unlock :: "'m \<Rightarrow> 'm"
  mx_try_lock_shared :: "'m \<Rightarrow> bool \<times> 'm"
  mx_unlock_shared :: "'m \<Rightarrow> 'm"
  mx_try_lock_upgrade :: "'m \<Rightarrow> bool \<times> 'm"
  mx_try_unlock_upgrade_and_lock :: "'m \<Rightarrow> bool \<times> 'm"

text \<open>A blocking call returns when the attempt succeeds.\<close>

definition blocking :: "('m \<Rightarrow> bool \<times> 'm) \<Rightarrow> 'm \<Rightarrow> 'm option" where
  "blocking f m = (case f m of (ok, m') \<Rightarrow> if ok then Some m' else None)"

subsection \<open>rwlock.h\<close>

definition rw_read_lock :: "'m mutex_ops \<Rightarrow> 'm \<Rightarrow> 'm option" where
  "rw_read_lock M = blocking (mx_try_lock_shared M)"

definition rw_read_unlock :: "'m mutex_ops \<Rightarrow> 'm \<Rightarrow> 'm" where
  "rw_read_unlock M = mx_unlock_shared M"

definition rw_try_read_lock :: "'m mutex_ops \<Rightarrow> 'm \<Rightarrow> bool \<times> 'm" where
  "rw_try_read_lock M = mx_try_lock_shared M"

definition rw_write_lock :: "'m mutex_ops \<Rightarrow> 'm \<Rightarrow> 'm option" where
  "rw_write_lock M = blocking (mx_try_lock M)"

definition rw_try_write_lock :: "'m mutex_ops \<Rightarrow> 'm \<Rightarrow> bool \<times> 'm" where
  "rw_try_write_lock M = mx_try_lock M"

definition rw_try_lock_upgrade :: "'m mutex_ops \<Rightarrow> 'm \<Rightarrow> bool \<times> 'm" where
  "rw_try_lock_upgrade M = mx_try_lock_upgrade M"

definition rw_try_unlock_and_write_lock :: "'m mutex_ops \<Rightarrow> 'm \<Rightarrow> bool \<times> 'm" where
  "rw_try_unlock_and_write_lock M = mx_try_unlock_upgrade_and_lock M"

section \<open>The lock manager\<close>

datatype lock_type = READ_LOCK | WRITE_LOCK

record lock_descriptor =
  ld_id :: int
  ld_type :: lock_type

text \<open>The hash table from node addresses to mutexes.\<close>

type_synonym 'm lock_manager = "(int \<times> 'm) list"

definition lm_get_or_create :: "'m mutex_ops \<Rightarrow> int \<Rightarrow> 'm lock_manager \<Rightarrow> 'm \<times> 'm lock_manager" where
  "lm_get_or_create M i L =
     (case map_of L i of None \<Rightarrow> (mx_new M, AList.update i (mx_new M) L) | Some m \<Rightarrow> (m, L))"

definition get_read_lock :: "'m mutex_ops \<Rightarrow> int \<Rightarrow> 'm lock_manager \<Rightarrow> (lock_descriptor \<times> 'm lock_manager) option" where
  "get_read_lock M i L =
     (case lm_get_or_create M i L of (m, L1) \<Rightarrow>
      map_option (\<lambda>m'. (\<lparr>ld_id = i, ld_type = READ_LOCK\<rparr>, AList.update i m' L1)) (blocking (mx_try_lock_shared M) m))"

definition try_get_read_lock :: "'m mutex_ops \<Rightarrow> int \<Rightarrow> 'm lock_manager \<Rightarrow> lock_descriptor option \<times> 'm lock_manager" where
  "try_get_read_lock M i L =
     (case lm_get_or_create M i L of (m, L1) \<Rightarrow>
      case mx_try_lock_shared M m of (ret, m') \<Rightarrow>
      (if ret then Some \<lparr>ld_id = i, ld_type = READ_LOCK\<rparr> else None, AList.update i m' L1))"

definition get_write_lock :: "'m mutex_ops \<Rightarrow> int \<Rightarrow> 'm lock_manager \<Rightarrow> (lock_descriptor \<times> 'm lock_manager) option" where
  "get_write_lock M i L =
     (case lm_get_or_create M i L of (m, L1) \<Rightarrow>
      map_option (\<lambda>m'. (\<lparr>ld_id = i, ld_type = WRITE_LOCK\<rparr>, AList.update i m' L1)) (blocking (mx_try_lock M) m))"

definition try_get_write_lock :: "'m mutex_ops \<Rightarrow> int \<Rightarrow> 'm lock_manager \<Rightarrow> lock_descriptor option \<times> 'm lock_manager" where
  "try_get_write_lock M i L =
     (case lm_get_or_create M i L of (m, L1) \<Rightarrow>
      case mx_try_lock M m of (ret, m') \<Rightarrow>
      (if ret then Some \<lparr>ld_id = i, ld_type = WRITE_LOCK\<rparr> else None, AList.update i m' L1))"

definition promote_to_write_lock :: "'m mutex_ops \<Rightarrow> lock_descriptor \<Rightarrow> 'm lock_manager \<Rightarrow> (lock_descriptor \<times> 'm lock_manager) option" where
  "promote_to_write_lock M l L =
     (case lm_get_or_create M (ld_id l) L of (m, L1) \<Rightarrow>
      do { m1 \<leftarrow> blocking (mx_try_lock_upgrade M) m;
           m2 \<leftarrow> blocking (mx_try_unlock_upgrade_and_lock M) (mx_unlock_shared M m1);
           Some (l\<lparr>ld_type := WRITE_LOCK\<rparr>, AList.update (ld_id l) m2 L1) })"

definition release_lock :: "'m mutex_ops \<Rightarrow> lock_descriptor \<Rightarrow> 'm lock_manager \<Rightarrow> 'm lock_manager" where
  "release_lock M l L =
     (case lm_get_or_create M (ld_id l) L of (m, L1) \<Rightarrow>
      AList.update (ld_id l) (case ld_type l of WRITE_LOCK \<Rightarrow> mx_unlock M m | READ_LOCK \<Rightarrow> mx_unlock_shared M m) L1)"

text \<open>The warnings of the destructor: every mutex that somebody still holds, and how.\<close>

definition lm_warnings :: "'m mutex_ops \<Rightarrow> 'm lock_manager \<Rightarrow> (int \<times> lock_type) list" where
  "lm_warnings M L =
     concat (map (\<lambda>(i, m). if fst (mx_try_lock M m) then []
       else if fst (mx_try_lock_shared M m) then [(i, READ_LOCK)] else [(i, WRITE_LOCK)]) L)"

subsection \<open>What the mutexes promise\<close>

text \<open>
  \<open>view m\<close> is the number of shared owners of the mutex and whether it has an exclusive owner.  The
  laws are the documented ones of a shared mutex on which nobody is waiting.
\<close>

definition lm_view :: "('m \<Rightarrow> nat \<times> bool) \<Rightarrow> 'm lock_manager \<Rightarrow> int \<Rightarrow> nat \<times> bool" where
  "lm_view view L i = (case map_of L i of None \<Rightarrow> (0, False) | Some m \<Rightarrow> view m)"

locale mutex_laws =
  fixes M :: "'m mutex_ops" and view :: "'m \<Rightarrow> nat \<times> bool"
  assumes view_new: "view (mx_new M) = (0, False)"
    and lock_free: "view m = (0, False) \<Longrightarrow> \<exists>m'. mx_try_lock M m = (True, m') \<and> view m' = (0, True)"
    and lock_held: "view m \<noteq> (0, False) \<Longrightarrow> fst (mx_try_lock M m) = False"
    and shared_free: "view m = (n, False) \<Longrightarrow> \<exists>m'. mx_try_lock_shared M m = (True, m') \<and> view m' = (Suc n, False)"
    and shared_held: "view m = (n, True) \<Longrightarrow> fst (mx_try_lock_shared M m) = False"
    and unlock: "view m = (0, True) \<Longrightarrow> view (mx_unlock M m) = (0, False)"
    and unlock_shared: "view m = (Suc n, False) \<Longrightarrow> view (mx_unlock_shared M m) = (n, False)"
begin

lemma get_or_create_view:
  assumes "lm_get_or_create M i L = (m, L1)"
  shows "view m = lm_view view L i" "lm_view view (AList.update i m' L1) = (lm_view view L)(i := view m')"
  using assms by (auto simp: lm_get_or_create_def lm_view_def update_conv view_new split: option.splits)

lemma get_write_lock_ok:
  assumes "lm_view view L i = (0, False)"
  shows "\<exists>L'. get_write_lock M i L = Some (\<lparr>ld_id = i, ld_type = WRITE_LOCK\<rparr>, L') \<and> lm_view view L' = (lm_view view L)(i := (0, True))"
proof -
  obtain m L1 where g: "lm_get_or_create M i L = (m, L1)" by fastforce
  then obtain m' where m': "mx_try_lock M m = (True, m')" "view m' = (0, True)"
    using lock_free get_or_create_view(1) [OF g] assms by fastforce
  then show ?thesis using g get_or_create_view(2) [OF g, of m'] by (simp add: get_write_lock_def blocking_def)
qed

lemma get_read_lock_ok:
  assumes "lm_view view L i = (n, False)"
  shows "\<exists>L'. get_read_lock M i L = Some (\<lparr>ld_id = i, ld_type = READ_LOCK\<rparr>, L') \<and> lm_view view L' = (lm_view view L)(i := (Suc n, False))"
proof -
  obtain m L1 where g: "lm_get_or_create M i L = (m, L1)" by fastforce
  then obtain m' where m': "mx_try_lock_shared M m = (True, m')" "view m' = (Suc n, False)"
    using shared_free get_or_create_view(1) [OF g] assms by fastforce
  then show ?thesis using g get_or_create_view(2) [OF g, of m'] by (simp add: get_read_lock_def blocking_def)
qed

lemma get_lock_blocked:
  assumes "snd (lm_view view L i) \<or> ty = WRITE_LOCK \<and> lm_view view L i \<noteq> (0, False)"
  shows "(if ty = WRITE_LOCK then get_write_lock M i L else get_read_lock M i L) = None"
proof -
  obtain m L1 where g: "lm_get_or_create M i L = (m, L1)" by fastforce
  obtain n b where v: "view m = (n, b)" by fastforce
  then have "lm_view view L i = (n, b)" using get_or_create_view(1) [OF g] by simp
  then have "ty = WRITE_LOCK \<Longrightarrow> fst (mx_try_lock M m) = False" "ty \<noteq> WRITE_LOCK \<Longrightarrow> fst (mx_try_lock_shared M m) = False"
    using assms lock_held [of m] shared_held [of m n] v by auto
  then show ?thesis using g by (cases ty) (auto simp: get_write_lock_def get_read_lock_def blocking_def split: prod.splits)
qed

lemma release_lock_ok:
  "lm_view view L i = (0, True) \<Longrightarrow> lm_view view (release_lock M \<lparr>ld_id = i, ld_type = WRITE_LOCK\<rparr> L) = (lm_view view L)(i := (0, False))"
  "lm_view view L i = (Suc n, False) \<Longrightarrow> lm_view view (release_lock M \<lparr>ld_id = i, ld_type = READ_LOCK\<rparr> L) = (lm_view view L)(i := (n, False))"
  using get_or_create_view [of i L] by (auto simp: release_lock_def unlock unlock_shared split: prod.splits)

lemma no_warnings: "(\<And>i. lm_view view L i = (0, False)) \<Longrightarrow> distinct (map fst L) \<Longrightarrow> lm_warnings M L = []"
proof -
  assume a: "\<And>i. lm_view view L i = (0, False)" and d: "distinct (map fst L)"
  have "fst (mx_try_lock M m)" if "(i, m) \<in> set L" for i m
    using a [of i] lock_free [of m] map_of_is_SomeI [OF d that] by (auto simp: lm_view_def)
  then show ?thesis by (auto simp: lm_warnings_def)
qed

end

text \<open>An instance of the laws: the mutex is the number of its shared owners and a flag.\<close>

definition counting_mutex :: "(nat \<times> bool) mutex_ops" where
  "counting_mutex = \<lparr>mx_new = (0, False),
     mx_try_lock = (\<lambda>m. if m = (0, False) then (True, (0, True)) else (False, m)),
     mx_unlock = (\<lambda>m. (fst m, False)),
     mx_try_lock_shared = (\<lambda>m. if snd m then (False, m) else (True, (Suc (fst m), False))),
     mx_unlock_shared = (\<lambda>m. (fst m - 1, snd m)),
     mx_try_lock_upgrade = (\<lambda>m. (\<not> snd m, m)),
     mx_try_unlock_upgrade_and_lock = (\<lambda>m. if m = (0, False) then (True, (0, True)) else (False, m))\<rparr>"

interpretation counting: mutex_laws counting_mutex "\<lambda>m. m"
  by unfold_locales (auto simp: counting_mutex_def)

end
