(* ===== verification/Concurrent_Tree.thy ===== *)
theory Concurrent_Tree
  imports Vanilla_Correct Locks
begin

text \<open>
  The tree with lock coupling of \<^verbatim>\<open>src/src/tree/concurrent_b_plus_tree.h\<close>, over any node storage and
  any shared mutex.  Reading a block and decoding it is \<open>ref_get\<close>, encoding a node and writing its
  block is \<open>ref_close\<close>.  The definitions are the calls of one thread; a lock that is not free makes
  the call block, which is \<open>None\<close>, like a failed assertion.  The deque of locks has its back at the
  end of the list.
\<close>

section \<open>Operations\<close>

record ('s, 'm) ctree =
  ct_tree :: "'s vtree"
  ct_locks :: "'m lock_manager"

definition get_root_id :: "('s, 'm) ctree \<Rightarrow> blk_address" where
  "get_root_id C = root_ref (ct_tree C)"

definition update_root_node_id_and_increase_tree_height :: "blk_address \<Rightarrow> ('s, 'm) ctree \<Rightarrow> ('s, 'm) ctree" where
  "update_root_node_id_and_increase_tree_height i C =
     C\<lparr>ct_tree := (ct_tree C)\<lparr>root_ref := i, depth := depth (ct_tree C) + 1\<rparr>\<rparr>"

abbreviation ct_store :: "('s, 'm) ctree \<Rightarrow> 's" where
  "ct_store C \<equiv> store (ct_tree C)"

definition put_store :: "'s \<Rightarrow> ('s, 'm) ctree \<Rightarrow> ('s, 'm) ctree" where
  "put_store s C = C\<lparr>ct_tree := (ct_tree C)\<lparr>store := s\<rparr>\<rparr>"

definition ct_release :: "'m mutex_ops \<Rightarrow> lock_descriptor \<Rightarrow> ('s, 'm) ctree \<Rightarrow> ('s, 'm) ctree" where
  "ct_release M l C = C\<lparr>ct_locks := release_lock M l (ct_locks C)\<rparr>"

definition ct_lock :: "'m mutex_ops \<Rightarrow> lock_type \<Rightarrow> blk_address \<Rightarrow> ('s, 'm) ctree \<Rightarrow> (lock_descriptor \<times> ('s, 'm) ctree) option" where
  "ct_lock M t a C =
     map_option (\<lambda>(l, L). (l, C\<lparr>ct_locks := L\<rparr>)) ((if t = WRITE_LOCK then get_write_lock else get_read_lock) M a (ct_locks C))"

text \<open>The lock of the parent is released when the node's own lock has been obtained.\<close>

definition release_parent :: "'m mutex_ops \<Rightarrow> lock_descriptor list \<Rightarrow> ('s, 'm) ctree \<Rightarrow> ('s, 'm) ctree option" where
  "release_parent M locks C =
     (case locks of [] \<Rightarrow> Some C | [p] \<Rightarrow> Some (ct_release M p C) | _ \<Rightarrow> None)"

definition release_own :: "'m mutex_ops \<Rightarrow> blk_address \<Rightarrow> lock_descriptor list \<times> ('s, 'm) ctree \<Rightarrow> lock_descriptor list \<times> ('s, 'm) ctree" where
  "release_own M a LC =
     (case LC of (locks, C) \<Rightarrow>
      if locks \<noteq> [] \<and> a = ld_id (last locks) then (butlast locks, ct_release M (last locks) C) else (locks, C))"

partial_function (option) search_with_concurrency_control ::
  "('s, 'k::linorder, 'v) node_ops \<Rightarrow> 'm mutex_ops \<Rightarrow> 'k \<Rightarrow> lock_descriptor list \<Rightarrow> blk_address \<Rightarrow> bool \<Rightarrow> ('s, 'm) ctree
     \<Rightarrow> ('v option \<times> lock_descriptor list \<times> ('s, 'm) ctree) option" where
  "search_with_concurrency_control R M k locks a is_root C =
     ct_lock M READ_LOCK a C \<bind> (\<lambda>(l, C1).
     if is_root \<and> get_root_id C1 \<noteq> a
     then search_with_concurrency_control R M k locks (get_root_id C1) True (ct_release M l C1)
     else
       release_parent M locks C1 \<bind> (\<lambda>C2.
       ref_get R a (ct_store C2) \<bind> (\<lambda>(n, s).
       case n of
         LeafN leaf \<Rightarrow> leaf_search leaf k \<bind> (\<lambda>v. Some (v, [], ct_release M l (put_store s C2)))
       | InnerN nd \<Rightarrow>
           locate_child_index nd k \<bind> (\<lambda>index.
           if index < 0 then Some (None, [], ct_release M l (put_store s C2))
           else
             get_child_rep nd index \<bind> (\<lambda>child.
             search_with_concurrency_control R M k [l] child False (put_store s C2) \<bind> (\<lambda>(v, LC).
             Some (v, release_own M a LC)))))))"

definition concurrent_search :: "('s, 'k::linorder, 'v) node_ops \<Rightarrow> 'm mutex_ops \<Rightarrow> 'k \<Rightarrow> ('s, 'm) ctree \<Rightarrow> ('v option \<times> ('s, 'm) ctree) option" where
  "concurrent_search R M k C =
     do { (v, locks, C') \<leftarrow> search_with_concurrency_control R M k [] (get_root_id C) True C;
          if locks = [] then Some (v, C') else None }"

partial_function (option) insert_with_optimistic_concurrency_control ::
  "('s, 'k::linorder, 'v) node_ops \<Rightarrow> 'm mutex_ops \<Rightarrow> nat \<Rightarrow> 'k \<Rightarrow> 'v \<Rightarrow> lock_descriptor list \<Rightarrow> blk_address \<Rightarrow> int \<Rightarrow> bool \<Rightarrow> ('s, 'm) ctree
     \<Rightarrow> (bool \<times> lock_descriptor list \<times> ('s, 'm) ctree) option" where
  "insert_with_optimistic_concurrency_control R M c k v locks a current_depth is_root C =
     ct_lock M (if current_depth = 1 then WRITE_LOCK else READ_LOCK) a C \<bind> (\<lambda>(l, C1).
     if is_root \<and> get_root_id C1 \<noteq> a
     then insert_with_optimistic_concurrency_control R M c k v locks (get_root_id C1) (depth (ct_tree C1)) True (ct_release M l C1)
     else
       release_parent M locks C1 \<bind> (\<lambda>C2.
       ref_get R a (ct_store C2) \<bind> (\<lambda>(n, s).
       case n of
         LeafN leaf \<Rightarrow>
           if leaf_size leaf = c then Some (False, [], ct_release M l (put_store s C2))
           else
             leaf_insert c k v leaf \<bind> (\<lambda>(_, leaf').
             ref_close R a (LeafN leaf') s \<bind> (\<lambda>s'.
             Some (True, [], ct_release M l (put_store s' C2))))
       | InnerN nd \<Rightarrow>
           locate_child_index nd k \<bind> (\<lambda>index.
           if index < 0 then Some (False, release_own M a ([l], put_store s C2))
           else
             get_child_rep nd index \<bind> (\<lambda>child.
             insert_with_optimistic_concurrency_control R M c k v [l] child (current_depth - 1) False (put_store s C2) \<bind> (\<lambda>(ok, LC).
             Some (ok, release_own M a LC)))))))"

text \<open>A new root above the two halves, written to its own block.\<close>

definition ct_grow :: "('s, 'k, 'v) node_ops \<Rightarrow> nat \<Rightarrow> ('k, ('k, 'v) node) split \<Rightarrow> ('s, 'm) ctree \<Rightarrow> ('s, 'm) ctree option" where
  "ct_grow R c split C =
     (let left = split_left split; right = split_right split in
      do { (a, s1) \<leftarrow> allocate_ref R (ct_store C);
           lk \<leftarrow> node_leftmost_key left;
           rk \<leftarrow> node_leftmost_key right;
           n \<leftarrow> new_inner_of c a (lk, node_self left) (rk, node_self right);
           s2 \<leftarrow> ref_close R a (InnerN (inner_mark n)) s1;
           Some (update_root_node_id_and_increase_tree_height a (put_store s2 C)) })"

text \<open>The leaf of a pessimistic insertion: both halves of a split are written before a new root.\<close>

definition pessimistic_leaf :: "('s, 'k::linorder, 'v) node_ops \<Rightarrow> 'm mutex_ops \<Rightarrow> nat \<Rightarrow> 'k \<Rightarrow> 'v \<Rightarrow> lock_descriptor \<Rightarrow> lock_descriptor list
     \<Rightarrow> bool \<Rightarrow> ('k, 'v) leaf_node \<Rightarrow> ('s, 'm) ctree \<Rightarrow> (('k, ('k, 'v) node) split option \<times> lock_descriptor list \<times> ('s, 'm) ctree) option" where
  "pessimistic_leaf R M c k v l locks is_root leaf C =
     do { (n, sp, s1) \<leftarrow> leaf_iwss R c k v leaf (ct_store C);
          s2 \<leftarrow> ref_close R (node_self n) n s1;
          C' \<leftarrow> (case sp of
                   None \<Rightarrow> Some (put_store s2 C)
                 | Some p \<Rightarrow>
                     do { s3 \<leftarrow> ref_close R (node_self (split_right p)) (split_right p) s2;
                          if is_root then ct_grow R c p (put_store s3 C) else Some (put_store s3 C) });
          Some (sp, butlast locks, ct_release M l C') }"

text \<open>
  The inner node after the insertion into its child.  When the child was split the node takes up
  the new child, or is split in its turn; it gives its own lock back, which must be the last one.
\<close>

definition pessimistic_inner :: "('s, 'k::linorder, 'v) node_ops \<Rightarrow> 'm mutex_ops \<Rightarrow> nat \<Rightarrow> blk_address \<Rightarrow> bool \<Rightarrow> int \<Rightarrow> 'k inner_node
     \<Rightarrow> ('k, ('k, 'v) node) split option \<Rightarrow> lock_descriptor list \<Rightarrow> ('s, 'm) ctree
     \<Rightarrow> (('k, ('k, 'v) node) split option \<times> lock_descriptor list \<times> ('s, 'm) ctree) option" where
  "pessimistic_inner R M c a is_root target_node_index nd child_split locks C =
     (case child_split of
        Some sp \<Rightarrow>
          do { (right_rep, s1) \<leftarrow> (if inner_size nd < c then Some (-1, ct_store C) else allocate_ref R (ct_store C));
               (n, res) \<leftarrow> inner_take_split c right_rep target_node_index (boundary_key sp) (node_self (split_right sp)) nd;
               s2 \<leftarrow> ref_close R a (InnerN n) s1;
               (split, C1) \<leftarrow> (case res of
                   None \<Rightarrow> Some (None, put_store s2 C)
                 | Some p \<Rightarrow>
                     do { let split = \<lparr>split_left = InnerN (split_left p), split_right = InnerN (split_right p), boundary_key = boundary_key p\<rparr>;
                          s3 \<leftarrow> ref_close R (inner_self (split_right p)) (InnerN (split_right p)) s2;
                          C' \<leftarrow> (if is_root then ct_grow R c split (put_store s3 C) else Some (put_store s3 C));
                          Some (Some split, C') });
               if locks = [] \<or> ld_id (last locks) \<noteq> a then None
               else Some (split, butlast locks, ct_release M (last locks) C1) }
      | None \<Rightarrow>
          if inner_modified nd
          then do { s1 \<leftarrow> ref_close R a (InnerN nd) (ct_store C); Some (None, locks, put_store s1 C) }
          else Some (None, locks, C))"

partial_function (option) insert_with_pessimistic_concurrency_control ::
  "('s, 'k::linorder, 'v) node_ops \<Rightarrow> 'm mutex_ops \<Rightarrow> nat \<Rightarrow> 'k \<Rightarrow> 'v \<Rightarrow> lock_descriptor list \<Rightarrow> blk_address \<Rightarrow> bool \<Rightarrow> ('s, 'm) ctree
     \<Rightarrow> (('k, ('k, 'v) node) split option \<times> lock_descriptor list \<times> ('s, 'm) ctree) option" where
  "insert_with_pessimistic_concurrency_control R M c k v locks a is_root C =
     ct_lock M WRITE_LOCK a C \<bind> (\<lambda>(l, C1).
     if is_root \<and> get_root_id C1 \<noteq> a
     then insert_with_pessimistic_concurrency_control R M c k v locks (get_root_id C1) True (ct_release M l C1)
     else
       ref_get R a (ct_store C1) \<bind> (\<lambda>(n, s).
       case n of
         LeafN leaf \<Rightarrow> pessimistic_leaf R M c k v l (locks @ [l]) is_root leaf (put_store s C1)
       | InnerN nd \<Rightarrow>
           locate_child_index nd k \<bind> (\<lambda>index.
           (if index < 0 then inner_set_first_key k nd else Some nd) \<bind> (\<lambda>nd1.
           get_child_rep nd1 (max 0 index) \<bind> (\<lambda>child.
           insert_with_pessimistic_concurrency_control R M c k v (locks @ [l]) child False (put_store s C1) \<bind> (\<lambda>(child_split, locks1, C2).
           pessimistic_inner R M c a is_root (max 0 index) nd1 child_split locks1 C2 \<bind> (\<lambda>(split, LC).
           Some (split, release_own M a LC))))))))"

definition concurrent_insert :: "('s, 'k::linorder, 'v) node_ops \<Rightarrow> 'm mutex_ops \<Rightarrow> nat \<Rightarrow> 'k \<Rightarrow> 'v \<Rightarrow> ('s, 'm) ctree \<Rightarrow> ('s, 'm) ctree option" where
  "concurrent_insert R M c k v C =
     do { (ok, locks, C1) \<leftarrow> insert_with_optimistic_concurrency_control R M c k v [] (get_root_id C) (depth (ct_tree C)) True C;
          if ok then Some C1
          else if locks \<noteq> [] then None
          else do { (_, locks', C2) \<leftarrow> insert_with_pessimistic_concurrency_control R M c k v [] (get_root_id C1) True C1;
                    if locks' = [] then Some C2 else None } }"

end
