(* ===== verification/Concurrent_Correct.thy ===== *)
theory Concurrent_Correct
  imports Concurrent_Tree Disk_Tree
begin

text \<open>
  The lock-coupling tree of \<^verbatim>\<open>Concurrent_Tree\<close>, over every storage with the contract of
  \<^verbatim>\<open>Node_Store\<close> and every mutex with the laws of \<^verbatim>\<open>Locks\<close>: a call that finds all locks free is
  never blocked by its own locks, acts on the entries as the vanilla tree does, and gives every
  lock back.
\<close>

section \<open>Frames\<close>

lemma ctree_frames [simp]:
  "ct_locks (put_store s C) = ct_locks C" "ct_store (put_store s C) = s" "ct_tree (ct_release M l C) = ct_tree C"
  "get_root_id (put_store s C) = get_root_id C" "get_root_id (ct_release M l C) = get_root_id C"
  "depth (ct_tree (put_store s C)) = depth (ct_tree C)" "put_store s (put_store s' C) = put_store s C"
  "put_store s (ct_release M l C) = ct_release M l (put_store s C)"
  "ct_locks (ct_release M l C) = release_lock M l (ct_locks C)"
  by (simp_all add: put_store_def ct_release_def get_root_id_def)

lemma ct_tree_put_store: "ct_tree (put_store s C) = (ct_tree C)\<lparr>store := s\<rparr>"
  by (simp add: put_store_def)

text \<open>A lock changes nothing but the lock table.\<close>

lemma ct_lock_tree: "ct_lock M t a C = Some (l, C1) \<Longrightarrow> ct_tree C1 = ct_tree C"
  by (auto simp: ct_lock_def)

lemma ct_lock_root: "ct_lock M t a C = Some (l, C1) \<Longrightarrow> get_root_id C1 = get_root_id C"
  by (simp add: get_root_id_def ct_lock_tree)

text \<open>With the current root the test for a changed root makes no difference.\<close>

lemma search_at_root:
  "search_with_concurrency_control R M k locks (get_root_id C) True C = search_with_concurrency_control R M k locks (get_root_id C) False C"
  by (subst (1 2) search_with_concurrency_control.simps, rule Option.bind_cong [OF refl]) (auto dest: ct_lock_root)

lemma optimistic_at_root:
  "insert_with_optimistic_concurrency_control R M c k v locks (get_root_id C) d True C
   = insert_with_optimistic_concurrency_control R M c k v locks (get_root_id C) d False C"
  by (subst (1 2) insert_with_optimistic_concurrency_control.simps, rule Option.bind_cong [OF refl]) (auto dest: ct_lock_root)

text \<open>Releasing a lock and growing the tree do not touch each other.\<close>

lemma ct_grow_release: "ct_grow R c p (ct_release M l C) = map_option (ct_release M l) (ct_grow R c p C)"
  by (auto simp: ct_grow_def Let_def update_root_node_id_and_increase_tree_height_def ct_release_def put_store_def split: Option.bind_splits)

lemma ct_grow_locks: "ct_grow R c p C = Some C' \<Longrightarrow> ct_locks C' = ct_locks C"
  by (auto simp: ct_grow_def Let_def update_root_node_id_and_increase_tree_height_def put_store_def split: Option.bind_splits)

definition grow_after :: "('s, 'k, 'v) node_ops \<Rightarrow> nat \<Rightarrow> ('k, ('k, 'v) node) split option \<times> lock_descriptor list \<times> ('s, 'm) ctree
    \<Rightarrow> (('k, ('k, 'v) node) split option \<times> lock_descriptor list \<times> ('s, 'm) ctree) option" where
  "grow_after R c r = (case r of (sp, locks, C) \<Rightarrow>
     case sp of None \<Rightarrow> Some r | Some p \<Rightarrow> map_option (\<lambda>C'. (sp, locks, C')) (ct_grow R c p C))"

lemma grow_after_leaf:
  "pessimistic_leaf R M c k v l locks True leaf C = pessimistic_leaf R M c k v l locks False leaf C \<bind> grow_after R c"
  by (auto simp: pessimistic_leaf_def grow_after_def ct_grow_release option.map_comp comp_def split: Option.bind_splits option.splits)

lemma grow_after_inner:
  "pessimistic_inner R M c a True i nd sp locks C = pessimistic_inner R M c a False i nd sp locks C \<bind> grow_after R c"
proof (cases sp)
  case None
  then show ?thesis by (cases "ref_close R a (InnerN nd) (ct_store C)") (simp_all add: pessimistic_inner_def grow_after_def)
next
  case (Some p)
  let ?new = "if inner_size nd < c then Some (-1, ct_store C) else allocate_ref R (ct_store C)"
  show ?thesis
  proof (cases "?new")
    case None
    then show ?thesis by (simp add: Some pessimistic_inner_def)
  next
    case (Some w)
    then obtain rr s1 where w: "?new = Some (rr, s1)" by (cases w) simp
    show ?thesis
    proof (cases "inner_take_split c rr i (boundary_key p) (node_self (split_right p)) nd")
      case None
      then show ?thesis by (simp add: \<open>sp = Some p\<close> w pessimistic_inner_def)
    next
      case (Some x)
      then obtain n res where x: "inner_take_split c rr i (boundary_key p) (node_self (split_right p)) nd = Some (n, res)" by (cases x) simp
      show ?thesis
      proof (cases "ref_close R a (InnerN n) s1")
        case None
        then show ?thesis by (simp add: \<open>sp = Some p\<close> w x pessimistic_inner_def)
      next
        case (Some s2)
        then show ?thesis
        proof (cases res)
          case None
          then show ?thesis using Some by (simp add: \<open>sp = Some p\<close> w x pessimistic_inner_def grow_after_def)
        next
          case (Some r)
          then show ?thesis using \<open>ref_close R a (InnerN n) s1 = Some s2\<close>
            by (cases "ref_close R (inner_self (split_right r)) (InnerN (split_right r)) s2")
              (auto simp: \<open>sp = Some p\<close> w x pessimistic_inner_def grow_after_def ct_grow_release option.map_comp comp_def
                map_conv_bind_option Let_def)
        qed
      qed
    qed
  qed
qed

lemma grow_after_release_own:
  "grow_after R c (sp, release_own M a LC) = map_option (\<lambda>(sp, LC). (sp, release_own M a LC)) (grow_after R c (sp, LC))"
  by (cases LC) (auto simp: grow_after_def release_own_def ct_grow_release option.map_comp comp_def split: option.splits)

lemma pessimistic_at_root:
  "insert_with_pessimistic_concurrency_control R M c k v locks (get_root_id C) True C
   = insert_with_pessimistic_concurrency_control R M c k v locks (get_root_id C) False C \<bind> grow_after R c"
proof (cases "ct_lock M WRITE_LOCK (get_root_id C) C")
  case None
  then show ?thesis by (subst (1 2) insert_with_pessimistic_concurrency_control.simps) simp
next
  case (Some p)
  obtain l C1 where l: "ct_lock M WRITE_LOCK (get_root_id C) C = Some (l, C1)" using Some by (cases p) simp
  show ?thesis
  proof (cases "ref_get R (get_root_id C) (ct_store C1)")
    case None
    then show ?thesis using l ct_lock_root [OF l] by (subst (1 2) insert_with_pessimistic_concurrency_control.simps) simp
  next
    case (Some q)
    then obtain n s where g: "ref_get R (get_root_id C) (ct_store C1) = Some (n, s)" by (cases q) simp
    note unfold = insert_with_pessimistic_concurrency_control.simps
    show ?thesis
    proof (cases n)
      case (LeafN leaf)
      then show ?thesis using l ct_lock_root [OF l] g by (subst (1 2) unfold) (simp add: grow_after_leaf)
    next
      case (InnerN nd)
      have own: "grow_after R c y \<bind> (\<lambda>p. Some (fst p, release_own M a (snd p))) = grow_after R c (fst y, release_own M a (snd y))" for y a
        by (simp add: grow_after_release_own map_conv_bind_option comp_def split_def)
      show ?thesis using l ct_lock_root [OF l] g InnerN
        by (subst (1 2) unfold) (simp add: grow_after_inner Option.bind_assoc split_def own)
    qed
  qed
qed

text \<open>The lock of the parent, if there is one, is gone after the call.\<close>

definition unshare :: "lock_descriptor list \<Rightarrow> (int \<Rightarrow> nat \<times> bool) \<Rightarrow> int \<Rightarrow> nat \<times> bool" where
  "unshare locks V = (case locks of [] \<Rightarrow> V | l # _ \<Rightarrow> V(ld_id l := (fst (V (ld_id l)) - 1, False)))"

definition parent_lock :: "lock_descriptor list \<Rightarrow> (int \<Rightarrow> nat \<times> bool) \<Rightarrow> bool" where
  "parent_lock locks V \<longleftrightarrow> locks = [] \<or> (\<exists>p n. locks = [\<lparr>ld_id = p, ld_type = READ_LOCK\<rparr>] \<and> V p = (Suc n, False))"

locale lock_coupling =
  node_store R cap inv blocks owned room valid_ref + mutex_laws M view
  for R :: "('s, 'k::linorder, 'v) node_ops" and cap and inv and blocks and owned and room and valid_ref
    and M :: "'m mutex_ops" and view
begin

abbreviation ct_view :: "('s, 'm) ctree \<Rightarrow> int \<Rightarrow> nat \<times> bool" where
  "ct_view C \<equiv> lm_view view (ct_locks C)"

text \<open>Obtaining a lock and giving up the one of the parent.\<close>

lemma release_parent_ok:
  assumes "parent_lock locks V" "\<forall>l\<in>set locks. ld_id l \<noteq> a" "ct_view C = V(a := w)"
  obtains C' where "release_parent M locks C = Some C'" "ct_tree C' = ct_tree C" "ct_view C' = (unshare locks V)(a := w)"
proof (cases "locks = []")
  case True
  then show thesis using that [of C] assms(3) by (simp add: release_parent_def unshare_def)
next
  case False
  then obtain p m where p: "locks = [\<lparr>ld_id = p, ld_type = READ_LOCK\<rparr>]" "V p = (Suc m, False)"
    using assms(1) by (auto simp: parent_lock_def)
  have "ct_view C p = (Suc m, False)" using p assms(2,3) by simp
  then show thesis
    by (intro that [of "ct_release M \<lparr>ld_id = p, ld_type = READ_LOCK\<rparr> C"])
      (use p assms(2,3) in \<open>auto simp: release_parent_def unshare_def fun_upd_twist release_lock_ok\<close>)
qed

lemma couple_read:
  assumes "parent_lock locks (ct_view C)" "ct_view C a = (n, False)" "\<forall>l\<in>set locks. ld_id l \<noteq> a"
  obtains C1 C2 where "ct_lock M READ_LOCK a C = Some (\<lparr>ld_id = a, ld_type = READ_LOCK\<rparr>, C1)" "release_parent M locks C1 = Some C2"
    "ct_tree C2 = ct_tree C" "ct_view C2 = (unshare locks (ct_view C))(a := (Suc n, False))"
proof -
  obtain L where L: "get_read_lock M a (ct_locks C) = Some (\<lparr>ld_id = a, ld_type = READ_LOCK\<rparr>, L)"
    "lm_view view L = (ct_view C)(a := (Suc n, False))" using get_read_lock_ok [OF assms(2)] by blast
  then have "ct_view (C\<lparr>ct_locks := L\<rparr>) = (ct_view C)(a := (Suc n, False))" by simp
  from release_parent_ok [OF assms(1,3) this] show thesis using that L(1) by (auto simp: ct_lock_def)
qed

lemma couple_write:
  assumes "parent_lock locks (ct_view C)" "ct_view C a = (0, False)" "\<forall>l\<in>set locks. ld_id l \<noteq> a"
  obtains C1 C2 where "ct_lock M WRITE_LOCK a C = Some (\<lparr>ld_id = a, ld_type = WRITE_LOCK\<rparr>, C1)" "release_parent M locks C1 = Some C2"
    "ct_tree C2 = ct_tree C" "ct_view C2 = (unshare locks (ct_view C))(a := (0, True))"
proof -
  obtain L where L: "get_write_lock M a (ct_locks C) = Some (\<lparr>ld_id = a, ld_type = WRITE_LOCK\<rparr>, L)"
    "lm_view view L = (ct_view C)(a := (0, True))" using get_write_lock_ok [OF assms(2)] by blast
  then have "ct_view (C\<lparr>ct_locks := L\<rparr>) = (ct_view C)(a := (0, True))" by simp
  from release_parent_ok [OF assms(1,3) this] show thesis using that L(1) by (auto simp: ct_lock_def)
qed

text \<open>
  The locks around a subtree: at most a read lock of its parent is held, and nobody has a lock
  on one of its nodes.
\<close>

definition free_below :: "lock_descriptor list \<Rightarrow> ('k, 'v) bt \<Rightarrow> ('s, 'm) ctree \<Rightarrow> bool" where
  "free_below locks t C \<longleftrightarrow> parent_lock locks (ct_view C) \<and> (\<forall>x\<in>set (addrs t). ct_view C x = (0, False))
     \<and> (\<forall>l\<in>set locks. ld_id l \<notin> set (addrs t))"

lemma unshare_other: "\<forall>l\<in>set locks. ld_id l \<noteq> x \<Longrightarrow> unshare locks V x = V x"
  by (cases locks) (simp_all add: unshare_def)

lemma free_belowD:
  assumes "free_below locks t C"
  shows "parent_lock locks (ct_view C)" "ct_view C (addr t) = (0, False)" "\<forall>l\<in>set locks. ld_id l \<noteq> addr t"
    "x \<in> set (addrs t) \<Longrightarrow> unshare locks (ct_view C) x = (0, False)"
  using assms addr_in_addrs [of t] unshare_other [of locks x "ct_view C"] by (auto simp: free_below_def)

text \<open>Going down to a child with the lock of its parent.\<close>

lemma free_below_child:
  assumes "free_below locks (BNode a ts) C" "distinct (addrs (BNode a ts))" "p \<in> set ts"
    and "ct_view C2 = (unshare locks (ct_view C))(a := (Suc 0, False))"
  shows "free_below [\<lparr>ld_id = a, ld_type = READ_LOCK\<rparr>] (snd p) C2"
    "unshare [\<lparr>ld_id = a, ld_type = READ_LOCK\<rparr>] (ct_view C2) = unshare locks (ct_view C)"
proof -
  have a: "a \<notin> set (addrs (snd p))" "set (addrs (snd p)) \<subseteq> set (addrs (BNode a ts))" using assms(2,3) by auto
  then have "ct_view C2 x = (0, False)" if "x \<in> set (addrs (snd p))" for x
    using that free_belowD(4) [OF assms(1), of x] assms(4) by auto
  then show "free_below [\<lparr>ld_id = a, ld_type = READ_LOCK\<rparr>] (snd p) C2"
    using a assms(4) by (simp add: free_below_def parent_lock_def)
  show "unshare [\<lparr>ld_id = a, ld_type = READ_LOCK\<rparr>] (ct_view C2) = unshare locks (ct_view C)"
    using free_belowD(4) [OF assms(1), of a] assms(4) by (simp add: unshare_def fun_upd_idem)
qed

lemma release_read:
  assumes "ct_view C2 = V(a := (Suc 0, False))" "V a = (0, False)"
  shows "ct_view (ct_release M \<lparr>ld_id = a, ld_type = READ_LOCK\<rparr> C2) = V"
  using assms release_lock_ok(2) [of "ct_locks C2" a 0] by (simp add: fun_upd_idem)

lemma release_write:
  assumes "ct_view C2 = V(a := (0, True))" "V a = (0, False)"
  shows "ct_view (ct_release M \<lparr>ld_id = a, ld_type = WRITE_LOCK\<rparr> C2) = V"
  using assms release_lock_ok(1) [of "ct_locks C2" a] by (simp add: fun_upd_idem)

section \<open>Search\<close>

lemma search_wcc_ok:
  assumes "inv (ct_store C)" "bt_ok cap t" "tree_in (blocks (ct_store C)) t" "distinct (addrs t)" "free_below locks t C"
  shows "\<exists>C'. search_with_concurrency_control R M k locks (addr t) False C = Some (map_of (kvs t) k, [], C')
     \<and> quiet (ct_store C) (ct_store C') \<and> ct_view C' = unshare locks (ct_view C) \<and> ct_tree C' = (ct_tree C)\<lparr>store := ct_store C'\<rparr>"
  using assms
proof (induction t arbitrary: C locks rule: kvs.induct)
  case (1 a xs sib)
  note F = free_belowD [OF "1.prems"(5)]
  obtain C1 C2 where C: "ct_lock M READ_LOCK a C = Some (\<lparr>ld_id = a, ld_type = READ_LOCK\<rparr>, C1)" "release_parent M locks C1 = Some C2"
    "ct_tree C2 = ct_tree C" "ct_view C2 = (unshare locks (ct_view C))(a := (Suc 0, False))"
    using couple_read [OF F(1-3)] by auto
  obtain n s where g: "ref_get R a (ct_store C) = Some (n, s)" "quiet (ct_store C) s" "node_is cap (BLeaf a xs sib) n"
    using get_node [OF "1.prems"(1,3)] by auto
  obtain l where l: "n = LeafN l" "leaf_repr cap a xs sib l" using node_isE_leaf [OF g(3)] "1.prems"(2) by auto
  show ?case
    using C g(1,2) l leaf_search_spec [OF l(2), of k] release_read [of "put_store s C2" "unshare locks (ct_view C)" a] F(4) [of a]
    by (subst search_with_concurrency_control.simps) (simp add: ct_tree_put_store)
next
  case (2 a ts)
  note F = free_belowD [OF "2.prems"(5)]
  have sep: "separated ts" using "2.prems"(2) by simp
  obtain C1 C2 where C: "ct_lock M READ_LOCK a C = Some (\<lparr>ld_id = a, ld_type = READ_LOCK\<rparr>, C1)" "release_parent M locks C1 = Some C2"
    "ct_tree C2 = ct_tree C" "ct_view C2 = (unshare locks (ct_view C))(a := (Suc 0, False))"
    using couple_read [OF F(1-3)] by auto
  obtain n s where g: "ref_get R a (ct_store C) = Some (n, s)" "quiet (ct_store C) s" "node_is cap (BNode a ts) n"
    using get_node [OF "2.prems"(1,3)] by auto
  obtain nd where nd: "n = InnerN nd" "inner_repr cap a (child_refs ts) nd" using node_isE_node [OF g(3) sep] .
  show ?case
  proof (cases "child_index k ts < 0")
    case True
    have "k \<notin> keys (forest_kvs ts)" using child_index_neg [OF sep True] keys_forest_kvs [of ts] by blast
    then have "map_of (forest_kvs ts) k = None" by (simp add: map_of_eq_None_iff)
    then show ?thesis
      using C g(1,2) nd locate_child_index_spec [OF nd(2), of k] True release_read [of "put_store s C2" "unshare locks (ct_view C)" a] F(4) [of a]
      by (subst search_with_concurrency_control.simps) (simp add: ct_tree_put_store)
  next
    case False
    then have k: "0 \<le> child_index k ts" by simp
    define i where "i = nat (child_index k ts)"
    note D = child_ref [OF "2.prems"(2) nd(2) k, folded i_def]
    let ?t = "snd (ts ! i)" and ?C = "put_store s C2" and ?l = "\<lparr>ld_id = a, ld_type = READ_LOCK\<rparr>"
    have t: "tree_in (blocks (ct_store ?C)) ?t" "bt_ok cap ?t" "inv (ct_store ?C)" "distinct (addrs ?t)"
      using "2.prems"(2-4) D(4) g(2) by (auto simp: quiet_def distinct_concat_iff)
    note B = free_below_child [OF "2.prems"(5,4) D(4), of ?C, simplified, OF C(4)]
    from "2.IH" [OF D(4) t(3,2,1,4) B(1)]
    obtain C' where C': "search_with_concurrency_control R M k [?l] (addr ?t) False ?C = Some (map_of (kvs ?t) k, [], C')"
      "quiet s (ct_store C')" "ct_view C' = unshare [?l] (ct_view C2)" "ct_tree C' = (ct_tree ?C)\<lparr>store := ct_store C'\<rparr>" by auto
    have "search_with_concurrency_control R M k locks a False C = Some (map_of (kvs ?t) k, [], C')"
      using C(1-3) g(1) nd(1) D(2,3) False C'(1)
      by (subst search_with_concurrency_control.simps) (simp add: release_own_def)
    moreover have "map_of (kvs ?t) k = map_of (forest_kvs ts) k" using child_entries(4) [OF sep k] by (simp add: i_def)
    moreover have "quiet (ct_store C) (ct_store C')" using quiet_trans [OF g(2) C'(2)] .
    moreover have "ct_tree C' = (ct_tree C)\<lparr>store := ct_store C'\<rparr>" using C'(4) C(3) by (simp add: put_store_def)
    moreover have "ct_view C' = unshare locks (ct_view C)" using C'(3) B(2) C(4) by simp
    ultimately show ?thesis by (intro exI [of _ C']) simp
  qed
qed

section \<open>Optimistic insertion\<close>

definition stored :: "('k, 'v) bt \<Rightarrow> 's \<Rightarrow> ('k, 'v) bt \<Rightarrow> 's \<Rightarrow> bool" where
  "stored t s t' s' \<longleftrightarrow> inv s' \<and> room s' = room s \<and> owned s' = owned s \<and> tree_in (blocks s') t'
     \<and> (\<forall>x. x \<notin> set (addrs t) \<longrightarrow> blocks s' x = blocks s x)"

lemma optimistic_ok:
  assumes "inv (ct_store C)" "bt_ok cap t" "2 \<le> cap" "bt_height h t" "tree_in (blocks (ct_store C)) t" "tree_env (ct_store C) t r"
    "free_below locks t C"
  shows "\<exists>ok C'. insert_with_optimistic_concurrency_control R M cap k v locks (addr t) (int h + 1) False C = Some (ok, [], C')
     \<and> ct_view C' = unshare locks (ct_view C) \<and> ct_tree C' = (ct_tree C)\<lparr>store := ct_store C'\<rparr>
     \<and> (if ok then \<exists>t'. (\<forall>rest. bt_ins cap k v rest t = (t', None, rest)) \<and> stored t (ct_store C) t' (ct_store C')
        else quiet (ct_store C) (ct_store C'))"
  using assms
proof (induction t arbitrary: C locks h r rule: kvs.induct)
  case (1 a xs sib)
  let ?t = "BLeaf a xs sib"
  note F = free_belowD [OF "1.prems"(7)]
  have h: "h = 0" using "1.prems"(4) by simp
  obtain C1 C2 where C: "ct_lock M WRITE_LOCK a C = Some (\<lparr>ld_id = a, ld_type = WRITE_LOCK\<rparr>, C1)" "release_parent M locks C1 = Some C2"
    "ct_tree C2 = ct_tree C" "ct_view C2 = (unshare locks (ct_view C))(a := (0, True))"
    using couple_write [OF F(1-3)] by auto
  have rel: "ct_view (ct_release M \<lparr>ld_id = a, ld_type = WRITE_LOCK\<rparr> (put_store s C2)) = unshare locks (ct_view C)" for s
    using release_write [of "put_store s C2" "unshare locks (ct_view C)" a] F(4) [of a] C(4) by simp
  obtain n s where g: "ref_get R a (ct_store C) = Some (n, s)" "quiet (ct_store C) s" "node_is cap ?t n"
    using get_node [OF "1.prems"(1,5)] by auto
  obtain l where l: "n = LeafN l" "leaf_repr cap a xs sib l" using node_isE_leaf [OF g(3)] "1.prems"(2) by auto
  have sz: "leaf_size l = length xs" "length xs \<le> cap" using leaf_reprD [OF l(2)] "1.prems"(2) by simp_all
  show ?case
  proof (cases "length xs = cap")
    case True
    then show ?thesis
      using C(1-3) g(1,2) l(1) rel sz h
      by (subst insert_with_optimistic_concurrency_control.simps) (auto simp: ct_tree_put_store)
  next
    case False
    then have less: "length xs < cap" using sz by simp
    obtain l' where l': "leaf_insert cap k v l = Some (True, l')" "leaf_repr cap a (kv_put k v xs) sib l'" "leaf_modified l'"
      using leaf_insert_spec [OF l(2), of k v] less by blast
    let ?t' = "BLeaf a (kv_put k v xs) sib"
    have q: "inv s" "a \<in> owned s" "valid_ref a" "valid_ref sib" "room s = room (ct_store C)" "owned s = owned (ct_store C)" "blocks s = blocks (ct_store C)"
      using g(2) "1.prems"(6) by (auto simp: quiet_def tree_env_def first_leaf_def)
    obtain s' where s': "ref_close R (addr ?t') (LeafN l') s = Some s'" "inv s'" "room s' = room s" "owned s' = owned s"
      "blocks s' = (blocks s)(addr ?t' \<mapsto> bt_content ?t')" "tree_in (blocks s') ?t'"
      by (rule close_node [OF q(1) leaf_repr_node_is [OF l'(2)]]) (use q l'(3) in auto)
    have "bt_ins cap k v rest ?t = (?t', None, rest)" for rest using less by (simp add: ins_split_def)
    moreover have "stored ?t (ct_store C) ?t' s'" using s' q by (simp add: stored_def)
    ultimately show ?thesis
      using C(1-3) g(1) l(1) rel sz(1) h False l'(1) s'(1)
      by (subst insert_with_optimistic_concurrency_control.simps) (auto simp: ct_tree_put_store)
  qed
next
  case (2 a ts)
  note F = free_belowD [OF "2.prems"(7)]
  have sep: "separated ts" "ts \<noteq> []" using "2.prems"(2) by simp_all
  have dist: "distinct (addrs (BNode a ts))" using "2.prems"(6) by (simp add: tree_env_def)
  obtain d where d: "h = Suc d" "\<forall>p\<in>set ts. bt_height d (snd p)" using "2.prems"(4) by auto
  obtain C1 C2 where C: "ct_lock M READ_LOCK a C = Some (\<lparr>ld_id = a, ld_type = READ_LOCK\<rparr>, C1)" "release_parent M locks C1 = Some C2"
    "ct_tree C2 = ct_tree C" "ct_view C2 = (unshare locks (ct_view C))(a := (Suc 0, False))"
    using couple_read [OF F(1-3)] by auto
  obtain n s where g: "ref_get R a (ct_store C) = Some (n, s)" "quiet (ct_store C) s" "node_is cap (BNode a ts) n"
    using get_node [OF "2.prems"(1,5)] by auto
  obtain nd where nd: "n = InnerN nd" "inner_repr cap a (child_refs ts) nd" using node_isE_node [OF g(3) sep(1)] .
  show ?case
  proof (cases "child_index k ts < 0")
    case True
    then show ?thesis
      using C g(1,2) nd locate_child_index_spec [OF nd(2), of k] d(1)
        release_read [of "put_store s C2" "unshare locks (ct_view C)" a] F(4) [of a]
      by (subst insert_with_optimistic_concurrency_control.simps) (auto simp: ct_tree_put_store release_own_def)
  next
    case False
    then have k: "0 \<le> child_index k ts" by simp
    define i where "i = nat (child_index k ts)"
    note D = child_ref [OF "2.prems"(2) nd(2) k, folded i_def]
    let ?t = "snd (ts ! i)" and ?C = "put_store s C2" and ?l = "\<lparr>ld_id = a, ld_type = READ_LOCK\<rparr>"
    have q: "inv s" "room s = room (ct_store C)" "owned s = owned (ct_store C)" "blocks s = blocks (ct_store C)" using g(2) by (simp_all add: quiet_def)
    have kids: "\<forall>p\<in>set ts. tree_in (blocks s) (snd p)" using "2.prems"(5) q(4) by simp
    have t: "inv (ct_store ?C)" "bt_ok cap ?t" "tree_in (blocks (ct_store ?C)) ?t" "bt_height d ?t"
      using "2.prems"(2) D(4) q(1) d(2) kids by auto
    have env: "tree_env s (BNode a ts) r" using "2.prems"(6) q(3) by (simp add: tree_env_def)
    then have env1: "tree_env (ct_store ?C) ?t (first_leaf (forest_leaves (drop (Suc i) ts)) r)"
      using child_frame(4) [OF env, of "blocks s" i "[]" "blocks s"] kids D(1) by simp
    note B = free_below_child [OF "2.prems"(7) dist D(4), of ?C, simplified, OF C(4)]
    from "2.IH" [OF D(4) t(1,2) "2.prems"(3) t(4,3) env1 B(1), unfolded ctree_frames]
    obtain ok C' where C': "insert_with_optimistic_concurrency_control R M cap k v [?l] (addr ?t) (int d + 1) False ?C = Some (ok, [], C')"
      "ct_view C' = unshare [?l] (ct_view C2)" "ct_tree C' = (ct_tree ?C)\<lparr>store := ct_store C'\<rparr>"
      "if ok then \<exists>t'. (\<forall>rest. bt_ins cap k v rest ?t = (t', None, rest)) \<and> stored ?t s t' (ct_store C') else quiet s (ct_store C')"
      by blast
    have run: "insert_with_optimistic_concurrency_control R M cap k v locks a (int h + 1) False C = Some (ok, [], C')"
      using C(1-3) g(1) nd(1) D(2,3) False C'(1) d(1)
      by (subst insert_with_optimistic_concurrency_control.simps) (simp add: release_own_def add.commute)
    have post: "\<exists>t'. (\<forall>rest. bt_ins cap k v rest (BNode a ts) = (t', None, rest)) \<and> stored (BNode a ts) (ct_store C) t' (ct_store C')" if ok
    proof -
      obtain t1 where t1: "\<forall>rest. bt_ins cap k v rest ?t = (t1, None, rest)" "stored ?t s t1 (ct_store C')" using C'(4) \<open>ok\<close> by auto
      have eq: "bt_ins cap k v rest (BNode a ts) = (BNode a (ts[i := (fst (ts ! i), t1)]), None, rest)" for rest
        using bt_ins_unfold [OF D(1) i_def refl, of cap v rest t1 None rest a] t1(1) False by simp
      have frame: "\<forall>x. x \<notin> set (addrs ?t) \<union> set [] \<longrightarrow> blocks (ct_store C') x = blocks s x" using t1(2) by (simp add: stored_def)
      note Fr = child_frame [OF env kids D(1) _ frame]
      have "addr t1 = addr ?t" using bt_ins_addr [OF spec [OF t1(1)]] .
      then have "child_refs (ts[i := (fst (ts ! i), t1)]) = child_refs ts"
        using D(1) list_update_id [of "child_refs ts" i] by (simp add: child_refs_def map_update)
      moreover have "blocks s a = Some (InnerC a (child_refs ts))" using "2.prems"(5) q(4) by simp
      moreover have "\<forall>p\<in>set (ts[i := (fst (ts ! i), t1)]). tree_in (blocks (ct_store C')) (snd p)"
        using Fr(1) t1(2) D(1) by (auto simp: stored_def upd_conv_take_nth_drop)
      ultimately have "tree_in (blocks (ct_store C')) (BNode a (ts[i := (fst (ts ! i), t1)]))" using Fr(2) by simp
      then have "stored (BNode a ts) (ct_store C) (BNode a (ts[i := (fst (ts ! i), t1)])) (ct_store C')"
        using t1(2) Fr(3) q by (simp add: stored_def)
      then show ?thesis using eq by blast
    qed
    have "quiet (ct_store C) (ct_store C')" if "\<not> ok" using C'(4) that quiet_trans [OF g(2)] by simp
    moreover have "ct_tree C' = (ct_tree C)\<lparr>store := ct_store C'\<rparr>" using C'(3) C(3) by (simp add: put_store_def)
    moreover have "ct_view C' = unshare locks (ct_view C)" using C'(2) B(2) C(4) by simp
    ultimately show ?thesis using run post by (intro exI [of _ ok] exI [of _ C']) simp
  qed
qed

section \<open>Pessimistic insertion\<close>

definition ct_post :: "('k, 'v) bt \<Rightarrow> 's \<Rightarrow> blk_address list \<Rightarrow> ('k, 'v) bt \<Rightarrow> ('k \<times> ('k, 'v) bt) option
    \<Rightarrow> ('k, ('k, 'v) node) split option \<Rightarrow> 's \<Rightarrow> bool" where
  "ct_post t s us t' tsp sp s' \<longleftrightarrow>
     inv s' \<and> owned s' = owned s \<union> set us \<and> set us \<inter> owned s = {} \<and> distinct us \<and> (\<forall>a\<in>set us. valid_ref a \<and> a \<noteq> -1)
     \<and> tree_in (blocks s') t' \<and> (\<forall>x. x \<notin> set (addrs t) \<union> set us \<longrightarrow> blocks s' x = blocks s x)
     \<and> (case tsp of None \<Rightarrow> sp = None
        | Some (b, rt) \<Rightarrow> tree_in (blocks s') rt
            \<and> (\<exists>ln rn. sp = Some \<lparr>split_left = ln, split_right = rn, boundary_key = b\<rparr> \<and> node_is cap t' ln \<and> node_is cap rt rn))"

text \<open>The nodes that an insertion leaves in memory are written, the left half first.\<close>

lemma write_result:
  assumes env: "tree_env s t r" and ok: "bt_ok cap t" "2 \<le> cap"
    and ins: "\<forall>rest. bt_ins cap k v (us @ rest) t = (t', tsp, rest)" and inv1: "inv s1"
    and P: "owned s1 = owned s \<union> set us" "set us \<inter> owned s = {}" "distinct us" "\<forall>a\<in>set us. valid_ref a \<and> a \<noteq> -1"
    and n: "node_is cap t' n'" "kids_in (blocks s1) t'" "is_modified n' \<or> tsp = None \<and> blocks s1 (addr t) = Some (bt_content t')"
    and frame: "\<forall>x. x \<notin> set (addrs t) \<union> set us \<longrightarrow> blocks s1 x = blocks s x"
    and sp: "case tsp of None \<Rightarrow> sp = None
        | Some (b, rt) \<Rightarrow> \<exists>rn. sp = Some \<lparr>split_left = n', split_right = rn, boundary_key = b\<rparr>
            \<and> node_is cap rt rn \<and> kids_in (blocks s1) rt \<and> is_modified rn"
  shows "\<exists>s2 s3. ref_close R (addr t) n' s1 = Some s2
     \<and> (case sp of None \<Rightarrow> s3 = s2 | Some p \<Rightarrow> ref_close R (node_self (split_right p)) (split_right p) s2 = Some s3)
     \<and> room s3 = room s1 \<and> ct_post t s us t' tsp sp s3"
proof -
  note F = ins_forest [OF env ok ins P, where x = undefined, OF refl]
  have at: "addr t' \<in> set (addrs t) \<union> set us" using F(7) by simp
  show ?thesis
  proof (cases tsp)
    case None
    have own: "addr t' \<in> owned s1" "distinct (addrs t')" using F(1,3) None addr_in_addrs [of t'] by (auto simp: grown_def)
    have w: "is_modified n' \<and> (\<forall>x\<in>content_refs (bt_content t'). valid_ref x) \<or> blocks s1 (addr t') = Some (bt_content t')"
      using n(3) F(5,7) None by (auto simp: grown_def)
    obtain s2 where s2: "ref_close R (addr t') n' s1 = Some s2" "inv s2" "room s2 = room s1" "owned s2 = owned s1"
      "blocks s2 = (blocks s1)(addr t' \<mapsto> bt_content t')" "tree_in (blocks s2) t'"
      using close_node [OF inv1 n(1) own(1) n(2) own(2) w] by blast
    have "\<forall>x. x \<notin> set (addrs t) \<union> set us \<longrightarrow> blocks s2 x = blocks s x" using s2(5) frame at by auto
    then have "ct_post t s us t' tsp sp s2" using s2 P sp None by (simp add: ct_post_def)
    then show ?thesis using s2 F(7) sp None by (intro exI [of _ s2]) simp
  next
    case (Some p)
    then obtain b rt where p: "tsp = Some (b, rt)" by (cases p) simp
    then obtain rn where rn: "sp = Some \<lparr>split_left = n', split_right = rn, boundary_key = b\<rparr>"
      "node_is cap rt rn" "kids_in (blocks s1) rt" "is_modified rn" using sp by auto
    have G: "distinct (addrs t' @ addrs rt)" "set (addrs t' @ addrs rt) \<subseteq> owned s1"
      "\<forall>x\<in>content_refs (bt_content t') \<union> content_refs (bt_content rt). valid_ref x" "addr rt \<in> set (addrs t) \<union> set us"
      using F(1,2,3,5) p addr_in_addrs [of rt] by (auto simp: grown_def)
    obtain s2 s3 where s3: "ref_close R (addr t') n' s1 = Some s2" "ref_close R (addr rt) rn s2 = Some s3" "inv s3"
      "room s3 = room s1" "owned s3 = owned s1" "tree_in (blocks s3) t'" "tree_in (blocks s3) rt"
      "blocks s3 = (blocks s1)(addr t' \<mapsto> bt_content t', addr rt \<mapsto> bt_content rt)"
      by (rule close_pair [OF inv1 n(1) rn(2) _ rn(4) n(2) rn(3) G(1,2,3)]) (use n(3) p in simp)
    have "\<forall>x. x \<notin> set (addrs t) \<union> set us \<longrightarrow> blocks s3 x = blocks s x" using s3(8) frame at G(4) by auto
    then have "ct_post t s us t' tsp sp s3" using s3 P p rn(1,2) n(1) by (simp add: ct_post_def)
    then show ?thesis using s3 F(7) rn(1) node_is_self [OF rn(2)] by (intro exI [of _ s2] exI [of _ s3]) simp
  qed
qed

lemma pessimistic_leaf_ok:
  assumes "inv (ct_store C)" "leaf_repr cap a xs sib leaf" "2 \<le> cap" "room (ct_store C) (Suc m)" "tree_in (blocks (ct_store C)) (BLeaf a xs sib)"
    "tree_env (ct_store C) (BLeaf a xs sib) r" "bt_ok cap (BLeaf a xs sib)"
  shows "\<exists>sp us t' tsp s'. pessimistic_leaf R M cap k v l locks False leaf C = Some (sp, butlast locks, ct_release M l (put_store s' C))
     \<and> (\<forall>rest. bt_ins cap k v (us @ rest) (BLeaf a xs sib) = (t', tsp, rest)) \<and> room s' m
     \<and> ct_post (BLeaf a xs sib) (ct_store C) us t' tsp sp s'"
proof -
  have e: "a \<in> owned (ct_store C)" "valid_ref sib" using assms(6) by (auto simp: tree_env_def first_leaf_def)
  obtain n' sp us t' tsp s1 where L: "leaf_iwss R cap k v leaf (ct_store C) = Some (n', sp, s1)"
    "\<forall>rest. bt_ins cap k v (us @ rest) (BLeaf a xs sib) = (t', tsp, rest)" "room s1 m"
    "ins_post (BLeaf a xs sib) (ct_store C) n' sp s1 us t' tsp"
    using leaf_iwss_ok [OF assms(1-4) e] by blast
  have P: "inv s1" "owned s1 = owned (ct_store C) \<union> set us" "set us \<inter> owned (ct_store C) = {}" "distinct us"
    "\<forall>a\<in>set us. valid_ref a \<and> a \<noteq> -1" "node_is cap t' n'" "kids_in (blocks s1) t'"
    "\<forall>x. x \<notin> set (addrs (BLeaf a xs sib)) \<union> set us \<longrightarrow> blocks s1 x = blocks (ct_store C) x"
    "is_modified n' \<or> tsp = None \<and> bt_content t' = bt_content (BLeaf a xs sib)" "blocks s1 a = blocks (ct_store C) a"
    and sp: "case tsp of None \<Rightarrow> sp = None
        | Some (b, rt) \<Rightarrow> \<exists>rn. sp = Some \<lparr>split_left = n', split_right = rn, boundary_key = b\<rparr>
            \<and> node_is cap rt rn \<and> kids_in (blocks s1) rt \<and> is_modified rn"
    using L(4) unfolding ins_post_def by simp_all
  have w: "is_modified n' \<or> tsp = None \<and> blocks s1 (addr (BLeaf a xs sib)) = Some (bt_content t')" using P(9,10) assms(5) by auto
  from write_result [OF assms(6,7,3) L(2) P(1-7) w P(8) sp]
  obtain s2 s3 where S: "ref_close R a n' s1 = Some s2"
    "case sp of None \<Rightarrow> s3 = s2 | Some p \<Rightarrow> ref_close R (node_self (split_right p)) (split_right p) s2 = Some s3"
    "room s3 = room s1" "ct_post (BLeaf a xs sib) (ct_store C) us t' tsp sp s3" by auto
  have "node_self n' = a" using node_is_self [OF P(6)] bt_ins_addr [OF spec [OF L(2)]] by simp
  then have "pessimistic_leaf R M cap k v l locks False leaf C = Some (sp, butlast locks, ct_release M l (put_store s3 C))"
    using L(1) S(1,2) by (cases sp) (simp_all add: pessimistic_leaf_def)
  moreover have "room s3 m" using L(3) S(3) by simp
  ultimately show ?thesis using L(2) S(4) by blast
qed

lemma tree_in_owned: "inv s \<Longrightarrow> tree_in (blocks s) t \<Longrightarrow> set (addrs t) \<subseteq> owned s"
proof (induction t rule: kvs.induct)
  case (1 a xs sib)
  then show ?case using owned_blocks [of s] by (auto simp: dom_def)
next
  case (2 a ts)
  have "a \<in> dom (blocks s)" using "2.prems"(2) by (simp add: dom_def)
  then have "a \<in> owned s" using owned_blocks [OF "2.prems"(1)] by blast
  moreover have "set (addrs (snd p)) \<subseteq> owned s" if "p \<in> set ts" for p using "2.IH" [OF that "2.prems"(1)] "2.prems"(2) that by simp
  ultimately show ?case by auto
qed

text \<open>The inner node, after its child has been dealt with.\<close>

lemma pessimistic_inner_ok:
  assumes env: "tree_env s (BNode a ts) r" and ok: "bt_ok cap (BNode a ts)" and c: "2 \<le> cap"
    and node: "tree_in (blocks s) (BNode a ts)"
    and i: "i = nat (child_index k ts)" and x: "x = (if child_index k ts < 0 then k else fst (ts ! i))"
    and nd1: "inner_repr cap a (child_refs (ts[i := (x, snd (ts ! i))])) nd1" "inner_modified nd1 \<or> ts[i := (x, snd (ts ! i))] = ts"
    and child: "\<forall>rest. bt_ins cap k v (us1 @ rest) (snd (ts ! i)) = (t1, tsp1, rest)" "ct_post (snd (ts ! i)) s us1 t1 tsp1 sp1 (ct_store C)"
    and rm: "room (ct_store C) (Suc m)" and l: "ld_id l = a"
  shows "\<exists>sp us t' tsp s'. pessimistic_inner R M cap a False (int i) nd1 sp1 (ls @ [l]) C
        = Some (sp, if sp1 = None then (ls @ [l], put_store s' C) else (ls, ct_release M l (put_store s' C)))
     \<and> (\<forall>rest. bt_ins cap k v (us @ rest) (BNode a ts) = (t', tsp, rest)) \<and> room s' m \<and> ct_post (BNode a ts) s us t' tsp sp s'"
proof -
  have sep: "separated ts" "ts \<noteq> []" using ok by simp_all
  note D = descend [OF sep, of k, folded i, folded x]
  let ?t = "snd (ts ! i)" and ?s2 = "ct_store C"
  have kids: "\<forall>p\<in>set ts. tree_in (blocks s) (snd p)" and a0: "blocks s a = Some (InnerC a (child_refs ts))" using node by simp_all
  have P: "inv ?s2" "owned ?s2 = owned s \<union> set us1" "set us1 \<inter> owned s = {}" "distinct us1" "\<forall>a\<in>set us1. valid_ref a \<and> a \<noteq> -1"
    "tree_in (blocks ?s2) t1" "\<forall>x. x \<notin> set (addrs ?t) \<union> set us1 \<longrightarrow> blocks ?s2 x = blocks s x"
    using child(2) unfolding ct_post_def by blast+
  note Fr = child_frame [OF env kids D(1) P(3,7)]
  define xs where "xs = take i ts @ (x, t1) # drop (Suc i) ts"
  have xs: "ts[i := (x, t1)] = xs" using D(1) by (simp add: xs_def upd_conv_take_nth_drop)
  have refs: "child_refs xs = child_refs (ts[i := (x, ?t)])"
    using bt_ins_addr [OF spec [OF child(1)]] D(1) by (simp add: xs_def upd_conv_take_nth_drop)
  have nd1': "inner_repr cap a (child_refs xs) nd1" using nd1(1) refs by simp
  have kidsx: "\<forall>p\<in>set xs. tree_in (blocks ?s2) (snd p)" using Fr(1) P(6) by (simp add: xs_def ball_Un)
  have pure: "bt_ins cap k v (us1 @ rest) (BNode a ts) = (case tsp1 of None \<Rightarrow> (BNode a xs, None, rest)
      | Some (b, r) \<Rightarrow> (case ins_child cap b r xs of (us, None) \<Rightarrow> (BNode a us, None, rest)
        | (us, Some ws) \<Rightarrow> (BNode a us, Some (fst (hd ws), BNode (hd rest) ws), tl rest)))" for rest
    using bt_ins_unfold [OF D(1) i x spec [OF child(1)], of rest a] unfolding xs .
  have rm': "room ?s2 m" using room_mono [OF rm] by simp
  show ?thesis
  proof (cases tsp1)
    case None
    have sp1: "sp1 = None" using child(2) None by (simp add: ct_post_def)
    have ins: "\<forall>rest. bt_ins cap k v (us1 @ rest) (BNode a ts) = (BNode a xs, None, rest)" using pure None by simp
    show ?thesis
    proof (cases "inner_modified nd1")
      case True
      from write_result [OF env ok c ins P(1-5) inner_repr_node_is [OF nd1'], of None] kidsx True Fr(3)
      obtain s3 where "ref_close R a (InnerN nd1) ?s2 = Some s3" "room s3 = room ?s2" "ct_post (BNode a ts) s us1 (BNode a xs) None None s3" by auto
      then show ?thesis using sp1 True ins rm' by (intro exI [of _ None] exI [of _ us1] exI [of _ "BNode a xs"] exI [of _ s3])
          (simp add: pessimistic_inner_def)
    next
      case False
      then have "child_refs xs = child_refs ts" using nd1(2) refs by simp
      then have "tree_in (blocks ?s2) (BNode a xs)" using kidsx Fr(2) a0 by simp
      then have "ct_post (BNode a ts) s us1 (BNode a xs) None None ?s2" using P Fr(3) by (simp add: ct_post_def)
      moreover have "put_store ?s2 C = C" by (simp add: put_store_def)
      ultimately show ?thesis using sp1 False ins rm' by (intro exI [of _ None] exI [of _ us1] exI [of _ "BNode a xs"] exI [of _ ?s2])
          (simp add: pessimistic_inner_def)
    qed
  next
    case (Some p)
    then obtain b t2 where p: "tsp1 = Some (b, t2)" by (cases p) simp
    obtain ln rn where sp1: "sp1 = Some \<lparr>split_left = ln, split_right = rn, boundary_key = b\<rparr>" "node_self rn = addr t2" "tree_in (blocks ?s2) t2"
      using child(2) p node_is_self [of cap t2] by (auto simp: ct_post_def)
    have "separated (take i ts @ grown x t1 tsp1 @ drop (Suc i) ts)"
      using bt_ins_child_ok(2) [OF ok c i x spec [OF child(1), of "[]"] refl] by blast
    then have sepF: "separated (take i ts @ (x, t1) # (b, t2) # drop (Suc i) ts)" using p by (simp add: grown_def)
    have b: "b \<notin> keys (child_refs xs)" "rank b (child_refs xs) = Suc i"
      using kv_put_here(2,3) [OF sepF] D(1) unfolding child_refs_simps xs_def by simp_all
    note take = inner_take_split_spec [OF nd1' c b, where ch = "addr t2", unfolded ins_child_refs]
    have sz: "inner_size nd1 = length xs" using inner_reprD(4) [OF nd1'] by simp
    have all: "\<forall>p\<in>insert (b, t2) (set xs). tree_in (blocks ?s2) (snd p)" using kidsx sp1(3) by simp
    show ?thesis
    proof (cases "length xs < cap")
      case True
      then obtain fs where fs: "ins_child cap b t2 xs = (fs, None)" by (simp add: ins_child_def)
      obtain nd' where nd': "inner_take_split cap (-1) (int i) b (addr t2) nd1 = Some (nd', None)"
        "inner_repr cap a (child_refs fs) nd'" "inner_modified nd'" using take [of "-1"] fs by auto
      have ins: "\<forall>rest. bt_ins cap k v (us1 @ rest) (BNode a ts) = (BNode a fs, None, rest)" using pure p fs by simp
      have "\<forall>p\<in>set fs. tree_in (blocks ?s2) (snd p)" using all ins_child_set [OF fs] by blast
      with write_result [OF env ok c ins P(1-5) inner_repr_node_is [OF nd'(2)], of None] nd'(3) Fr(3)
      obtain s3 where "ref_close R a (InnerN nd') ?s2 = Some s3" "room s3 = room ?s2" "ct_post (BNode a ts) s us1 (BNode a fs) None None s3" by auto
      then show ?thesis using sp1 True sz nd'(1) ins rm' l by (intro exI [of _ None] exI [of _ us1] exI [of _ "BNode a fs"] exI [of _ s3])
          (simp add: pessimistic_inner_def)
    next
      case False
      then obtain fs ws where fs: "ins_child cap b t2 xs = (fs, Some ws)"
        by (cases "rank b xs \<le> cap div 2") (auto simp: ins_child_def)
      obtain f s0 where f: "allocate_ref R ?s2 = Some (f, s0)" "inv s0" "room s0 m" "\<forall>x. x \<noteq> f \<longrightarrow> blocks s0 x = blocks ?s2 x"
        "f \<notin> owned ?s2" "owned s0 = insert f (owned ?s2)" "valid_ref f" "f \<noteq> -1" using alloc [OF P(1) rm] by blast
      obtain nd' rd where nd': "inner_take_split cap f (int i) b (addr t2) nd1
          = Some (nd', Some \<lparr>split_left = nd', split_right = rd, boundary_key = fst (hd (child_refs ws))\<rparr>)"
        "inner_repr cap a (child_refs fs) nd'" "inner_repr cap f (child_refs ws) rd" "child_refs ws \<noteq> []" "inner_modified nd'" "inner_modified rd"
        using take [of f] fs by auto
      have ws: "ws \<noteq> []" "fst (hd (child_refs ws)) = fst (hd ws)" using nd'(4) by (auto simp: child_refs_def hd_map)
      let ?us = "us1 @ [f]" and ?tsp = "Some (fst (hd ws), BNode f ws)"
      let ?sp = "\<lparr>split_left = InnerN nd', split_right = InnerN rd, boundary_key = fst (hd ws)\<rparr>"
      have ins: "\<forall>rest. bt_ins cap k v (?us @ rest) (BNode a ts) = (BNode a fs, ?tsp, rest)" using pure p fs by simp
      have Q: "owned s0 = owned s \<union> set ?us" "set ?us \<inter> owned s = {}" "distinct ?us" "\<forall>a\<in>set ?us. valid_ref a \<and> a \<noteq> -1"
        using f P by auto
      have "tree_in (blocks s0) t" if "tree_in (blocks ?s2) t" for t
        using tree_in_owned [OF P(1) that] f(4,5) by (intro tree_in_cong [OF that]) auto
      moreover have "set fs \<union> set ws \<subseteq> insert (b, t2) (set xs)" using ins_child_set [OF fs] by simp
      ultimately have all0: "\<forall>p\<in>set fs \<union> set ws. tree_in (blocks s0) (snd p)" using all by blast
      have frame: "\<forall>x. x \<notin> set (addrs (BNode a ts)) \<union> set ?us \<longrightarrow> blocks s0 x = blocks s x" using f(4) Fr(3) by simp
      from write_result [OF env ok c ins f(2) Q inner_repr_node_is [OF nd'(2)] _ _ frame, of "Some ?sp"] all0 nd'(5,6) inner_repr_node_is [OF nd'(3)]
      obtain s2 s3 where S: "ref_close R a (InnerN nd') s0 = Some s2" "ref_close R (inner_self rd) (InnerN rd) s2 = Some s3" "room s3 = room s0"
        "ct_post (BNode a ts) s ?us (BNode a fs) ?tsp (Some ?sp) s3" by auto
      have "pessimistic_inner R M cap a False (int i) nd1 sp1 (ls @ [l]) C = Some (Some ?sp, ls, ct_release M l (put_store s3 C))"
        using sp1 False sz nd'(1) f(1) S(1,2) l ws(2) by (simp add: pessimistic_inner_def)
      moreover have "room s3 m" using S(3) f(3) by simp
      ultimately show ?thesis using sp1(1) ins S(4) by (intro exI [of _ "Some ?sp"] exI [of _ ?us] exI [of _ "BNode a fs"] exI [of _ ?tsp] exI [of _ s3]) simp
    qed
  qed
qed

lemma pessimistic_ok:
  assumes "inv (ct_store C)" "bt_ok cap t" "2 \<le> cap" "bt_height h t" "room (ct_store C) (Suc h + m)"
    "tree_in (blocks (ct_store C)) t" "tree_env (ct_store C) t r"
    "\<forall>x\<in>set (addrs t). ct_view C x = (0, False)" "\<forall>l\<in>set locks. ld_id l \<notin> set (addrs t)"
  shows "\<exists>sp us t' tsp C'. insert_with_pessimistic_concurrency_control R M cap k v locks (addr t) False C = Some (sp, locks, C')
     \<and> (\<forall>rest. bt_ins cap k v (us @ rest) t = (t', tsp, rest)) \<and> room (ct_store C') m
     \<and> ct_post t (ct_store C) us t' tsp sp (ct_store C') \<and> ct_view C' = ct_view C \<and> ct_tree C' = (ct_tree C)\<lparr>store := ct_store C'\<rparr>"
  using assms
proof (induction t arbitrary: C locks h m r rule: kvs.induct)
  case (1 a xs sib)
  let ?t = "BLeaf a xs sib" and ?l = "\<lparr>ld_id = a, ld_type = WRITE_LOCK\<rparr>"
  obtain L where L: "get_write_lock M a (ct_locks C) = Some (?l, L)" "lm_view view L = (ct_view C)(a := (0, True))"
    using get_write_lock_ok [of "ct_locks C" a] "1.prems"(8) by auto
  obtain n s where g: "ref_get R a (ct_store C) = Some (n, s)" "quiet (ct_store C) s" "node_is cap ?t n"
    using get_node [OF "1.prems"(1,6)] by auto
  obtain leaf where l: "n = LeafN leaf" "leaf_repr cap a xs sib leaf" using node_isE_leaf [OF g(3)] "1.prems"(2) by auto
  let ?C = "put_store s (C\<lparr>ct_locks := L\<rparr>)"
  have q: "inv s" "room s = room (ct_store C)" "owned s = owned (ct_store C)" "blocks s = blocks (ct_store C)" using g(2) by (simp_all add: quiet_def)
  have "room (ct_store ?C) (Suc m)" "inv (ct_store ?C)" "tree_in (blocks (ct_store ?C)) ?t" "tree_env (ct_store ?C) ?t r"
    using "1.prems"(4-7) q by (simp_all add: tree_env_def)
  from pessimistic_leaf_ok [OF this(2) l(2) "1.prems"(3) this(1,3,4) "1.prems"(2), of k v ?l "locks @ [?l]"]
  obtain sp us t' tsp s' where P: "pessimistic_leaf R M cap k v ?l (locks @ [?l]) False leaf ?C = Some (sp, locks, ct_release M ?l (put_store s' ?C))"
    "\<forall>rest. bt_ins cap k v (us @ rest) ?t = (t', tsp, rest)" "room s' m" "ct_post ?t s us t' tsp sp s'"
    unfolding butlast_snoc ctree_frames by blast
  let ?C' = "ct_release M ?l (put_store s' ?C)"
  have "insert_with_pessimistic_concurrency_control R M cap k v locks (addr ?t) False C = Some (sp, locks, ?C')"
    using L(1) g(1) l(1) P(1) by (subst insert_with_pessimistic_concurrency_control.simps) (simp add: ct_lock_def)
  moreover have "ct_view ?C' = ct_view C"
    using release_write [of "put_store s' ?C" "ct_view C" a] L(2) "1.prems"(8) by simp
  moreover have "ct_post ?t (ct_store C) us t' tsp sp s'" using P(4) q by (simp add: ct_post_def)
  moreover have "ct_tree ?C' = (ct_tree C)\<lparr>store := ct_store ?C'\<rparr>" by (simp add: ct_tree_put_store)
  moreover have "ct_store ?C' = s'" by simp
  ultimately show ?case using P(2,3) by metis
next
  case (2 a ts)
  let ?t = "BNode a ts" and ?l = "\<lparr>ld_id = a, ld_type = WRITE_LOCK\<rparr>"
  have sep: "separated ts" "ts \<noteq> []" using "2.prems"(2) by simp_all
  obtain L where L: "get_write_lock M a (ct_locks C) = Some (?l, L)" "lm_view view L = (ct_view C)(a := (0, True))"
    using get_write_lock_ok [of "ct_locks C" a] "2.prems"(8) by auto
  obtain n s where g: "ref_get R a (ct_store C) = Some (n, s)" "quiet (ct_store C) s" "node_is cap ?t n"
    using get_node [OF "2.prems"(1,6)] by auto
  obtain nd where nd: "n = InnerN nd" "inner_repr cap a (child_refs ts) nd" using node_isE_node [OF g(3) sep(1)] .
  define C1 where "C1 = put_store s (C\<lparr>ct_locks := L\<rparr>)"
  have C1: "ct_store C1 = s" "ct_view C1 = (ct_view C)(a := (0, True))" "ct_tree C1 = (ct_tree C)\<lparr>store := s\<rparr>"
    using L(2) by (simp_all add: C1_def put_store_def)
  have q: "inv s" "room s = room (ct_store C)" "owned s = owned (ct_store C)" "blocks s = blocks (ct_store C)" using g(2) by (simp_all add: quiet_def)
  define i where "i = nat (child_index k ts)"
  define x where "x = (if child_index k ts < 0 then k else fst (ts ! i))"
  note D = descend [OF sep, of k, folded i_def, folded x_def]
  let ?c = "snd (ts ! i)"
  have mem: "ts ! i \<in> set ts" using D(1) by simp
  obtain nd1 where nd1: "(if child_index k ts < 0 then inner_set_first_key k nd else Some nd) = Some nd1"
    "inner_repr cap a (child_refs (ts[i := (x, ?c)])) nd1" "inner_modified nd1 \<or> nd1 = nd \<and> ts[i := (x, ?c)] = ts"
    using first_key_ok [OF "2.prems"(2) nd(2) i_def x_def] by blast
  have child: "get_child_rep nd1 (int i) = Some (addr ?c)"
    using inner_repr_aget(2) [OF nd1(2), of i] D(1) by (simp add: get_child_rep_def)
  have mx: "max 0 (child_index k ts) = int i" by (simp add: i_def)
  obtain d where h: "h = Suc d" "bt_height d ?c" using "2.prems"(4) mem by auto
  have env: "tree_env s ?t r" "tree_in (blocks s) ?t" using "2.prems"(6,7) q by (simp_all add: tree_env_def)
  have kids: "\<forall>p\<in>set ts. tree_in (blocks s) (snd p)" using env(2) by simp
  have cenv: "tree_env s ?c (first_leaf (forest_leaves (drop (Suc i) ts)) r)"
    using child_frame(4) [OF env(1), of "blocks s" i "[]" "blocks s"] kids D(1) by simp
  have a: "a \<notin> set (addrs ?c)" "set (addrs ?c) \<subseteq> set (addrs ?t)" using env(1) mem by (auto simp: tree_env_def)
  have "\<forall>y\<in>set (addrs ?c). ct_view C1 y = (0, False)" using a "2.prems"(8) C1(2) by auto
  moreover have "\<forall>l\<in>set (locks @ [?l]). ld_id l \<notin> set (addrs ?c)" using a "2.prems"(9) by auto
  moreover have "room s (Suc d + Suc m)" "bt_ok cap ?c" "tree_in (blocks s) ?c"
    using "2.prems"(2,5) h(1) q(2) kids mem by auto
  ultimately obtain sp1 us1 t1 tsp1 C2 where IH:
    "insert_with_pessimistic_concurrency_control R M cap k v (locks @ [?l]) (addr ?c) False C1 = Some (sp1, locks @ [?l], C2)"
    "\<forall>rest. bt_ins cap k v (us1 @ rest) ?c = (t1, tsp1, rest)" "room (ct_store C2) (Suc m)"
    "ct_post ?c s us1 t1 tsp1 sp1 (ct_store C2)" "ct_view C2 = ct_view C1" "ct_tree C2 = (ct_tree C1)\<lparr>store := ct_store C2\<rparr>"
    using "2.IH" [OF mem, of C1 d "Suc m" _ "locks @ [?l]", unfolded C1(1), OF q(1) _ "2.prems"(3) h(2) _ _ cenv] by blast
  have m1: "inner_modified nd1 \<or> ts[i := (x, ?c)] = ts" using nd1(3) by blast
  from pessimistic_inner_ok [OF env(1) "2.prems"(2,3) env(2) i_def x_def nd1(2) m1 IH(2,4,3), of ?l locks]
  obtain sp us t' tsp s' where P: "pessimistic_inner R M cap a False (int i) nd1 sp1 (locks @ [?l]) C2
        = Some (sp, if sp1 = None then (locks @ [?l], put_store s' C2) else (locks, ct_release M ?l (put_store s' C2)))"
     "\<forall>rest. bt_ins cap k v (us @ rest) ?t = (t', tsp, rest)" "room s' m" "ct_post ?t s us t' tsp sp s'" by auto
  let ?C' = "ct_release M ?l (put_store s' C2)"
  have "release_own M a (if sp1 = None then (locks @ [?l], put_store s' C2) else (locks, ?C')) = (locks, ?C')"
    using "2.prems"(9) last_in_set [of locks] by (auto simp: release_own_def)
  then have "insert_with_pessimistic_concurrency_control R M cap k v locks (addr ?t) False C = Some (sp, locks, ?C')"
    using L(1) g(1) nd(1) locate_child_index_spec [OF nd(2), of k] nd1(1) mx child IH(1) P(1)
    by (subst insert_with_pessimistic_concurrency_control.simps) (simp add: ct_lock_def C1_def)
  moreover have "ct_view ?C' = ct_view C"
    using release_write [of "put_store s' C2" "ct_view C" a] C1(2) IH(5) "2.prems"(8) by simp
  moreover have "ct_post ?t (ct_store C) us t' tsp sp s'" using P(4) q by (simp add: ct_post_def)
  moreover have "ct_tree ?C' = (ct_tree C)\<lparr>store := ct_store ?C'\<rparr>" using arg_cong [OF IH(6), of "\<lambda>T. T\<lparr>store := s'\<rparr>"] C1(3)
    by (simp add: ct_tree_put_store)
  moreover have "ct_store ?C' = s'" by simp
  ultimately show ?case using P(2,3) by metis
qed

section \<open>The calls\<close>

lemma ct_grow_ok:
  assumes s: "inv (ct_store C)" "room (ct_store C) (Suc m)" and c: "2 \<le> cap"
    and n: "node_is cap t1 n1" "node_is cap t2 n2" "tree_in (blocks (ct_store C)) t1" "tree_in (blocks (ct_store C)) t2"
    and len: "0 < bt_len t1" "0 < bt_len t2"
    and h: "bt_height h t1" "bt_height h t2" "h = nat (depth (ct_tree C)) - 1" "1 \<le> depth (ct_tree C)"
    and ok: "\<And>a. bt_ok cap (BNode a [(bt_first_key t1, t1), (bt_first_key t2, t2)])" "bt_first_key t1 < bt_first_key t2"
    and A: "distinct (addrs t1 @ addrs t2)" "set (addrs t1 @ addrs t2) \<subseteq> owned (ct_store C)"
      "\<forall>x\<in>set (addrs t1 @ addrs t2). valid_ref x \<and> x \<noteq> -1" "linked (leafseq t1 @ leafseq t2) (-1)"
  shows "\<exists>a C'. ct_grow R cap \<lparr>split_left = n1, split_right = n2, boundary_key = b\<rparr> C = Some C' \<and> room (ct_store C') m
     \<and> tree_is (ct_tree C') (BNode a [(bt_first_key t1, t1), (bt_first_key t2, t2)]) \<and> depth (ct_tree C') = depth (ct_tree C) + 1"
proof -
  obtain a s1 where a: "allocate_ref R (ct_store C) = Some (a, s1)" "inv s1" "room s1 m" "\<forall>x. x \<noteq> a \<longrightarrow> blocks s1 x = blocks (ct_store C) x"
    "a \<notin> owned (ct_store C)" "owned s1 = insert a (owned (ct_store C))" "valid_ref a" "a \<noteq> -1" using alloc [OF s] by blast
  let ?ts = "[(bt_first_key t1, t1), (bt_first_key t2, t2)]"
  have ok2: "bt_ok cap t1" "bt_ok cap t2" using ok(1) [of 0] by simp_all
  note lk = node_leftmost_key_ok [OF n(1) ok2(1) len(1)] node_leftmost_key_ok [OF n(2) ok2(2) len(2)]
  have self: "node_self n1 = addr t1" "node_self n2 = addr t2" using n(1,2) node_is_self by blast+
  have nz: "addr t1 \<noteq> -1" "addr t2 \<noteq> -1" using A(3) addr_in_addrs [of t1] addr_in_addrs [of t2] by auto
  obtain nd where nd: "new_inner_of cap a (bt_first_key t1, addr t1) (bt_first_key t2, addr t2) = Some nd"
    "inner_repr cap a (child_refs ?ts) nd"
    using new_inner_of_spec [OF c, of "(bt_first_key t1, addr t1)" "(bt_first_key t2, addr t2)" a] ok(2) nz
    by (auto simp: child_refs_def)
  have m: "inner_repr cap a (child_refs ?ts) (inner_mark nd)" using nd(2) by (simp add: inner_repr_def inner_list_def)
  have an: "a \<notin> set (addrs t1)" "a \<notin> set (addrs t2)" using A(2) a(5) by auto
  have kids: "tree_in (blocks s1) t1" "tree_in (blocks s1) t2"
    using an a(4) by (auto intro!: tree_in_cong [OF n(3)] tree_in_cong [OF n(4)])
  have env: "tree_env s1 (BNode a ?ts) (-1)" using A an a(6-8) valid_null by (auto simp: tree_env_def)
  obtain s2 where s2: "ref_close R (addr (BNode a ?ts)) (InnerN (inner_mark nd)) s1 = Some s2" "inv s2" "room s2 = room s1"
    "owned s2 = owned s1" "tree_in (blocks s2) (BNode a ?ts)"
    by (rule close_node [OF a(2) inner_repr_node_is [OF m]])
      (use kids env tree_env_refs [OF env] in \<open>auto simp: tree_env_def inner_mark_def\<close>)
  let ?C = "update_root_node_id_and_increase_tree_height a (put_store s2 C)"
  have "ct_grow R cap \<lparr>split_left = n1, split_right = n2, boundary_key = b\<rparr> C = Some ?C"
    using a(1) lk self nd(1) s2(1) by (simp add: ct_grow_def)
  moreover have "bt_height (nat (depth (ct_tree C) + 1) - 1) (BNode a ?ts)" using h by (auto intro!: exI [of _ h])
  ultimately show ?thesis using s2 env ok(1) h(4) a(3)
    by (auto simp: tree_is_def tree_env_def update_root_node_id_and_increase_tree_height_def put_store_def)
qed

definition ctree_is :: "('s, 'm) ctree \<Rightarrow> ('k, 'v) bt \<Rightarrow> bool" where
  "ctree_is C t \<longleftrightarrow> tree_is (ct_tree C) t \<and> ct_view C = (\<lambda>x. (0, False))"

lemma ctree_is_below: "ctree_is C t \<Longrightarrow> free_below [] t C"
  by (simp add: ctree_is_def free_below_def parent_lock_def)

lemma concurrent_search_ok:
  assumes C: "ctree_is C t"
  shows "\<exists>C'. concurrent_search R M k C = Some (map_of (kvs t) k, C') \<and> ctree_is C' t
     \<and> room (ct_store C') = room (ct_store C) \<and> depth (ct_tree C') = depth (ct_tree C)"
proof -
  have T: "tree_is (ct_tree C) t" using C by (simp add: ctree_is_def)
  note D = tree_isD [OF T]
  have "distinct (addrs t)" using D(6) by (simp add: tree_env_def)
  from search_wcc_ok [OF D(1,3,2) this ctree_is_below [OF C], of k]
  obtain C' where C': "search_with_concurrency_control R M k [] (addr t) False C = Some (map_of (kvs t) k, [], C')"
    "quiet (ct_store C) (ct_store C')" "ct_view C' = unshare [] (ct_view C)" "ct_tree C' = (ct_tree C)\<lparr>store := ct_store C'\<rparr>" by blast
  have "concurrent_search R M k C = Some (map_of (kvs t) k, C')"
    using C'(1) search_at_root [of R M k "[]" C] D(7) by (simp add: concurrent_search_def get_root_id_def)
  moreover have "tree_is (ct_tree C') t" using tree_is_quiet [OF T C'(2)] C'(4) by simp
  moreover have "depth (ct_tree C') = depth (ct_tree C)" using arg_cong [OF C'(4), of depth] by simp
  ultimately show ?thesis using C C'(2,3) by (auto simp: ctree_is_def unshare_def quiet_def)
qed

text \<open>The pessimistic insertion from the root.\<close>

lemma pessimistic_root_ok:
  assumes C: "ctree_is C t" and c: "2 \<le> cap" and r: "room (ct_store C) (nat (depth (ct_tree C)) + 1 + m)"
  shows "\<exists>sp C' t'. insert_with_pessimistic_concurrency_control R M cap k v [] (get_root_id C) True C = Some (sp, [], C')
     \<and> ctree_is C' t' \<and> kvs t' = kv_put k v (kvs t) \<and> room (ct_store C') m
     \<and> (depth (ct_tree C') = depth (ct_tree C) \<or> depth (ct_tree C') = depth (ct_tree C) + 1)"
proof -
  have T: "tree_is (ct_tree C) t" and V: "ct_view C = (\<lambda>x. (0, False))" using C by (simp_all add: ctree_is_def)
  note D = tree_isD [OF T]
  have "Suc (nat (depth (ct_tree C)) - 1) + Suc m = nat (depth (ct_tree C)) + 1 + m" using D(4) by simp
  then have rm: "room (ct_store C) (Suc (nat (depth (ct_tree C)) - 1) + Suc m)" using r by simp
  obtain sp us t' tsp C1 where P: "insert_with_pessimistic_concurrency_control R M cap k v [] (addr t) False C = Some (sp, [], C1)"
    "\<forall>rest. bt_ins cap k v (us @ rest) t = (t', tsp, rest)" "room (ct_store C1) (Suc m)"
    "ct_post t (ct_store C) us t' tsp sp (ct_store C1)" "ct_view C1 = ct_view C" "ct_tree C1 = (ct_tree C)\<lparr>store := ct_store C1\<rparr>"
    using pessimistic_ok [OF D(1,3) c D(5) rm D(2,6), of "[]" k v] V by auto
  have Q: "inv (ct_store C1)" "owned (ct_store C1) = owned (ct_store C) \<union> set us" "set us \<inter> owned (ct_store C) = {}" "distinct us"
    "\<forall>a\<in>set us. valid_ref a \<and> a \<noteq> -1" "tree_in (blocks (ct_store C1)) t'" using P(4) unfolding ct_post_def by blast+
  have dep: "depth (ct_tree C1) = depth (ct_tree C)" "root_ref (ct_tree C1) = root_ref (ct_tree C)"
    using arg_cong [OF P(6), of depth] arg_cong [OF P(6), of root_ref] by simp_all
  have ins: "bt_ins cap k v (us @ [0]) t = (t', tsp, [0])" using P(2) by blast
  note F = ins_forest [OF D(6,3) c P(2) Q(2-5), where x = undefined, OF refl]
  note H = bt_ins_height [OF D(3) c D(5) ins, of undefined]
  note B = bt_ins_root [OF D(3) c ins]
  have run: "insert_with_pessimistic_concurrency_control R M cap k v [] (get_root_id C) True C = grow_after R cap (sp, [], C1)"
    using pessimistic_at_root [of R M cap k v "[]" C] P(1) D(7) by (simp add: get_root_id_def)
  show ?thesis
  proof (cases tsp)
    case None
    have "sp = None" using P(4) None by (simp add: ct_post_def)
    then have "insert_with_pessimistic_concurrency_control R M cap k v [] (get_root_id C) True C = Some (sp, [], C1)"
      using run by (simp add: grow_after_def)
    moreover have "ctree_is C1 t'"
      using V P(5) Q(1,6) dep B(1) H F None D valid_null by (auto simp: ctree_is_def tree_is_def tree_env_def grown_def)
    moreover have "room (ct_store C1) m" using P(3) room_mono [of "ct_store C1" "Suc m" m] by simp
    ultimately show ?thesis using B(2) None dep(1) by blast
  next
    case (Some p)
    then obtain b rt where p: "tsp = Some (b, rt)" by (cases p) simp
    obtain ln rn where rn: "sp = Some \<lparr>split_left = ln, split_right = rn, boundary_key = b\<rparr>" "node_is cap t' ln" "node_is cap rt rn"
      "tree_in (blocks (ct_store C1)) rt" using P(4) p by (auto simp: ct_post_def)
    have G: "distinct (addrs t' @ addrs rt)" "set (addrs t' @ addrs rt) \<subseteq> owned (ct_store C1)"
      "\<forall>x\<in>set (addrs t' @ addrs rt). valid_ref x \<and> x \<noteq> -1" "linked (leafseq t' @ leafseq rt) (-1)"
      using F(1,3,4,6) p by (auto simp: grown_def)
    have h: "bt_height (nat (depth (ct_tree C)) - 1) t'" "bt_height (nat (depth (ct_tree C)) - 1) rt" using H p by (simp_all add: grown_def)
    have ok: "\<And>a. bt_ok cap (BNode a [(bt_first_key t', t'), (bt_first_key rt, rt)])" "bt_first_key t' < bt_first_key rt"
      and kv: "\<And>a. kvs (BNode a [(bt_first_key t', t'), (bt_first_key rt, rt)]) = kv_put k v (kvs t)"
      using B(3) [OF p] by blast+
    have hd: "nat (depth (ct_tree C)) - 1 = nat (depth (ct_tree C1)) - 1" "1 \<le> depth (ct_tree C1)" using dep(1) D(4) by simp_all
    obtain a C' where C': "ct_grow R cap \<lparr>split_left = ln, split_right = rn, boundary_key = b\<rparr> C1 = Some C'" "room (ct_store C') m"
      "tree_is (ct_tree C') (BNode a [(bt_first_key t', t'), (bt_first_key rt, rt)])" "depth (ct_tree C') = depth (ct_tree C1) + 1"
      using ct_grow_ok [OF Q(1) P(3) c rn(2,3) Q(6) rn(4) bt_ins_split_len [OF D(3) c ins [unfolded p]] h hd ok G] by blast
    have "insert_with_pessimistic_concurrency_control R M cap k v [] (get_root_id C) True C = Some (sp, [], C')"
      using run rn(1) C'(1) by (simp add: grow_after_def)
    moreover have "ctree_is C' (BNode a [(bt_first_key t', t'), (bt_first_key rt, rt)])"
      using C'(3) ct_grow_locks [OF C'(1)] P(5) V by (simp add: ctree_is_def)
    ultimately show ?thesis using kv C'(2,4) dep(1) by (metis (no_types))
  qed
qed

lemma concurrent_insert_ok:
  assumes C: "ctree_is C t" and c: "2 \<le> cap" and r: "room (ct_store C) (nat (depth (ct_tree C)) + 1 + m)"
  shows "\<exists>C' t'. concurrent_insert R M cap k v C = Some C' \<and> ctree_is C' t' \<and> kvs t' = kv_put k v (kvs t) \<and> room (ct_store C') m
     \<and> (depth (ct_tree C') = depth (ct_tree C) \<or> depth (ct_tree C') = depth (ct_tree C) + 1)"
proof -
  have T: "tree_is (ct_tree C) t" and V: "ct_view C = (\<lambda>x. (0, False))" using C by (simp_all add: ctree_is_def)
  note D = tree_isD [OF T]
  obtain ok C1 where O: "insert_with_optimistic_concurrency_control R M cap k v [] (addr t) (int (nat (depth (ct_tree C)) - 1) + 1) False C = Some (ok, [], C1)"
    "ct_view C1 = unshare [] (ct_view C)" "ct_tree C1 = (ct_tree C)\<lparr>store := ct_store C1\<rparr>"
    "if ok then \<exists>t'. (\<forall>rest. bt_ins cap k v rest t = (t', None, rest)) \<and> stored t (ct_store C) t' (ct_store C1)
     else quiet (ct_store C) (ct_store C1)"
    using optimistic_ok [OF D(1,3) c D(5,2,6) ctree_is_below [OF C]] by blast
  have dep: "depth (ct_tree C1) = depth (ct_tree C)" "root_ref (ct_tree C1) = root_ref (ct_tree C)"
    using arg_cong [OF O(3), of depth] arg_cong [OF O(3), of root_ref] by simp_all
  have "int (nat (depth (ct_tree C)) - 1) + 1 = depth (ct_tree C)" using D(4) by simp
  then have run: "insert_with_optimistic_concurrency_control R M cap k v [] (get_root_id C) (depth (ct_tree C)) True C = Some (ok, [], C1)"
    using O(1) optimistic_at_root [of R M cap k v "[]" C] D(7) by (simp add: get_root_id_def)
  have V1: "ct_view C1 = (\<lambda>x. (0, False))" using O(2) V by (simp add: unshare_def)
  show ?thesis
  proof (cases ok)
    case True
    then obtain t' where t': "\<forall>rest. bt_ins cap k v rest t = (t', None, rest)" "stored t (ct_store C) t' (ct_store C1)" using O(4) by auto
    have ins: "bt_ins cap k v ([] @ [0]) t = (t', None, [0])" using t'(1) by simp
    have own: "owned (ct_store C1) = owned (ct_store C) \<union> set []" using t'(2) by (simp add: stored_def)
    have pure: "\<forall>rest. bt_ins cap k v ([] @ rest) t = (t', None, rest)" using t'(1) by simp
    note F = ins_forest [OF D(6,3) c pure own, simplified, where x = undefined, OF refl]
    note H = bt_ins_height [OF D(3) c D(5) ins, of undefined]
    note B = bt_ins_root [OF D(3) c ins]
    have "ctree_is C1 t'"
      using V1 t'(2) dep B(1) H F D valid_null by (auto simp: ctree_is_def tree_is_def tree_env_def grown_def stored_def)
    moreover have "room (ct_store C1) m" using t'(2) r room_mono by (auto simp: stored_def)
    ultimately show ?thesis using run True B(2) dep(1) by (auto simp: concurrent_insert_def)
  next
    case False
    then have q: "quiet (ct_store C) (ct_store C1)" using O(4) by simp
    have "tree_is (ct_tree C1) t" using tree_is_quiet [OF T q] O(3) by simp
    then have "ctree_is C1 t" "room (ct_store C1) (nat (depth (ct_tree C1)) + 1 + m)" using V1 q r dep(1) by (simp_all add: ctree_is_def quiet_def)
    from pessimistic_root_ok [OF this(1) c this(2), of k v]
    obtain sp C' t' where P: "insert_with_pessimistic_concurrency_control R M cap k v [] (get_root_id C1) True C1 = Some (sp, [], C')"
      "ctree_is C' t'" "kvs t' = kv_put k v (kvs t)" "room (ct_store C') m"
      "depth (ct_tree C') = depth (ct_tree C1) \<or> depth (ct_tree C') = depth (ct_tree C1) + 1" by blast
    then have "concurrent_insert R M cap k v C = Some C'" using run False by (simp add: concurrent_insert_def)
    then show ?thesis using P(2-5) dep(1) by (metis (no_types))
  qed
qed

end

section \<open>The concurrent disk tree\<close>

text \<open>
  The public methods of \<^verbatim>\<open>concurrent_in_disk_b_plus_tree\<close>: insertion and search use locks, deletion
  is the one of the vanilla tree and \<^verbatim>\<open>clear\<close> the one of the disk tree; both leave the lock table alone.
\<close>

fun cdisk_exec :: "'k pod \<Rightarrow> ('k::linorder \<times> 'v) pod \<Rightarrow> nat \<Rightarrow> byte list \<Rightarrow> (blk_address list \<Rightarrow> blk_address) \<Rightarrow> int \<Rightarrow> int
    \<Rightarrow> 'k \<times> blk_address \<Rightarrow> 'm mutex_ops \<Rightarrow> ('k, 'v) tree_op \<Rightarrow> (file_blk_accessor, 'm) ctree
    \<Rightarrow> ('v tree_result \<times> (file_blk_accessor, 'm) ctree) option" where
  "cdisk_exec P E c buf pick fd err junk M (Insert k v) C = map_option (Pair Done) (concurrent_insert (file_ops P E c buf pick) M c k v C)"
| "cdisk_exec P E c buf pick fd err junk M (Search k) C =
     map_option (\<lambda>(r, C'). (Found r, C')) (concurrent_search (file_ops P E c buf pick) M k C)"
| "cdisk_exec P E c buf pick fd err junk M x C =
     map_option (\<lambda>(r, T). (r, C\<lparr>ct_tree := T\<rparr>)) (disk_exec P E c buf pick fd err junk x (ct_tree C))"

definition cdisk_new :: "file_blk_accessor vtree \<Rightarrow> (file_blk_accessor, 'm) ctree" where
  "cdisk_new T = \<lparr>ct_tree = T, ct_locks = []\<rparr>"

locale concurrent_disk = disk_params P E pick + mutex_laws M view
  for P :: "'k::linorder pod" and E :: "('k \<times> 'v) pod" and pick and M :: "'m mutex_ops" and view

sublocale concurrent_disk < cdisk: lock_coupling "file_ops P E c buf pick" c "file_inv P E c buf" "file_blocks P E c" file_owned file_room int64_ok M view
  for c :: nat and buf :: "byte list"
  by unfold_locales

interpretation int32_cdisk: concurrent_disk int32_pod int32_entry_pod hd counting_mutex "\<lambda>m. m"
  by unfold_locales

context concurrent_disk
begin

lemma cdisk_tree_refines_map:
  assumes c: "3 \<le> c" and f: "block_fits P E c (length buf)" and n: "Suc (node_budget (length xs) 1) \<le> 100000"
  shows "\<exists>T0 C t. vt_init (file_ops P E c buf pick) c (disk_set_blk_accessor fd err (length buf)) = Some T0
     \<and> op_run (cdisk_exec P E c buf pick fd err junk M) xs (cdisk_new T0) = Some (fst (map_run xs Map.empty), C)
     \<and> cdisk.ctree_is c buf C t \<and> map_of (kvs t) = snd (map_run xs Map.empty)"
proof -
  let ?I = "\<lambda>n C f. \<exists>t. cdisk.ctree_is c buf C t \<and> map_of (kvs t) = f \<and> file_room (ct_store C) (node_budget n (nat (depth (ct_tree C))))
     \<and> Suc (node_budget n 1) \<le> 100000"
  have step: "\<exists>C'. cdisk_exec P E c buf pick fd err junk M x C = Some (fst (map_exec x f), C') \<and> ?I n C' (snd (map_exec x f))"
    if I: "?I (Suc n) C f" for x n C f
  proof -
    let ?d = "nat (depth (ct_tree C))"
    obtain t where t: "cdisk.ctree_is c buf C t" "map_of (kvs t) = f" "file_room (ct_store C) (?d + 1 + node_budget n (Suc ?d))"
      "Suc (node_budget n 2) < 100000" using I by (auto simp: add.assoc numeral_2_eq_2)
    have n: "Suc (node_budget n 1) \<le> 100000" using t(4) node_budget_mono [of 1 2 n] by simp
    have T: "disk.tree_is c buf (ct_tree C) t" using t(1) by (simp add: cdisk.ctree_is_def)
    have fin: ?thesis if "cdisk_exec P E c buf pick fd err junk M x C = Some (fst (map_exec x f), C')" "cdisk.ctree_is c buf C' t'"
      "map_of (kvs t') = snd (map_exec x f)" "file_room (ct_store C') (node_budget n (Suc ?d))" "nat (depth (ct_tree C')) \<le> Suc ?d" for C' t'
    proof -
      have "file_room (ct_store C') (node_budget n (nat (depth (ct_tree C'))))"
        by (rule disk.room_mono [OF that(4) node_budget_mono [OF that(5)]])
      then show ?thesis using that(1-3) n by blast
    qed
    show ?thesis
    proof (cases x)
      case (Insert k v)
      have "2 \<le> c" using c by simp
      from cdisk.concurrent_insert_ok [OF t(1) this t(3), of k v] obtain C' t' where
        1: "concurrent_insert (file_ops P E c buf pick) M c k v C = Some C'" "cdisk.ctree_is c buf C' t'" "kvs t' = kv_put k v (kvs t)"
          "file_room (ct_store C') (node_budget n (Suc ?d))"
          "depth (ct_tree C') = depth (ct_tree C) \<or> depth (ct_tree C') = depth (ct_tree C) + 1" by blast
      show ?thesis by (rule fin [OF _ 1(2)]) (use 1 t(2) Insert in \<open>auto simp: map_of_kv_put\<close>)
    next
      case (Search k)
      from cdisk.concurrent_search_ok [OF t(1), of k] obtain C' where
        1: "concurrent_search (file_ops P E c buf pick) M k C = Some (map_of (kvs t) k, C')" "cdisk.ctree_is c buf C' t"
          "file_room (ct_store C') = file_room (ct_store C)" "depth (ct_tree C') = depth (ct_tree C)" by blast
      have "file_room (ct_store C') (node_budget n (Suc ?d))" using 1(3) disk.room_mono [OF t(3)] by simp
      then show ?thesis by (intro fin [OF _ 1(2)]) (use 1 t(2) Search in auto)
    next
      case (Delete k)
      from disk.vt_exec_ok [OF T c t(3), of junk x] obtain T1 t1 where 1: "vt_exec (file_ops P E c buf pick) c junk x (ct_tree C) = Some (fst (map_exec x f), T1)"
        "disk.tree_is c buf T1 t1" "map_of (kvs t1) = snd (map_exec x f)" "file_room (store T1) (node_budget n (Suc ?d))" "nat (depth T1) \<le> Suc ?d"
        unfolding t(2) by blast
      show ?thesis
        by (rule fin [of "C\<lparr>ct_tree := T1\<rparr>" t1]) (use 1 t(1) Delete in \<open>auto simp: cdisk.ctree_is_def\<close>)
    next
      case Clear
      obtain T1 where 1: "disk_clear P E c buf pick fd err (ct_tree C) = Some T1" "disk.tree_is c buf T1 (BLeaf (root_ref T1) [] (-1))"
        "file_room (store T1) (node_budget n 1)" using disk_clear_ok [OF T n] by blast
      have "nat (depth T1) = 1" using disk.tree_isD(4,5) [OF 1(2)] by simp
      then show ?thesis using 1 Clear n t(1) by (intro exI [of _ "C\<lparr>ct_tree := T1\<rparr>"]) (auto simp: cdisk.ctree_is_def)
    qed
  qed
  obtain T0 where T0: "vt_init (file_ops P E c buf pick) c (disk_set_blk_accessor fd err (length buf)) = Some T0"
    "disk.tree_is c buf T0 (BLeaf (root_ref T0) [] (-1))" "file_room (store T0) (node_budget (length xs) 1)"
    using disk.vt_init_ok [OF new_accessor_ok(1) [OF f] new_accessor_ok(2) [OF f n], of fd err] by blast
  have "nat (depth T0) = 1" using disk.tree_isD(4,5) [OF T0(2)] by simp
  then have "?I (length xs) (cdisk_new T0) Map.empty" using T0(2,3) n
    by (intro exI [of _ "BLeaf (root_ref T0) [] (-1)"]) (simp add: cdisk.ctree_is_def cdisk_new_def lm_view_def fun_eq_iff)
  from op_run_refines [where I = ?I and exec = "cdisk_exec P E c buf pick fd err junk M", OF step this] T0(1)
  show ?thesis by auto
qed

corollary cdisk_tree_run:
  assumes "3 \<le> c" "block_fits P E c (length buf)" "Suc (node_budget (length xs) 1) \<le> 100000"
  shows "\<exists>T0 C. vt_init (file_ops P E c buf pick) c (disk_set_blk_accessor fd err (length buf)) = Some T0
     \<and> op_run (cdisk_exec P E c buf pick fd err junk M) xs (cdisk_new T0) = Some (fst (map_run xs Map.empty), C)
     \<and> (\<forall>i. lm_view view (ct_locks C) i = (0, False))"
  using cdisk_tree_refines_map [OF assms, of fd err junk] by (auto simp: cdisk.ctree_is_def)

end

end
