(* ===== verification/Metrics.thy ===== *)
theory Metrics
  imports Prelude "HOL-Library.Word"
begin

text \<open>
  Counters and latencies: \<^verbatim>\<open>src/src/blk/blk_metrics.h\<close>, \<^verbatim>\<open>src/src/utils/aggregator.h\<close> and
  \<^verbatim>\<open>src/src/tree/tree_perf_metrics.h\<close>.  Counters wrap around at 64 bits, and the division by the
  number of values is undefined (\<open>None\<close>) when there are none.
\<close>

section \<open>Block metrics\<close>

record blk_metrics =
  read_cycles :: "64 word"
  write_cycles :: "64 word"
  m_reads :: "64 word"
  m_writes :: "64 word"
  total_cycles :: "64 word"
  m_name :: string
  pending_command_counts :: "16 word list"
  pending_commands :: "64 word"
  recent_read_cycles :: "64 word list"
  recent_write_cycles :: "64 word list"

definition window_size :: nat where "window_size = 1000"

text \<open>The two deques of recent values are not reset.\<close>

definition metrics_reset :: "blk_metrics \<Rightarrow> blk_metrics" where
  "metrics_reset m = m\<lparr>read_cycles := 0, write_cycles := 0, m_reads := 0, m_writes := 0, total_cycles := 0,
     pending_command_counts := [], pending_commands := 0\<rparr>"

definition metrics_new :: blk_metrics where
  "metrics_new = metrics_reset \<lparr>read_cycles = 0, write_cycles = 0, m_reads = 0, m_writes = 0, total_cycles = 0, m_name = '''',
     pending_command_counts = [], pending_commands = 0, recent_read_cycles = [], recent_write_cycles = []\<rparr>"

text \<open>Assignment and copy leave the deques of recent values of the target as they are.\<close>

definition metrics_assign :: "blk_metrics \<Rightarrow> blk_metrics \<Rightarrow> blk_metrics" where
  "metrics_assign r m = m\<lparr>read_cycles := read_cycles r, write_cycles := write_cycles r, m_reads := m_reads r, m_writes := m_writes r,
     total_cycles := total_cycles r, m_name := m_name r, pending_command_counts := pending_command_counts r,
     pending_commands := pending_commands r\<rparr>"

definition metrics_copy :: "blk_metrics \<Rightarrow> blk_metrics" where
  "metrics_copy r = metrics_assign r metrics_new"

definition metrics_merge :: "blk_metrics \<Rightarrow> blk_metrics \<Rightarrow> blk_metrics" where
  "metrics_merge r m = m\<lparr>read_cycles := read_cycles m + read_cycles r, write_cycles := write_cycles m + write_cycles r,
     m_reads := m_reads m + m_reads r, m_writes := m_writes m + m_writes r, total_cycles := total_cycles m + total_cycles r,
     m_name := m_name r, pending_command_counts := pending_command_counts r, pending_commands := pending_commands r\<rparr>"

definition push_recent :: "64 word \<Rightarrow> 64 word list \<Rightarrow> 64 word list" where
  "push_recent x xs = (let ys = xs @ [x] in if window_size < length ys then tl ys else ys)"

definition add_read_latency :: "64 word \<Rightarrow> blk_metrics \<Rightarrow> blk_metrics" where
  "add_read_latency cycles m = m\<lparr>read_cycles := read_cycles m + cycles, m_reads := m_reads m + 1,
     recent_read_cycles := push_recent cycles (recent_read_cycles m)\<rparr>"

definition add_write_latency :: "64 word \<Rightarrow> blk_metrics \<Rightarrow> blk_metrics" where
  "add_write_latency cycles m = m\<lparr>write_cycles := write_cycles m + cycles, m_writes := m_writes m + 1,
     recent_write_cycles := push_recent cycles (recent_write_cycles m)\<rparr>"

text \<open>The results are converted to a 32-bit integer.\<close>

definition get_avg_write_latency_in_cycles :: "blk_metrics \<Rightarrow> 32 word option" where
  "get_avg_write_latency_in_cycles m = (if m_writes m = 0 then None else Some (ucast (write_cycles m div m_writes m)))"

definition get_avg_read_latency_in_cycles :: "blk_metrics \<Rightarrow> 32 word option" where
  "get_avg_read_latency_in_cycles m = (if m_reads m = 0 then None else Some (ucast (read_cycles m div m_reads m)))"

definition get_recent_avg_write_latency_in_cycles :: "blk_metrics \<Rightarrow> 64 word" where
  "get_recent_avg_write_latency_in_cycles m =
     (if recent_write_cycles m = [] then 10000
      else fold (\<lambda>x s. s + x) (recent_write_cycles m) 0 div of_nat (length (recent_write_cycles m)))"

definition get_recent_avg_read_latency_in_cycles :: "blk_metrics \<Rightarrow> 64 word" where
  "get_recent_avg_read_latency_in_cycles m =
     (if recent_read_cycles m = [] then 10000
      else fold (\<lambda>x s. s + x) (recent_read_cycles m) 0 div of_nat (length (recent_read_cycles m)))"

section \<open>Aggregators\<close>

type_synonym aggregator = "64 word list"

definition agg_record :: "64 word \<Rightarrow> aggregator \<Rightarrow> aggregator" where
  "agg_record t values = values @ [t]"

definition agg_sum :: "aggregator \<Rightarrow> 64 word" where
  "agg_sum values = fold (\<lambda>x s. s + x) values 0"

definition agg_avg :: "aggregator \<Rightarrow> 64 word option" where
  "agg_avg values = (if values = [] then None else Some (agg_sum values div of_nat (length values)))"

definition agg_clear :: "aggregator \<Rightarrow> aggregator" where
  "agg_clear values = []"

definition agg_empty :: "aggregator \<Rightarrow> bool" where
  "agg_empty values \<longleftrightarrow> values = []"

definition agg_count :: "aggregator \<Rightarrow> nat" where
  "agg_count values = length values"

record tree_perf_metrics =
  write_latencies :: aggregator
  read_latencies :: aggregator

definition tree_add_write_latency :: "64 word \<Rightarrow> tree_perf_metrics \<Rightarrow> tree_perf_metrics" where
  "tree_add_write_latency l m = m\<lparr>write_latencies := agg_record l (write_latencies m)\<rparr>"

definition tree_add_read_latency :: "64 word \<Rightarrow> tree_perf_metrics \<Rightarrow> tree_perf_metrics" where
  "tree_add_read_latency l m = m\<lparr>read_latencies := agg_record l (read_latencies m)\<rparr>"

definition tree_metrics_clear :: "tree_perf_metrics \<Rightarrow> tree_perf_metrics" where
  "tree_metrics_clear m = m\<lparr>write_latencies := agg_clear (write_latencies m), read_latencies := agg_clear (read_latencies m)\<rparr>"

section \<open>The window of recent values\<close>

lemma push_recent_last: "push_recent x xs = drop (length xs + 1 - window_size) (xs @ [x])" if "length xs \<le> window_size"
proof -
  have w: "Suc 0 - window_size = 0" by (simp add: window_size_def)
  show ?thesis
  proof (cases "length xs = window_size")
    case True
    then have "xs \<noteq> []" by (auto simp: window_size_def)
    with True w show ?thesis by (simp add: push_recent_def Let_def drop_Suc)
  qed (use that w in \<open>simp add: push_recent_def Let_def\<close>)
qed

lemma fold_push_recent:
  "length xs \<le> window_size \<Longrightarrow> fold push_recent ys xs = drop (length xs + length ys - window_size) (xs @ ys)"
proof (induction ys arbitrary: xs)
  case (Cons y ys)
  let ?n = "length xs + 1 - window_size"
  have l: "length (push_recent y xs) \<le> window_size" using Cons.prems by (simp add: push_recent_def Let_def)
  have "fold push_recent (y # ys) xs = drop (length (push_recent y xs) + length ys - window_size) (push_recent y xs @ ys)"
    using Cons.IH [OF l] by simp
  also have "push_recent y xs @ ys = drop ?n (xs @ y # ys)" using push_recent_last [OF Cons.prems] by (simp add: window_size_def)
  also have "length (push_recent y xs) = length xs + 1 - ?n" using push_recent_last [OF Cons.prems] by simp
  finally have "fold push_recent (y # ys) xs = drop (length xs + 1 - ?n + length ys - window_size + ?n) (xs @ y # ys)"
    by (simp only: drop_drop)
  moreover have "length xs + 1 - ?n + length ys - window_size + ?n = length xs + length (y # ys) - window_size"
    using Cons.prems by (cases "length xs = window_size") (auto simp: window_size_def)
  ultimately show ?case by simp
qed simp

lemma fold_add_uint:
  fixes xs :: "64 word list"
  assumes "uint s + sum_list (map uint xs) < 2 ^ 64"
  shows "uint (fold (\<lambda>x s. s + x) xs s) = uint s + sum_list (map uint xs)"
  using assms
proof (induction xs arbitrary: s)
  case (Cons x xs)
  have "0 \<le> sum_list (map uint xs)" by (rule sum_list_nonneg) auto
  then have "uint s + uint x < 2 ^ 64" using Cons.prems by simp
  then have u: "uint (s + x) = uint s + uint x" using uint_ge_0 [of s] uint_ge_0 [of x] by (simp add: uint_word_ariths)
  then have "uint (s + x) + sum_list (map uint xs) < 2 ^ 64" using Cons.prems by simp
  from Cons.IH [OF this] show ?case using u by simp
qed simp

end
