(* ===== verification/Nvme.thy ===== *)
theory Nvme
  imports Async_IO Metrics
begin

text \<open>
  The accessor of \<^verbatim>\<open>src/src/blk/nvme_blk_accessor.h\<close> on a queue pair
  (\<^verbatim>\<open>src/src/accessor/qpair_context.h\<close>).  The device and its driver are a parameter: which commands
  are accepted, and which of the outstanding ones a poll completes, in which order.  A command moves
  its data when it completes.  Memory is addressed by program buffers and by blocks of the cache.
\<close>

section \<open>The device\<close>

datatype dma_ptr = ProgBuf buf_ptr | CacheBuf nat

text \<open>The parameter block of a command, \<^verbatim>\<open>nvme_callback_para\<close>; it stands for the command itself.\<close>

record nvme_callback_para =
  np_context :: ctx_ptr
  np_id :: blk_address
  np_start_time :: "64 word"
  np_type :: io_type
  np_buffer :: dma_ptr
  np_io_id :: "64 word"
  np_estimated_completion :: "64 word"
  np_evicted :: bool

record nvme_driver =
  drv_accepts :: "nvme_callback_para list \<Rightarrow> bool"
  drv_completes :: "int \<Rightarrow> nvme_callback_para list \<Rightarrow> nvme_callback_para list \<times> nvme_callback_para list"

text \<open>The namespace is an array of sectors; a command covers \<^verbatim>\<open>size / sector_size_\<close> of them.\<close>

definition sectors_read :: "nat \<Rightarrow> (int \<Rightarrow> byte list) \<Rightarrow> nat \<Rightarrow> int \<Rightarrow> byte list" where
  "sectors_read ss ns n lba = concat (map (\<lambda>i. ns (lba + int i)) [0..<n div ss])"

definition sectors_write :: "nat \<Rightarrow> nat \<Rightarrow> int \<Rightarrow> byte list \<Rightarrow> (int \<Rightarrow> byte list) \<Rightarrow> (int \<Rightarrow> byte list)" where
  "sectors_write ss n lba bs ns =
     (\<lambda>x. if lba \<le> x \<and> x < lba + int (n div ss) then take ss (drop (nat (x - lba) * ss) bs) else ns x)"

section \<open>The accessor\<close>

record nvme_blk_accessor =
  na_block_size :: nat
  na_sector_size :: nat
  na_namespace :: "int \<Rightarrow> byte list"
  na_outstanding :: "nvme_callback_para list"
  na_closed :: bool
  na_freed_blk_addresses :: "blk_address list"
  na_cursor :: "64 word"
  na_ready_contexts :: "ctx_ptr list"
  na_cache :: blk_cache
  na_estimator :: ready_state_estimator
  na_io_id_generator :: "64 word"
  recent_reads :: int
  recent_writes :: int
  na_metrics :: blk_metrics

definition nvme_new :: "nat \<Rightarrow> nat \<Rightarrow> nat \<Rightarrow> (int \<Rightarrow> byte list) \<Rightarrow> nvme_blk_accessor" where
  "nvme_new cache_size block_size ss ns = \<lparr>na_block_size = block_size, na_sector_size = ss, na_namespace = ns, na_outstanding = [], na_closed = True,
     na_freed_blk_addresses = [], na_cursor = 0, na_ready_contexts = [], na_cache = cache_new block_size cache_size,
     na_estimator = estimator_new, na_io_id_generator = 0, recent_reads = 0, recent_writes = 0, na_metrics = metrics_new\<rparr>"

definition nvme_open :: "nvme_blk_accessor \<Rightarrow> nvme_blk_accessor" where
  "nvme_open s = s\<lparr>na_closed := False\<rparr>"

definition nvme_close :: "nvme_blk_accessor \<Rightarrow> nvme_blk_accessor" where
  "nvme_close s = (if \<not> na_closed s then s\<lparr>na_closed := True\<rparr> else s)"

definition nvme_allocate :: "(blk_address list \<Rightarrow> blk_address) \<Rightarrow> nvme_blk_accessor \<Rightarrow> blk_address \<times> nvme_blk_accessor" where
  "nvme_allocate pick s =
     (if na_freed_blk_addresses s \<noteq> [] then
        let a = pick (na_freed_blk_addresses s) in (a, s\<lparr>na_freed_blk_addresses := removeAll a (na_freed_blk_addresses s)\<rparr>)
      else (sint (na_cursor s), s\<lparr>na_cursor := na_cursor s + 1\<rparr>))"

definition nvme_deallocate :: "blk_address \<Rightarrow> nvme_blk_accessor \<Rightarrow> nvme_blk_accessor" where
  "nvme_deallocate a s =
     (if na_cursor s = word_of_int (a - 1) then s\<lparr>na_cursor := na_cursor s - 1\<rparr>
      else s\<lparr>na_freed_blk_addresses := List.insert a (na_freed_blk_addresses s)\<rparr>)"

text \<open>The body of the synchronous \<^verbatim>\<open>read\<close> is commented out: it measures, and leaves the buffer alone.\<close>

definition nvme_read :: "blk_address \<Rightarrow> byte list \<Rightarrow> nvme_blk_accessor io_world \<Rightarrow> byte list \<times> nvme_blk_accessor io_world" where
  "nvme_read a buffer w =
     (let (start, w1) = ticks w; (t, w2) = ticks w1; m = na_metrics (accessor w2) in
      (buffer, w2\<lparr>accessor := (accessor w2)\<lparr>na_metrics := m\<lparr>read_cycles := read_cycles m + (t - start), m_reads := m_reads m + 1\<rparr>\<rparr>\<rparr>))"

definition nvme_get_and_reset_recent_reads :: "nvme_blk_accessor \<Rightarrow> int \<times> nvme_blk_accessor" where
  "nvme_get_and_reset_recent_reads s = (recent_reads s, s\<lparr>recent_reads := 0\<rparr>)"

definition nvme_get_and_reset_recent_writes :: "nvme_blk_accessor \<Rightarrow> int \<times> nvme_blk_accessor" where
  "nvme_get_and_reset_recent_writes s = (recent_writes s, s\<lparr>recent_writes := 0\<rparr>)"

text \<open>A context that need not wait: it goes to its next state and to the ready contexts.\<close>

definition nvme_make_ready :: "ctx_ptr \<Rightarrow> nvme_blk_accessor io_world \<Rightarrow> nvme_blk_accessor io_world option" where
  "nvme_make_ready c w =
     do { h \<leftarrow> ctx_transition c (ctxs w);
          Some (w\<lparr>ctxs := h, accessor := (accessor w)\<lparr>na_ready_contexts := na_ready_contexts (accessor w) @ [c]\<rparr>\<rparr>) }"

definition nvme_latency :: "io_type \<Rightarrow> 64 word \<Rightarrow> nvme_blk_accessor io_world \<Rightarrow> nvme_blk_accessor io_world" where
  "nvme_latency k start w =
     (case ticks w of (t, w1) \<Rightarrow>
      w1\<lparr>accessor := (accessor w1)\<lparr>na_metrics := (case k of read_io \<Rightarrow> add_read_latency | write_io \<Rightarrow> add_write_latency) (t - start) (na_metrics (accessor w1))\<rparr>\<rparr>)"

text \<open>
  Submission of a command.  It is registered with the estimator first; when the driver does not
  accept it, a message is printed and nothing else happens.
\<close>

definition nvme_submit :: "nvme_driver \<Rightarrow> nvme_callback_para \<Rightarrow> nvme_blk_accessor \<Rightarrow> nvme_blk_accessor" where
  "nvme_submit D p s0 =
     (let s = s0\<lparr>na_estimator := (case np_type p of read_io \<Rightarrow> register_read_io | write_io \<Rightarrow> register_write_io)
                   (np_io_id p) (np_start_time p) (na_estimator s0)\<rparr>
      in if drv_accepts D (na_outstanding s)
         then s\<lparr>na_outstanding := na_outstanding s @ [p], na_metrics := (na_metrics s)\<lparr>pending_commands := pending_commands (na_metrics s) + 1\<rparr>\<rparr>
         else s)"

definition nvme_asynch_read :: "nvme_driver \<Rightarrow> blk_address \<Rightarrow> buf_ptr \<Rightarrow> ctx_ptr \<Rightarrow> nvme_blk_accessor io_world
    \<Rightarrow> nvme_blk_accessor io_world option" where
  "nvme_asynch_read D a b c w0 =
     (let (start, w1) = ticks w0; i = na_io_id_generator (accessor w1);
          w = w1\<lparr>accessor := (accessor w1)\<lparr>na_io_id_generator := i + 1\<rparr>\<rparr>
      in do {
        (hit, cache) \<leftarrow> cache_read a (na_cache (accessor w));
        let s = (accessor w)\<lparr>na_cache := cache\<rparr>;
        case hit of
          Some bs \<Rightarrow>
            map_option (nvme_latency read_io start)
              (nvme_make_ready c (w\<lparr>accessor := s, buffers := (buffers w)(b := bs @ drop (length bs) (buffers w b))\<rparr>))
        | None \<Rightarrow>
            Some (w\<lparr>accessor := nvme_submit D \<lparr>np_context = c, np_id = a, np_start_time = start, np_type = read_io, np_buffer = ProgBuf b,
                     np_io_id = i, np_estimated_completion = get_current_read_latency (na_estimator s) + start, np_evicted = False\<rparr> s\<rparr>) })"

text \<open>
  A write to a cached block goes to the cache only, since \<^verbatim>\<open>strong_consistent\<close> is false; the block
  is not written to the device.
\<close>

definition nvme_asynch_write :: "nvme_driver \<Rightarrow> blk_address \<Rightarrow> buf_ptr \<Rightarrow> ctx_ptr \<Rightarrow> nvme_blk_accessor io_world
    \<Rightarrow> nvme_blk_accessor io_world option" where
  "nvme_asynch_write D a b c w0 =
     (let (start, w1) = ticks w0; i = na_io_id_generator (accessor w1);
          s = (accessor w1)\<lparr>na_io_id_generator := i + 1\<rparr>; w = w1\<lparr>accessor := s\<rparr>
      in if is_cached a (na_cache s) then
           do { (evicted, cache) \<leftarrow> cache_write a (buffers w b) True (na_cache s);
                if evicted \<noteq> None then None
                else map_option (nvme_latency read_io start) (nvme_make_ready c (w\<lparr>accessor := s\<lparr>na_cache := cache\<rparr>\<rparr>)) }
         else
           Some (w\<lparr>accessor := nvme_submit D \<lparr>np_context = c, np_id = a, np_start_time = start, np_type = write_io, np_buffer = ProgBuf b,
                    np_io_id = i, np_estimated_completion = 0, np_evicted = False\<rparr> s\<rparr>))"

definition nvme_asynch_write_evicted :: "nvme_driver \<Rightarrow> blk_address \<Rightarrow> nat \<Rightarrow> ctx_ptr \<Rightarrow> nvme_blk_accessor io_world \<Rightarrow> nvme_blk_accessor io_world" where
  "nvme_asynch_write_evicted D a p c w0 =
     (let (start, w1) = ticks w0; i = na_io_id_generator (accessor w1);
          s = (accessor w1)\<lparr>na_io_id_generator := i + 1, na_cache := snd (invalidate a (na_cache (accessor w1)))\<rparr>
      in w1\<lparr>accessor := nvme_submit D \<lparr>np_context = c, np_id = a, np_start_time = start, np_type = write_io, np_buffer = CacheBuf p,
              np_io_id = i, np_estimated_completion = 0, np_evicted = True\<rparr> s\<rparr>)"

section \<open>Completion\<close>

definition dma_get :: "dma_ptr \<Rightarrow> nvme_blk_accessor io_world \<Rightarrow> byte list" where
  "dma_get p w = (case p of ProgBuf b \<Rightarrow> buffers w b | CacheBuf q \<Rightarrow> c_mem (na_cache (accessor w)) q)"

definition dma_put :: "dma_ptr \<Rightarrow> byte list \<Rightarrow> nvme_blk_accessor io_world \<Rightarrow> nvme_blk_accessor io_world" where
  "dma_put p bs w =
     (case p of ProgBuf b \<Rightarrow> w\<lparr>buffers := (buffers w)(b := bs @ drop (length bs) (buffers w b))\<rparr>
      | CacheBuf q \<Rightarrow> w\<lparr>accessor := (accessor w)\<lparr>na_cache := (na_cache (accessor w))\<lparr>c_mem := (c_mem (na_cache (accessor w)))(q := bs)\<rparr>\<rparr>\<rparr>)"

text \<open>The transfer of the data, done by the device.\<close>

definition nvme_transfer :: "nvme_callback_para \<Rightarrow> nvme_blk_accessor io_world \<Rightarrow> nvme_blk_accessor io_world" where
  "nvme_transfer p w =
     (let s = accessor w in
      case np_type p of
        read_io \<Rightarrow> dma_put (np_buffer p) (sectors_read (na_sector_size s) (na_namespace s) (na_block_size s) (np_id p)) w
      | write_io \<Rightarrow> w\<lparr>accessor := s\<lparr>na_namespace := sectors_write (na_sector_size s) (na_block_size s) (np_id p) (dma_get (np_buffer p) w) (na_namespace s)\<rparr>\<rparr>)"

text \<open>
  The first half of \<^verbatim>\<open>context_call_back_function\<close>: estimator, metrics and tag.  Every 1024th command
  updates the latency, through a variable of type \<^verbatim>\<open>int\<close>.
\<close>

definition nvme_account :: "nvme_callback_para \<Rightarrow> nvme_blk_accessor io_world \<Rightarrow> nvme_blk_accessor io_world option" where
  "nvme_account p w0 =
     (case np_type p of
        read_io \<Rightarrow>
          do { e \<leftarrow> remove_read_io (np_io_id p) (na_estimator (accessor w0));
               let w = nvme_latency read_io (np_start_time p) (w0\<lparr>accessor := (accessor w0)\<lparr>na_estimator := e\<rparr>\<rparr>);
               let s = accessor w;
               let e' = (if np_io_id p mod 1024 = 0
                    then update_read_latency_in_cycles (scast (ucast (get_recent_avg_read_latency_in_cycles (na_metrics s)) :: 32 word)) (na_estimator s)
                    else na_estimator s);
               Some (w\<lparr>accessor := s\<lparr>na_estimator := e', recent_reads := recent_reads s + 1\<rparr>,
                       ctxs := (ctxs w)(np_context p := set_tag CONTEXT_READ_IO (ctxs w (np_context p)))\<rparr>) }
      | write_io \<Rightarrow>
          do { e \<leftarrow> remove_write_io (np_io_id p) (na_estimator (accessor w0));
               let w = nvme_latency write_io (np_start_time p) (w0\<lparr>accessor := (accessor w0)\<lparr>na_estimator := e\<rparr>\<rparr>);
               let s = accessor w;
               let e' = (if np_io_id p mod 1024 = 0
                    then update_write_latency_in_cycles (scast (ucast (get_recent_avg_write_latency_in_cycles (na_metrics s)) :: 32 word)) (na_estimator s)
                    else na_estimator s);
               Some (w\<lparr>accessor := s\<lparr>na_estimator := e', recent_writes := recent_writes s + 1\<rparr>,
                       ctxs := (ctxs w)(np_context p := set_tag CONTEXT_WRITE_IO (ctxs w (np_context p)))\<rparr>) })"

definition context_call_back_function :: "nvme_driver \<Rightarrow> nvme_callback_para \<Rightarrow> nvme_blk_accessor io_world \<Rightarrow> nvme_blk_accessor io_world option" where
  "context_call_back_function D p w0 =
     do { w \<leftarrow> nvme_account p w0;
          (evicted, cache) \<leftarrow> cache_write (np_id p) (dma_get (np_buffer p) w) False (na_cache (accessor w));
          let w1 = w\<lparr>accessor := (accessor w)\<lparr>na_cache := cache\<rparr>\<rparr>;
          let rest = (\<lambda>w. nvme_make_ready (np_context p)
             (if np_evicted p then case np_buffer p of CacheBuf q \<Rightarrow> w\<lparr>accessor := (accessor w)\<lparr>na_cache := free_block q (na_cache (accessor w))\<rparr>\<rparr> | _ \<Rightarrow> w
              else w));
          case evicted of
            None \<Rightarrow> rest w1
          | Some u \<Rightarrow>
              if dirty u then Some (nvme_asynch_write_evicted D (unit_id u) (data u) (np_context p) w1)
              else rest (w1\<lparr>accessor := (accessor w1)\<lparr>na_cache := free_block (data u) (na_cache (accessor w1))\<rparr>\<rparr>) }"

fun nvme_complete :: "nvme_driver \<Rightarrow> nvme_callback_para list \<Rightarrow> nvme_blk_accessor io_world \<Rightarrow> nvme_blk_accessor io_world option" where
  "nvme_complete D [] w = Some w"
| "nvme_complete D (p # ps) w = context_call_back_function D p (nvme_transfer p w) \<bind> nvme_complete D ps"

definition nvme_process_completion :: "nvme_driver \<Rightarrow> int \<Rightarrow> nvme_blk_accessor io_world \<Rightarrow> (int \<times> nvme_blk_accessor io_world) option" where
  "nvme_process_completion D mx w =
     (case drv_completes D mx (na_outstanding (accessor w)) of (ps, rest) \<Rightarrow>
      do { w1 \<leftarrow> nvme_complete D ps (w\<lparr>accessor := (accessor w)\<lparr>na_outstanding := rest\<rparr>\<rparr>);
           let processed = int (length ps);
           let s = accessor w1;
           let n = pending_commands (na_metrics s) - word_of_int processed;
           Some (processed, w1\<lparr>accessor := s\<lparr>na_metrics := (na_metrics s)\<lparr>pending_commands := n,
             pending_command_counts := pending_command_counts (na_metrics s) @ [ucast n]\<rparr>\<rparr>\<rparr>) })"

definition nvme_process_ready_contexts :: "int \<Rightarrow> nvme_blk_accessor \<Rightarrow> int option" where
  "nvme_process_ready_contexts mx s = (if na_ready_contexts s \<noteq> [] \<and> 0 < mx then None else Some 0)"

section \<open>The regression estimator\<close>

text \<open>
  \<^verbatim>\<open>src/src/scheduler/linear_regression_estimator.h\<close>: the commands are counted by age in 20 buckets
  for reads and 20 for writes, and the counts are weighted.  Floating point numbers are a parameter:
  \<open>residual d\<close> is the value of \<^verbatim>\<open>(int)(width - cycles_to_microseconds(d))\<close>.  Counting into a bucket
  outside of the array is undefined.
\<close>

record 'f float_ops =
  f_zero :: 'f
  f_add :: "'f \<Rightarrow> 'f \<Rightarrow> 'f"
  f_mul_int :: "'f \<Rightarrow> int \<Rightarrow> 'f"
  f_trunc :: "'f \<Rightarrow> int"

definition lr_granularity :: int where "lr_granularity = 20"

definition lr_width :: int where "lr_width = 1000"

definition lr_offset :: "(64 word \<Rightarrow> int) \<Rightarrow> 64 word \<Rightarrow> 64 word \<Rightarrow> int" where
  "lr_offset residual now t = max 0 (residual (now - t)) div (lr_width div lr_granularity)"

fun lr_count :: "(64 word \<Rightarrow> int) \<Rightarrow> 64 word \<Rightarrow> int \<Rightarrow> 64 word list \<Rightarrow> int list \<Rightarrow> int list option" where
  "lr_count residual now base [] counts = Some counts"
| "lr_count residual now base (t # ts) counts =
     do { let i = lr_offset residual now t + base;
          n \<leftarrow> aget counts i;
          counts' \<leftarrow> aset counts i (n + 1);
          lr_count residual now base ts counts' }"

definition lr_counts :: "(64 word \<Rightarrow> int) \<Rightarrow> 64 word \<Rightarrow> ready_state_estimator \<Rightarrow> int list option" where
  "lr_counts residual now e =
     lr_count residual now 0 (read_time_array e) (replicate (nat (lr_granularity * 2)) 0) \<bind>
     lr_count residual now lr_granularity (write_time_array e)"

definition lr_estimate :: "'f float_ops \<Rightarrow> 'f list \<Rightarrow> (64 word \<Rightarrow> int) \<Rightarrow> 64 word \<Rightarrow> ready_state_estimator \<Rightarrow> int option" where
  "lr_estimate FL para residual now e =
     map_option (\<lambda>counts. f_trunc FL (fold (\<lambda>(p, n) acc. f_add FL acc (f_mul_int FL p n)) (zip para counts) (f_zero FL))) (lr_counts residual now e)"

definition lr_estimate_number_of_ready_reads :: "'f float_ops \<Rightarrow> 'f list \<Rightarrow> (64 word \<Rightarrow> int) \<Rightarrow> 64 word \<Rightarrow> nvme_blk_accessor io_world
    \<Rightarrow> (int \<times> nvme_blk_accessor io_world) option" where
  "lr_estimate_number_of_ready_reads FL read_para residual timestamp w =
     (case ticks w of (now, w1) \<Rightarrow> map_option (\<lambda>n. (n, w1)) (lr_estimate FL read_para residual now (na_estimator (accessor w1))))"

definition lr_estimate_number_of_ready_writes :: "'f float_ops \<Rightarrow> 'f list \<Rightarrow> (64 word \<Rightarrow> int) \<Rightarrow> 64 word \<Rightarrow> nvme_blk_accessor io_world
    \<Rightarrow> (int \<times> nvme_blk_accessor io_world) option" where
  "lr_estimate_number_of_ready_writes FL write_para residual timestamp w =
     (case ticks w of (now, w1) \<Rightarrow> map_option (\<lambda>n. (n, w1)) (lr_estimate FL write_para residual now (na_estimator (accessor w1))))"

text \<open>The virtual methods that the pull-based tree calls.\<close>

definition nvme_aio :: "nvme_driver \<Rightarrow> (blk_address list \<Rightarrow> blk_address) \<Rightarrow> 'f float_ops \<Rightarrow> 'f list \<Rightarrow> 'f list \<Rightarrow> (64 word \<Rightarrow> int)
    \<Rightarrow> nvme_blk_accessor aio_ops" where
  "nvme_aio D pick FL read_para write_para residual =
     \<lparr>aio_allocate = nvme_allocate pick, asynch_read = nvme_asynch_read D, asynch_write = nvme_asynch_write D,
      process_completion = nvme_process_completion D, ready_contexts = na_ready_contexts,
      set_ready_contexts = (\<lambda>cs s. s\<lparr>na_ready_contexts := cs\<rparr>),
      estimate_reads = lr_estimate_number_of_ready_reads FL read_para residual,
      estimate_writes = lr_estimate_number_of_ready_writes FL write_para residual\<rparr>"

section \<open>What the cache holds\<close>

text \<open>
  No unit of the cache is ever dirty: a completed command enters its block as clean, and the flag
  of a later write is lost.  So an evicted block is dropped and never written.
\<close>

definition clean :: "blk_cache \<Rightarrow> bool" where
  "clean c \<longleftrightarrow> (\<forall>u\<in>set (c_key c). \<not> dirty u)"

lemma cache_read_clean: "clean c \<Longrightarrow> cache_read i c = Some (h, c') \<Longrightarrow> clean c'"
  by (auto simp: clean_def cache_read_def cache_get_def Let_def dest!: find_unit_Some split: if_splits option.splits)

lemma cache_write_clean:
  assumes "clean c" "cache_write i buf d c = Some (e, c')" "\<not> d \<or> is_cached i c"
  shows "clean c'" "e = Some u \<Longrightarrow> \<not> dirty u"
proof -
  have "clean c' \<and> (\<forall>u. e = Some u \<longrightarrow> \<not> dirty u)"
  proof (cases "find_unit i c")
    case None
    then have "\<not> d" using assms(3) by (simp add: is_cached_def)
    then show ?thesis using assms(1,2) None
      by (auto simp: clean_def cache_write_def Let_def allocate_block_def insert_new_unit_def evict_unit_def blk_memcpy_def find_unit_def
          split: if_splits) (blast dest: in_set_butlastD)+
  next
    case (Some u)
    then have "\<not> dirty u" using assms(1) find_unit_Some [OF Some] by (simp add: clean_def)
    then show ?thesis using assms(1,2) Some
      by (auto simp: clean_def cache_write_def Let_def cache_get_def blk_memcpy_def find_unit_def split: if_splits option.splits)
  qed
  then show "clean c'" "e = Some u \<Longrightarrow> \<not> dirty u" by simp_all
qed

definition never_dirty :: "nvme_blk_accessor \<Rightarrow> bool" where
  "never_dirty s \<longleftrightarrow> clean (na_cache s) \<and> (\<forall>p\<in>set (na_outstanding s). \<not> np_evicted p)"

lemma nvme_latency_simps [simp]:
  "ctxs (nvme_latency k t w) = ctxs w" "buffers (nvme_latency k t w) = buffers w"
  "na_cache (accessor (nvme_latency k t w)) = na_cache (accessor w)" "na_outstanding (accessor (nvme_latency k t w)) = na_outstanding (accessor w)"
  "na_namespace (accessor (nvme_latency k t w)) = na_namespace (accessor w)"
  "na_ready_contexts (accessor (nvme_latency k t w)) = na_ready_contexts (accessor w)"
  "na_estimator (accessor (nvme_latency k t w)) = na_estimator (accessor w)"
  by (simp_all add: nvme_latency_def ticks_def split: prod.splits)

lemma nvme_make_ready_same:
  assumes "nvme_make_ready c w = Some w'"
  shows "na_cache (accessor w') = na_cache (accessor w)" "na_outstanding (accessor w') = na_outstanding (accessor w)" "buffers w' = buffers w"
    "na_namespace (accessor w') = na_namespace (accessor w)"
  using assms by (auto simp: nvme_make_ready_def bind_eq_Some_conv)

lemma nvme_make_ready_dirty: "nvme_make_ready c w = Some w' \<Longrightarrow> never_dirty (accessor w') = never_dirty (accessor w)"
  using nvme_make_ready_same [of c w w'] by (simp add: never_dirty_def)

lemma nvme_submit_ok: "never_dirty s \<Longrightarrow> \<not> np_evicted p \<Longrightarrow> never_dirty (nvme_submit D p s)"
  by (auto simp: nvme_submit_def never_dirty_def Let_def)

lemma nvme_asynch_read_clean:
  assumes "never_dirty (accessor w)" "nvme_asynch_read D a b c w = Some w'"
  shows "never_dirty (accessor w')"
proof -
  obtain h cache where r: "cache_read a (na_cache (accessor w)) = Some (h, cache)"
    using assms(2) by (auto simp: nvme_asynch_read_def ticks_def Let_def bind_eq_Some_conv)
  have "clean cache" using cache_read_clean [OF _ r] assms(1) by (simp add: never_dirty_def)
  with assms r show ?thesis
    by (auto simp: nvme_asynch_read_def ticks_def Let_def never_dirty_def nvme_submit_def dest!: nvme_make_ready_dirty split: option.splits if_splits)
qed

lemma nvme_asynch_write_clean:
  assumes "never_dirty (accessor w)" "nvme_asynch_write D a b c w = Some w'"
  shows "never_dirty (accessor w')"
proof (cases "is_cached a (na_cache (accessor w))")
  case True
  then obtain e cache where r: "cache_write a (buffers w b) True (na_cache (accessor w)) = Some (e, cache)"
    using assms(2) by (auto simp: nvme_asynch_write_def ticks_def Let_def bind_eq_Some_conv)
  have "clean cache" using cache_write_clean(1) [OF _ r] assms(1) True by (simp add: never_dirty_def)
  with assms r True show ?thesis
    by (auto simp: nvme_asynch_write_def ticks_def Let_def never_dirty_def dest!: nvme_make_ready_dirty split: option.splits if_splits)
next
  case False
  then show ?thesis using assms
    by (auto simp: nvme_asynch_write_def ticks_def Let_def never_dirty_def nvme_submit_def split: if_splits)
qed

lemma nvme_transfer_same:
  "never_dirty (accessor w) \<Longrightarrow> never_dirty (accessor (nvme_transfer p w))"
  by (auto simp: nvme_transfer_def never_dirty_def clean_def dma_put_def Let_def split: io_type.splits dma_ptr.splits)

lemma nvme_account_same:
  assumes "nvme_account p w = Some w'"
  shows "na_cache (accessor w') = na_cache (accessor w)" "na_outstanding (accessor w') = na_outstanding (accessor w)" "buffers w' = buffers w"
  using assms by (auto simp: nvme_account_def bind_eq_Some_conv Let_def split: io_type.splits)

lemma call_back_clean:
  assumes "never_dirty (accessor w)" "\<not> np_evicted p" "context_call_back_function D p w = Some w'"
  shows "never_dirty (accessor w')"
proof -
  obtain w1 e cache where a: "nvme_account p w = Some w1"
    and r: "cache_write (np_id p) (dma_get (np_buffer p) w1) False (na_cache (accessor w1)) = Some (e, cache)"
    using assms(3) by (auto simp: context_call_back_function_def bind_eq_Some_conv)
  have c: "clean (na_cache (accessor w1))" using assms(1) nvme_account_same [OF a] by (simp add: never_dirty_def)
  have k: "clean cache" "e = Some u \<Longrightarrow> \<not> dirty u" for u using cache_write_clean [OF c r] by simp_all
  have "clean (free_block q cache)" for q using k(1) by (simp add: clean_def free_block_def)
  with assms a r k show ?thesis
    by (auto simp: context_call_back_function_def never_dirty_def Let_def nvme_account_same dest!: nvme_make_ready_dirty
        split: option.splits if_splits)
qed

lemma nvme_complete_clean:
  assumes "never_dirty (accessor w)" "\<forall>p\<in>set ps. \<not> np_evicted p" "nvme_complete D ps w = Some w'"
  shows "never_dirty (accessor w')"
  using assms
proof (induction D ps w rule: nvme_complete.induct)
  case (2 D p ps w)
  then obtain w1 where w1: "context_call_back_function D p (nvme_transfer p w) = Some w1" "nvme_complete D ps w1 = Some w'"
    by (auto simp: bind_eq_Some_conv)
  have "never_dirty (accessor w1)" by (rule call_back_clean [OF nvme_transfer_same _ w1(1)]) (use "2.prems" in simp_all)
  then show ?case using "2.IH" [OF w1(1)] "2.prems"(2) w1(2) by simp
qed simp

text \<open>A driver completes outstanding commands only.\<close>

definition driver_ok :: "nvme_driver \<Rightarrow> bool" where
  "driver_ok D \<longleftrightarrow> (\<forall>mx ps. mset (fst (drv_completes D mx ps)) + mset (snd (drv_completes D mx ps)) = mset ps)"

lemma nvme_process_completion_clean:
  assumes "driver_ok D" "never_dirty (accessor w)" "nvme_process_completion D mx w = Some (n, w')"
  shows "never_dirty (accessor w')"
proof -
  obtain ps rest where d: "drv_completes D mx (na_outstanding (accessor w)) = (ps, rest)" by fastforce
  obtain w1 where w1: "nvme_complete D ps (w\<lparr>accessor := (accessor w)\<lparr>na_outstanding := rest\<rparr>\<rparr>) = Some w1"
    "na_cache (accessor w') = na_cache (accessor w1)" "na_outstanding (accessor w') = na_outstanding (accessor w1)"
    using assms(3) d by (auto simp: nvme_process_completion_def bind_eq_Some_conv Let_def)
  have m: "mset ps + mset rest = mset (na_outstanding (accessor w))"
    using assms(1) d unfolding driver_ok_def by (metis fst_conv snd_conv)
  have "set ps \<union> set rest = set (na_outstanding (accessor w))" using arg_cong [OF m, of set_mset] by simp
  then have "never_dirty (accessor (w\<lparr>accessor := (accessor w)\<lparr>na_outstanding := rest\<rparr>\<rparr>))" "\<forall>p\<in>set ps. \<not> np_evicted p"
    using assms(2) by (auto simp: never_dirty_def)
  from nvme_complete_clean [OF this w1(1)] show ?thesis using w1(2,3) by (simp add: never_dirty_def)
qed

text \<open>Everything that a program can do with the accessor; the rest of its memory is its own.\<close>

inductive nvme_reachable :: "nvme_driver \<Rightarrow> nvme_blk_accessor io_world \<Rightarrow> bool" for D where
  start: "accessor w = nvme_open (nvme_new n bs ss ns) \<Longrightarrow> nvme_reachable D w"
| rd: "nvme_reachable D w \<Longrightarrow> nvme_asynch_read D a b c w = Some w' \<Longrightarrow> nvme_reachable D w'"
| wr: "nvme_reachable D w \<Longrightarrow> nvme_asynch_write D a b c w = Some w' \<Longrightarrow> nvme_reachable D w'"
| poll: "nvme_reachable D w \<Longrightarrow> nvme_process_completion D mx w = Some (n, w') \<Longrightarrow> nvme_reachable D w'"
| alloc: "nvme_reachable D w \<Longrightarrow> nvme_allocate pick (accessor w) = (a, s) \<Longrightarrow> nvme_reachable D (w\<lparr>accessor := s\<rparr>)"
| dealloc: "nvme_reachable D w \<Longrightarrow> nvme_reachable D (w\<lparr>accessor := nvme_deallocate a (accessor w)\<rparr>)"
| other: "nvme_reachable D w \<Longrightarrow> nvme_reachable D (w\<lparr>ctxs := h, buffers := bs, accessor := (accessor w)\<lparr>na_ready_contexts := cs\<rparr>\<rparr>)"

lemma nvme_reachable_clean: "nvme_reachable D w \<Longrightarrow> driver_ok D \<Longrightarrow> never_dirty (accessor w)"
proof (induction rule: nvme_reachable.induct)
  case (start w n bs ss ns)
  then show ?case by (simp add: never_dirty_def clean_def nvme_open_def nvme_new_def cache_new_def)
next
  case (rd w a b c w')
  then show ?case using nvme_asynch_read_clean by blast
next
  case (wr w a b c w')
  then show ?case using nvme_asynch_write_clean by blast
next
  case (poll w mx n w')
  then show ?case using nvme_process_completion_clean by blast
qed (auto simp: never_dirty_def nvme_allocate_def nvme_deallocate_def Let_def split: if_splits)

end
