(* ===== verification/Spec2Isabelle.thy ===== *)
theory Spec2Isabelle
  imports Disk_Tree Lru Barrier_Safety Pull_Tree Concurrent_Correct Nvme
begin

text \<open>
  HEADER
\<close>

section \<open>Shared facts\<close>

lemma ins_split_append:
  assumes "sorted_keys xs" "length xs \<le> c" "2 \<le> c"
  shows "case ins_split c k v xs of (ys, None) \<Rightarrow> ys = kv_put k v xs | (ys, Some zs) \<Rightarrow> ys @ zs = kv_put k v xs"
  by (rule ins_split_cases [OF assms, of k v]) simp_all

lemma redistribute_append:
  assumes "length xs \<le> c" "length ys \<le> c" "length xs < UNDERFLOW_BOUND c \<or> length ys < UNDERFLOW_BOUND c"
  shows "case redistribute c xs ys of (xs', None) \<Rightarrow> xs' = xs @ ys | (xs', Some ys') \<Rightarrow> xs' @ ys' = xs @ ys"
proof -
  have "hd ys # tl ys = ys" if "UNDERFLOW_BOUND c < length ys" using that by (cases ys) simp_all
  moreover have "butlast xs @ [last xs] = xs" if "UNDERFLOW_BOUND c < length xs" using that by (cases xs) simp_all
  ultimately show ?thesis by (auto simp: redistribute_def)
qed

lemma map_of_sorted_set: "sorted_keys xs \<Longrightarrow> set xs = {(k, v). map_of xs k = Some v}"
  using map_of_eq_Some_iff [of xs] strict_sorted_iff by fastforce

lemma mem_reached:
  assumes "3 \<le> c" "vt_init mem_ops c mem_empty = Some T0" "vt_run mem_ops c junk xs T0 = Some (rs, T)"
  obtains t where "mem.tree_is c T t" "map_of (kvs t) = snd (map_run xs Map.empty)"
  using mem.tree_refines_map [where c = c and s = mem_empty and xs = xs and junk = junk] assms mem_empty_ok(1) by auto

lemma mem_runs:
  assumes "3 \<le> c"
  shows "\<exists>T0 rs T. vt_init mem_ops c mem_empty = Some T0 \<and> vt_run mem_ops c junk xs T0 = Some (rs, T)"
  using mem.tree_refines_map [where c = c and s = mem_empty and xs = xs and junk = junk] assms mem_empty_ok(1) by blast

lemma int32_block_fits: "block_fits int32_pod int32_entry_pod 3 512"
  by (simp add: block_fits_def int32_pod_def int32_entry_pod_def pod_pair_def)

section \<open>The in-memory tree\<close>

text \<open>
  C1: The in-memory tree is a map.  Started with \<^verbatim>\<open>init\<close> on an empty heap, every sequence of
  \<^verbatim>\<open>insert\<close>, \<^verbatim>\<open>delete_key\<close>, \<^verbatim>\<open>search\<close> and \<^verbatim>\<open>clear\<close> runs to its end without undefined behaviour, and
  the values it returns are those of the same operations on a finite map, whatever the
  out-of-range slot read by \<^verbatim>\<open>balance\<close> holds.  Capacities from 3 on.
\<close>

theorem in_memory_tree_is_a_map:
  assumes "3 \<le> c"
  shows "\<exists>T0 T. vt_init mem_ops c mem_empty = Some T0
     \<and> vt_run mem_ops c junk xs T0 = Some (fst (map_run xs Map.empty), T)"
  using mem.tree_refines_map [where c = c and s = mem_empty and xs = xs and junk = junk] assms mem_empty_ok(1) by blast

theorem in_memory_tree_is_a_map_witness:
  "\<exists>T0 T. vt_init mem_ops 3 mem_empty = Some T0
     \<and> vt_run mem_ops 3 (0, 0) [Insert (5::int) (50::int), Insert 3 30, Insert 8 80, Insert 1 10, Delete 5, Search 5, Search 8] T0
       = Some ([Done, Done, Done, Done, Deleted True, Found None, Found (Some 80)], T)"
  using in_memory_tree_is_a_map [of 3 "(0, 0)" "[Insert (5::int) (50::int), Insert 3 30, Insert 8 80, Insert 1 10, Delete 5, Search 5, Search 8]"]
  by simp

text \<open>
  C3: Iterating over the in-memory tree with \<^verbatim>\<open>get_iterator\<close> and \<^verbatim>\<open>next\<close> ends and returns every entry of
  the map exactly once, in the order of the keys.
\<close>

theorem in_memory_iteration:
  assumes "3 \<le> c" "vt_init mem_ops c mem_empty = Some T0" "vt_run mem_ops c junk xs T0 = Some (rs, T)"
  shows "\<exists>it T' ys s. vt_get_iterator mem_ops T = Some (it, T') \<and> iterate mem_ops it (store T') = Some (ys, s)
     \<and> sorted_keys ys \<and> map_of ys = snd (map_run xs Map.empty)"
proof -
  obtain t where t: "mem.tree_is c T t" "map_of (kvs t) = snd (map_run xs Map.empty)" using mem_reached [OF assms] .
  then show ?thesis
    using mem.vt_iterate_ok [OF t(1)] bt_ok_sorted [OF mem.tree_isD(3) [OF t(1)]] by fastforce
qed

theorem in_memory_iteration_witness:
  "\<exists>T0 rs T it T' ys s. vt_run mem_ops 3 (0, 0) [Insert (2::int) (20::int), Insert 1 10] T0 = Some (rs, T)
     \<and> vt_get_iterator mem_ops T = Some (it, T') \<and> iterate mem_ops it (store T') = Some (ys, s)
     \<and> sorted_keys ys \<and> map_of ys = [2 \<mapsto> 20, 1 \<mapsto> 10]"
proof -
  obtain T0 T rs where r: "vt_init mem_ops 3 mem_empty = Some T0"
    "vt_run mem_ops 3 (0, 0) [Insert (2::int) (20::int), Insert 1 10] T0 = Some (rs, T)"
    using mem_runs [OF order_refl, of "(0, 0)" "[Insert (2::int) (20::int), Insert 1 10]"] by blast
  show ?thesis using in_memory_iteration [OF _ r] r(2) by fastforce
qed

text \<open>
  C4: A \<^verbatim>\<open>range_search\<close> whose lower bound is a key of the in-memory tree gives an iterator that returns
  exactly the entries with keys between the bounds, in order.
\<close>

theorem in_memory_range_search:
  assumes "3 \<le> c" "vt_init mem_ops c mem_empty = Some T0" "vt_run mem_ops c junk xs T0 = Some (rs, T)"
    and "low \<in> dom (snd (map_run xs Map.empty))"
  shows "\<exists>it T' ys s. vt_range_search mem_ops low high T = Some (it, T') \<and> iterate mem_ops it (store T') = Some (ys, s)
     \<and> sorted_keys ys \<and> set ys = {(k, v). snd (map_run xs Map.empty) k = Some v \<and> low \<le> k \<and> k \<le> high}"
proof -
  obtain t where t: "mem.tree_is c T t" "map_of (kvs t) = snd (map_run xs Map.empty)" using mem_reached [OF assms(1-3)] .
  have s: "sorted_keys (kvs t)" by (rule bt_ok_sorted [OF mem.tree_isD(3) [OF t(1)]])
  have "low \<in> keys (kvs t)" using assms(4) t(2) by (metis dom_map_of_conv_image_fst)
  from mem.vt_range_search_ok [OF t(1) this, of high] obtain it T' s' where r: "vt_range_search mem_ops low high T = Some (it, T')"
    "iterate mem_ops it (store T') = Some (filter (\<lambda>e. low \<le> fst e \<and> fst e \<le> high) (kvs t), s')" by blast
  moreover have "set (filter (\<lambda>e. low \<le> fst e \<and> fst e \<le> high) (kvs t))
      = {(k, v). snd (map_run xs Map.empty) k = Some v \<and> low \<le> k \<and> k \<le> high}"
    using map_of_sorted_set [OF s] unfolding t(2) [symmetric] by auto
  ultimately show ?thesis using sorted_keys_filter [OF s] by blast
qed

theorem in_memory_range_search_witness:
  "\<exists>T0 rs T it T' ys s. vt_run mem_ops 3 (0, 0) [Insert (2::int) (20::int), Insert 1 10] T0 = Some (rs, T)
     \<and> vt_range_search mem_ops 1 5 T = Some (it, T') \<and> iterate mem_ops it (store T') = Some (ys, s) \<and> (2, 20) \<in> set ys"
proof -
  obtain T0 T rs where r: "vt_init mem_ops 3 mem_empty = Some T0"
    "vt_run mem_ops 3 (0, 0) [Insert (2::int) (20::int), Insert 1 10] T0 = Some (rs, T)"
    using mem_runs [OF order_refl, of "(0, 0)" "[Insert (2::int) (20::int), Insert 1 10]"] by blast
  show ?thesis using in_memory_range_search [OF _ r, of 1 5] r(2) by fastforce
qed

text \<open>
  C11: In the in-memory tree a \<^verbatim>\<open>range_search\<close> from below the smallest separator of an inner root is
  undefined: \<^verbatim>\<open>locate_key\<close> returns without setting the leaf reference, which is then used.
\<close>

theorem range_search_below_first_separator:
  assumes "mem.tree_is c T (BNode a ts)" "low < fst (hd ts)"
  shows "vt_range_search mem_ops low high T = None"
  by (rule mem.vt_range_search_unset [OF assms])

theorem range_search_below_first_separator_witness:
  "\<exists>(T :: (int, int) mem vtree) a ts. mem.tree_is 3 T (BNode a ts) \<and> vt_range_search mem_ops (fst (hd ts) - 1) 9 T = None"
proof -
  let ?xs = "[Insert (1::int) (10::int), Insert 2 20, Insert 3 30, Insert 4 40]"
  obtain T0 T rs where r: "vt_init mem_ops 3 mem_empty = Some T0" "vt_run mem_ops 3 (0, 0) ?xs T0 = Some (rs, T)"
    using mem_runs [OF order_refl, of "(0, 0)" ?xs] by blast
  obtain t where t: "mem.tree_is 3 T t" "map_of (kvs t) = snd (map_run ?xs Map.empty)" using mem_reached [OF order_refl r] .
  have "keys (kvs t) = {1, 2, 3, 4}" using t(2) by (auto simp: dom_map_of_conv_image_fst [symmetric])
  then have "card (keys (kvs t)) = 4" by simp
  then have "4 \<le> length (kvs t)" using card_length [of "map fst (kvs t)"] by simp
  then obtain a ts where "t = BNode a ts" using mem.tree_isD(3) [OF t(1)] by (cases t) auto
  then show ?thesis using range_search_below_first_separator [of 3 T a ts "fst (hd ts) - 1" 9] t(1) by auto
qed

text \<open>
  C12: \<^verbatim>\<open>toString\<close> of the in-memory tree returns the nested string of its nodes, and does not change the tree.
\<close>

theorem in_memory_toString:
  assumes "mem.tree_is c T t"
  shows "\<exists>T'. vt_toString mem_ops sk sv T = Some (bt_string sk sv t, T') \<and> mem.tree_is c T' t"
  by (rule mem.vt_toString_ok [OF assms])

theorem in_memory_toString_witness:
  "\<exists>(T :: (int, int) mem vtree) t T'. map_of (kvs t) = [1::int \<mapsto> 10::int]
     \<and> vt_toString mem_ops (\<lambda>k. ''k'') (\<lambda>v. ''v'') T = Some (bt_string (\<lambda>k. ''k'') (\<lambda>v. ''v'') t, T')"
proof -
  let ?xs = "[Insert (1::int) (10::int)]"
  obtain T0 T rs where r: "vt_init mem_ops 3 mem_empty = Some T0" "vt_run mem_ops 3 (0, 0) ?xs T0 = Some (rs, T)"
    using mem_runs [OF order_refl, of "(0, 0)" ?xs] by blast
  obtain t where t: "mem.tree_is 3 T t" "map_of (kvs t) = snd (map_run ?xs Map.empty)" using mem_reached [OF order_refl r] .
  then show ?thesis using in_memory_toString [OF t(1), of "\<lambda>k. ''k''" "\<lambda>v. ''v''"] by fastforce
qed

text \<open>
  C10: \<^verbatim>\<open>close\<close> of the in-memory tree frees the objects of the tree and no other object of the heap.
\<close>

theorem in_memory_close:
  assumes "mem.tree_is c T t"
  shows "\<exists>s. vt_close mem_ops T = Some s \<and> (\<forall>a. mem_blocks s a = (if a \<in> set (addrs t) then None else mem_blocks (store T) a))"
  using mem.vt_close_ok [OF assms] by (auto simp: mem.gone_def)

theorem in_memory_close_witness:
  "\<exists>(T :: (int, int) mem vtree) t s. map_of (kvs t) = [1::int \<mapsto> 10::int] \<and> vt_close mem_ops T = Some s
     \<and> (\<forall>a. mem_blocks s a = (if a \<in> set (addrs t) then None else mem_blocks (store T) a))"
proof -
  let ?xs = "[Insert (1::int) (10::int)]"
  obtain T0 T rs where r: "vt_init mem_ops 3 mem_empty = Some T0" "vt_run mem_ops 3 (0, 0) ?xs T0 = Some (rs, T)"
    using mem_runs [OF order_refl, of "(0, 0)" ?xs] by blast
  obtain t where t: "mem.tree_is 3 T t" "map_of (kvs t) = snd (map_run ?xs Map.empty)" using mem_reached [OF order_refl r] .
  then show ?thesis using in_memory_close [OF t(1)] by fastforce
qed

section \<open>Leaves\<close>

text \<open>
  C13: In a leaf whose entries are sorted, the binary search of \<^verbatim>\<open>search_key_position\<close> stays
  inside the array, finds a key exactly when an entry has it, and its position is the
  number of smaller keys; the linear scan that the source keeps as a comment gives the
  same answer.
\<close>

theorem binary_search_is_linear_search:
  assumes "leaf_ok c l"
  shows "search_key_position l k = Some (k \<in> keys (leaf_list l), int (rank k (leaf_list l)))
     \<and> linear_key_position l k = search_key_position l k"
  using search_key_position_rank [OF assms] linear_key_position_rank [OF assms] by simp

theorem binary_search_is_linear_search_witness:
  "search_key_position \<lparr>entries = [(1, 10), (3, 30), (5, 50), (0, 0 :: int)], leaf_size = 3, right_sibling = -1,
     leaf_self = 7, leaf_modified = False\<rparr> (3::int) = Some (True, 1)"
  using binary_search_is_linear_search [of 4 "\<lparr>entries = [(1, 10), (3, 30), (5, 50), (0, 0 :: int)], leaf_size = 3,
     right_sibling = -1, leaf_self = 7, leaf_modified = False\<rparr>" "3::int"]
  by (simp add: leaf_ok_def leaf_list_def rank_def)

text \<open>
  C14: \<^verbatim>\<open>LeafNode::insert_with_split_support\<close> puts the entry into the sorted entries.  Without a
  split the leaf keeps its sibling; with a split the two leaves hold the entries in
  order, the boundary key is the first key of the right leaf, and the right leaf comes
  between the left leaf and its old sibling.  Every leaf it leaves behind is flagged as
  modified.
\<close>

theorem leaf_insert_with_split_support_correct:
  assumes "leaf_repr c a xs sib l" "2 \<le> c"
  shows "(case ins_split c k v xs of
       (ys, None) \<Rightarrow> ys = kv_put k v xs \<and> (\<exists>l'. leaf_insert_with_split_support c rr k v l = Some (l', None)
          \<and> leaf_repr c a ys sib l' \<and> leaf_modified l')
     | (ys, Some zs) \<Rightarrow> ys @ zs = kv_put k v xs \<and> zs \<noteq> [] \<and> (\<exists>l' r'. leaf_insert_with_split_support c rr k v l
            = Some (l', Some \<lparr>split_left = l', split_right = r', boundary_key = fst (hd zs)\<rparr>)
          \<and> leaf_repr c a ys rr l' \<and> leaf_repr c rr zs sib r' \<and> leaf_modified l' \<and> leaf_modified r'))"
  using leaf_iwss_spec [OF assms, where k = k and v = v and rr = rr]
    ins_split_append [OF leaf_reprD(5) [OF assms(1)] _ assms(2), where k = k and v = v] leaf_reprD(6,7) [OF assms(1)]
  by (auto split: prod.splits option.splits)

theorem leaf_insert_with_split_support_correct_witness:
  "\<exists>l' r'. leaf_insert_with_split_support 2 9 (2::int) (20::int) \<lparr>entries = [(1, 10), (3, 30)], leaf_size = 2,
       right_sibling = -1, leaf_self = 7, leaf_modified = False\<rparr>
     = Some (l', Some \<lparr>split_left = l', split_right = r', boundary_key = 2\<rparr>)
   \<and> leaf_repr 2 7 [(1, 10)] 9 l' \<and> leaf_repr 2 9 [(2, 20), (3, 30)] (-1) r'"
  using leaf_insert_with_split_support_correct [of 2 7 "[(1, 10), (3, 30)]" "-1" "\<lparr>entries = [(1, 10), (3, 30)], leaf_size = 2,
       right_sibling = -1, leaf_self = 7, leaf_modified = False\<rparr>" "2::int" "20::int" 9]
  by (auto simp: leaf_repr_def leaf_ok_def leaf_list_def ins_split_def kv_put_def rank_def)

text \<open>
  C15: \<^verbatim>\<open>LeafNode::delete_key\<close> reports whether the key was there, removes its entry and closes the
  gap, and reports an underflow exactly when fewer than half of the slots stay in use.  A
  leaf without the key is not changed, nor is the underflow flag.
\<close>

theorem leaf_delete_key_correct:
  assumes "leaf_repr c a xs sib l"
  shows "\<exists>l'. leaf_delete_key c k u l
       = Some (k \<in> keys xs, if k \<in> keys xs then length (kv_del k xs) < UNDERFLOW_BOUND c else u, l')
     \<and> leaf_repr c a (kv_del k xs) sib l' \<and> (if k \<in> keys xs then leaf_modified l' else l' = l)"
  by (rule leaf_delete_key_spec [OF assms])

theorem leaf_delete_key_correct_witness:
  "\<exists>l'. leaf_delete_key 4 (3::int) False \<lparr>entries = [(1, 10), (3, 30), (5, 50), (0, 0 :: int)], leaf_size = 3,
       right_sibling = -1, leaf_self = 7, leaf_modified = False\<rparr> = Some (True, False, l')
   \<and> leaf_repr 4 7 [(1, 10), (5, 50)] (-1) l' \<and> leaf_modified l'"
  using leaf_delete_key_correct [of 4 7 "[(1, 10), (3, 30), (5, 50)]" "-1" "\<lparr>entries = [(1, 10), (3, 30), (5, 50), (0, 0 :: int)],
       leaf_size = 3, right_sibling = -1, leaf_self = 7, leaf_modified = False\<rparr>" "3::int" False]
  by (simp add: leaf_repr_def leaf_ok_def leaf_list_def kv_del_def UNDERFLOW_BOUND_def)

text \<open>
  C16: \<^verbatim>\<open>LeafNode::balance\<close>, called when one of two neighbouring leaves has too few entries, keeps
  the entries of the two leaves in order.  It moves one entry from the fuller leaf and
  returns the first key of the right leaf, or it merges the right leaf into the left
  one, which takes over the sibling link; a merge fits into the array.
\<close>

theorem leaf_balance_correct:
  assumes "leaf_repr c a xs s1 l" "leaf_repr c b ys s2 r" "sorted_keys (xs @ ys)"
    and "length xs < UNDERFLOW_BOUND c \<or> length ys < UNDERFLOW_BOUND c"
  shows "(case redistribute c xs ys of
       (xs', Some ys') \<Rightarrow> xs' @ ys' = xs @ ys \<and> ys' \<noteq> [] \<and> (\<exists>l' r'. leaf_balance c l r = Some (l', r', Some (fst (hd ys')))
          \<and> leaf_repr c a xs' s1 l' \<and> leaf_repr c b ys' s2 r' \<and> leaf_modified l' \<and> leaf_modified r')
     | (xs', None) \<Rightarrow> xs' = xs @ ys \<and> (\<exists>l' r'. leaf_balance c l r = Some (l', r', None)
          \<and> leaf_repr c a xs' s2 l' \<and> leaf_modified l'))"
  using leaf_balance_spec [OF assms] redistribute_append [of xs c ys] leaf_reprD(6,7) [OF assms(1)] leaf_reprD(6,7) [OF assms(2)] assms(4)
  by (auto split: prod.splits option.splits)

theorem leaf_balance_correct_witness:
  "\<exists>l' r'. leaf_balance 4 \<lparr>entries = [(1::int, 10::int), (0, 0), (0, 0), (0, 0)], leaf_size = 1, right_sibling = 8,
       leaf_self = 7, leaf_modified = False\<rparr> \<lparr>entries = [(3, 30), (5, 50), (6, 60), (0, 0)], leaf_size = 3,
       right_sibling = -1, leaf_self = 8, leaf_modified = False\<rparr> = Some (l', r', Some 5)
   \<and> leaf_repr 4 7 [(1, 10), (3, 30)] 8 l' \<and> leaf_repr 4 8 [(5, 50), (6, 60)] (-1) r'"
  using leaf_balance_correct [of 4 7 "[(1::int, 10::int)]" 8 "\<lparr>entries = [(1, 10), (0, 0), (0, 0), (0, 0)], leaf_size = 1,
       right_sibling = 8, leaf_self = 7, leaf_modified = False\<rparr>" 8 "[(3, 30), (5, 50), (6, 60)]" "-1"
       "\<lparr>entries = [(3, 30), (5, 50), (6, 60), (0, 0)], leaf_size = 3,
       right_sibling = -1, leaf_self = 8, leaf_modified = False\<rparr>"]
  by (auto simp: leaf_repr_def leaf_ok_def leaf_list_def redistribute_def UNDERFLOW_BOUND_def)

section \<open>Blocks, caches and the disk tree\<close>



text \<open>
  C6: A node of capacity \<open>c\<close> that is written into a block with \<^verbatim>\<open>serialize\<close> is read back by
  \<^verbatim>\<open>deserialize\<close> with the same contents: the type tag, the entries or keys and children, and the
  references.  The serialisation stays inside the buffer.
\<close>

theorem node_block_round_trip:
  assumes "node_layout P E" "node_fits c n" "\<forall>x\<in>content_refs (content n). int64_ok x" "block_fits P E c (length buffer)"
  shows "\<exists>buf n'. specific_serialize P E n buffer = Some buf \<and> length buf = length buffer
     \<and> specific_deserialize P E c buf = Some n' \<and> content n' = content n \<and> node_fits c n' \<and> \<not> is_modified n'"
  by (rule node_layout.node_round_trip [OF assms])

theorem node_block_round_trip_witness:
  "\<exists>buf n'. specific_serialize int32_pod int32_entry_pod
       (LeafN \<lparr>entries = [(int32_of_int 1, int32_of_int 10), (int32_of_int 2, int32_of_int 20), (int32_of_int 0, int32_of_int 0)],
         leaf_size = 2, right_sibling = -1, leaf_self = 7, leaf_modified = True\<rparr>) (replicate 512 0) = Some buf
     \<and> specific_deserialize int32_pod int32_entry_pod 3 buf = Some n'
     \<and> content n' = LeafC 7 [(int32_of_int 1, int32_of_int 10), (int32_of_int 2, int32_of_int 20)] (-1)"
  using node_block_round_trip [of int32_pod int32_entry_pod 3 "LeafN \<lparr>entries = [(int32_of_int 1, int32_of_int 10),
      (int32_of_int 2, int32_of_int 20), (int32_of_int 0, int32_of_int 0)], leaf_size = 2, right_sibling = -1, leaf_self = 7,
      leaf_modified = True\<rparr>" "replicate 512 0"] int32_nodes.node_layout_axioms int32_block_fits
  by (auto simp: int64_ok_def leaf_list_def)

text \<open>
  C5: With eviction: after \<^verbatim>\<open>write\<close> of a block that is not cached, or whose cache unit is flagged as
  dirty, \<^verbatim>\<open>read\<close> returns what was written, and every other block that could be read can still be
  read with the same contents.  Clean units agree with the file before and after.
\<close>

theorem file_write_then_read:
  assumes "file_ok s" "is_address_valid a s" "0 \<le> a" "writes_dirty a s" "length b = fa_block_size s" "length buf = fa_block_size s"
  shows "\<exists>s1 s2. file_write a b s = Some (fa_block_size s, s1) \<and> file_read a buf s1 = Some (fa_block_size s, b, s2)
     \<and> file_ok s1 \<and> file_ok s2
     \<and> (\<forall>x v. 0 \<le> x \<longrightarrow> x \<noteq> a \<longrightarrow> file_view s x = Some v \<longrightarrow> file_view s1 x = Some v \<and> file_view s2 x = Some v)"
proof -
  obtain s1 where s1: "file_write a b s = Some (fa_block_size s, s1)" "file_ok s1" "file_view s1 a = Some b"
    "\<forall>x v. 0 \<le> x \<longrightarrow> x \<noteq> a \<longrightarrow> file_view s x = Some v \<longrightarrow> file_view s1 x = Some v"
    "freed_blk_addresses s1 = freed_blk_addresses s" "fa_cursor s1 = fa_cursor s" "fa_block_size s1 = fa_block_size s"
    using file_write_view [OF assms(1-5)] by blast
  have "is_address_valid a s1" "length buf = fa_block_size s1" using assms(2,6) s1(5-7) by (simp_all add: is_address_valid_def)
  from file_read_view [OF s1(2) this(1) assms(3) s1(3) this(2)] show ?thesis using s1 by metis
qed

theorem file_write_then_read_witness:
  "\<exists>s1 s2. file_write 1 [8] ((file_new_with 1 1)\<lparr>fa_fd := 3, fa_cursor := 2\<rparr>) = Some (1, s1) \<and> file_read 1 [0] s1 = Some (1, [8], s2)"
  using file_write_then_read [of "(file_new_with 1 1)\<lparr>fa_fd := 3, fa_cursor := 2\<rparr>" 1 "[8]" "[0]"]
  by (auto simp: file_ok_def file_new_with_def cache_new_def cache_ok_def cache_ids_def is_address_valid_def writes_dirty_def)


text \<open>
  C9: The address that \<^verbatim>\<open>allocate\<close> hands out was not valid before, is valid afterwards, and no other
  address changes; \<^verbatim>\<open>deallocate\<close> of a valid address takes back this address and no other.
\<close>

theorem file_allocate_deallocate:
  assumes "\<forall>ys. ys \<noteq> [] \<longrightarrow> pick ys \<in> set ys" "\<forall>a\<in>set (freed_blk_addresses s). a < uint (fa_cursor s)" "uint (fa_cursor s) < 2 ^ 32 - 1"
    and "file_allocate pick s = (a, s')"
  shows "\<not> is_address_valid a s \<and> (\<forall>x. is_address_valid x s' \<longleftrightarrow> x = a \<or> is_address_valid x s)
     \<and> (\<forall>x b. is_address_valid b s \<longrightarrow> is_address_valid x (file_deallocate b s) \<longleftrightarrow> x \<noteq> b \<and> is_address_valid x s)"
proof -
  have u: "uint (fa_cursor s + 1) = uint (fa_cursor s) + 1" using assms(3) by (simp add: uint_word_ariths)
  have "\<not> is_address_valid a s \<and> (\<forall>x. is_address_valid x s' \<longleftrightarrow> x = a \<or> is_address_valid x s)"
  proof (cases "freed_blk_addresses s = []")
    case True
    then have "a = uint (fa_cursor s)" "s' = s\<lparr>fa_cursor := fa_cursor s + 1\<rparr>" using assms(4) by (simp_all add: file_allocate_def)
    then show ?thesis using True u by (auto simp: is_address_valid_def)
  next
    case False
    then have "a \<in> set (freed_blk_addresses s)" "s' = s\<lparr>freed_blk_addresses := removeAll a (freed_blk_addresses s)\<rparr>"
      using assms(1,4) by (auto simp: file_allocate_def Let_def)
    then show ?thesis using assms(2) by (auto simp: is_address_valid_def)
  qed
  moreover have "is_address_valid x (file_deallocate b s) \<longleftrightarrow> x \<noteq> b \<and> is_address_valid x s" if "is_address_valid b s" for x b
    using that by (auto simp: is_address_valid_def file_deallocate_def)
  ultimately show ?thesis by blast
qed

theorem file_allocate_deallocate_witness:
  "\<not> is_address_valid 0 (file_new 512) \<and> is_address_valid 0 (snd (file_allocate hd (file_new 512)))"
  using file_allocate_deallocate [of hd "file_new 512" 0 "(file_new 512)\<lparr>fa_cursor := 1\<rparr>"]
  by (simp add: file_new_def file_new_with_def file_allocate_def)

text \<open>
  C7: The block cache is an LRU cache of its capacity.  A \<^verbatim>\<open>write\<close> makes the block the most recently
  used one, drops the least recently used one when there are too many, and changes no other
  cached block; the number of units never exceeds the capacity.
\<close>

theorem cache_write_is_lru:
  assumes "cache_ok c" "length buf = c_blk_size c" "length (cache_ids c) \<le> c_capacity c" "0 < c_capacity c"
  shows "\<exists>e c'. cache_write i buf d c = Some (e, c') \<and> cache_ok c' \<and> cache_ids c' = lru_use (c_capacity c) i (cache_ids c)
     \<and> length (cache_ids c') \<le> c_capacity c'
     \<and> cached c' = (\<lambda>j. if j \<in> set (cache_ids c') then if j = i then Some buf else cached c j else None)"
proof -
  obtain e c' where c': "cache_write i buf d c = Some (e, c')" "cache_ok c'" "cache_ids c' = lru_use (c_capacity c) i (cache_ids c)"
    "cached c' = (\<lambda>j. if j \<in> set (cache_ids c') then if j = i then Some buf else cached c j else None)" "c_capacity c' = c_capacity c"
    using cache_write_lru [OF assms] by blast
  moreover have "length (cache_ids c') \<le> c_capacity c'" using c'(3,5) by (simp add: lru_use_def)
  ultimately show ?thesis by blast
qed

theorem cache_write_is_lru_witness:
  "\<exists>e c'. cache_write 4 [9] True \<lparr>c_blk_size = 1, c_capacity = 2, c_size = 2, c_key = [\<lparr>unit_id = 1, dirty = True, data = 0\<rparr>,
      \<lparr>unit_id = 2, dirty = False, data = 1\<rparr>], c_mem = (\<lambda>_. [0]), c_next = 2, c_free = [], read_hits = 0, read_probes = 0,
      write_hits = 0, write_probes = 0\<rparr> = Some (e, c') \<and> cache_ids c' = [4, 1]"
  using cache_write_is_lru [of "\<lparr>c_blk_size = 1, c_capacity = 2, c_size = 2, c_key = [\<lparr>unit_id = 1, dirty = True, data = 0\<rparr>,
      \<lparr>unit_id = 2, dirty = False, data = 1\<rparr>], c_mem = (\<lambda>_. [0]), c_next = 2, c_free = [], read_hits = 0, read_probes = 0,
      write_hits = 0, write_probes = 0\<rparr>" "[9]" 4 True]
  by (auto simp: cache_ok_def cache_ids_def lru_use_def)

text \<open>
  C18: \<^verbatim>\<open>invalidate\<close> reports whether the block was cached and removes it and no other block;
  \<^verbatim>\<open>mark_flushed\<close> keeps the cached blocks and takes the block out of the dirty ones that
  \<^verbatim>\<open>get_dirty_cache\<close> returns.
\<close>

theorem cache_invalidate_and_flush:
  assumes "cache_ok c"
  shows "(\<exists>c'. invalidate i c = (i \<in> set (cache_ids c), c') \<and> cache_ok c' \<and> cached c' = (cached c)(i := None))
     \<and> cache_ok (mark_flushed i c) \<and> cached (mark_flushed i c) = cached c
     \<and> get_dirty_cache (mark_flushed i c) = filter (\<lambda>u. unit_id u \<noteq> i) (get_dirty_cache c)"
  using invalidate_ok [OF assms] get_dirty_cache_flushed [OF assms] by blast

theorem cache_invalidate_and_flush_witness:
  "fst (invalidate 1 (cache_new 512 10)) = False \<and> cached (mark_flushed 1 (cache_new 512 10)) = cached (cache_new 512 10)"
  using cache_invalidate_and_flush [of "cache_new 512 10" 1] by (auto simp: cache_new_def cache_ok_def cache_ids_def)



text \<open>
  C20: \<^verbatim>\<open>get\<close> of the LRU map throws \<^verbatim>\<open>KeyNotFound\<close> exactly for the keys that are not there, also after
  \<^verbatim>\<open>remove\<close>; otherwise it returns the value and makes the entry the most recently used one.
\<close>

theorem lru_get_or_throw:
  assumes "lru_ok c"
  shows "lru_get k c = (case map_of (lru_keys c) k of None \<Rightarrow> Inl KeyNotFound | Some v \<Rightarrow> Inr (Some v, snd (tryGet k c)))
     \<and> lru_get k (snd (lru_remove k c)) = Inl KeyNotFound
     \<and> (k \<in> keys (lru_keys c) \<longrightarrow> fst (hd (lru_keys (snd (tryGet k c)))) = k)"
proof -
  note D = lru_okD [OF assms] and R = lru_remove_spec [OF assms, of k]
  have "k \<in> set (lru_cache c) \<longleftrightarrow> map_of (lru_keys c) k \<noteq> None" using D(3) by (simp add: map_of_eq_None_iff)
  moreover have "k \<notin> set (lru_cache (snd (lru_remove k c)))"
    using R(3) lru_okD(3) [OF R(2)] by (metis fun_upd_same map_of_eq_None_iff)
  ultimately show ?thesis using tryGet_spec [OF assms, of k] by (auto simp: lru_get_def split: option.splits intro!: prod_eqI)
qed

theorem lru_get_or_throw_witness:
  "lru_get (1::nat) (snd (lru_remove 1 \<lparr>lru_cache = [2, 1], lru_keys = [(2, ''b''), (1, ''a'')], maxSize = 2, elasticity = 1\<rparr>)) = Inl KeyNotFound"
  using lru_get_or_throw [of "\<lparr>lru_cache = [2, 1], lru_keys = [(2, ''b''), (1, ''a'')], maxSize = 2, elasticity = 1\<rparr>" "1::nat"]
  by (auto simp: lru_ok_def)

section \<open>Inner nodes\<close>

text \<open>
  C17: \<^verbatim>\<open>locate_child_index\<close> stays inside the array and returns the last child whose separator is not
  above the key, or -1 when the key is below the first separator.
\<close>

theorem locate_child_index_correct:
  assumes "inner_repr c a xs n"
  shows "\<exists>i. locate_child_index n k = Some i \<and> -1 \<le> i \<and> i < int (length xs)
     \<and> (\<forall>j<length xs. fst (xs ! j) \<le> k \<longleftrightarrow> int j \<le> i)"
proof -
  have s: "sorted_keys xs" by (rule inner_reprD(6) [OF assms])
  have "fst (xs ! j) \<le> k \<longleftrightarrow> int j \<le> child_index k xs" if j: "j < length xs" for j
  proof (cases "0 \<le> child_index k xs")
    case True
    let ?i = "nat (child_index k xs)"
    note C = child_index_split [OF s True]
    have "fst (xs ! j) < k" if "j < ?i" using C(3) that j by (force simp: in_set_conv_nth)
    moreover have "k < fst (xs ! j)" if "?i < j"
    proof -
      have "xs ! j \<in> set (drop (Suc ?i) xs)" using that j by (auto simp: in_set_conv_nth intro!: exI [of _ "j - Suc ?i"])
      then show ?thesis using C(4) by blast
    qed
    ultimately show ?thesis using C(2) True by (cases "j = ?i") (auto simp: neq_iff)
  next
    case False
    then have "length (filter (\<lambda>e. fst e \<le> k) xs) = 0" by (simp add: child_index_def)
    then have "\<not> fst (xs ! j) \<le> k" using j by (simp add: filter_empty_conv)
    then show ?thesis using False by simp
  qed
  then show ?thesis using locate_child_index_spec [OF assms, of k] child_index_bounds [of k xs] by blast
qed

theorem locate_child_index_correct_witness:
  "\<exists>i. locate_child_index \<lparr>key = [10, 20, 30, 0], inner_size = 3, child_rep = [4, 5, 6, -1], inner_self = 9, inner_modified = False\<rparr> (25::int) = Some i
     \<and> (\<forall>j<3. fst ([(10, 4::int), (20, 5), (30, 6)] ! j) \<le> (25::int) \<longleftrightarrow> int j \<le> i)"
  using locate_child_index_correct [of 4 9 "[(10, 4), (20, 5), (30, 6)]"
      "\<lparr>key = [10, 20, 30, 0], inner_size = 3, child_rep = [4, 5, 6, -1], inner_self = 9, inner_modified = False\<rparr>" "25::int"]
  by (auto simp: inner_repr_def inner_list_def numeral_3_eq_3)

end
